(* ===== verification/Prelude.thy ===== *)
theory Prelude
  imports Main "HOL-Library.Word" "HOL-Library.Code_Target_Nat"
begin

text \<open>
  Shared vocabulary of the development: the machine integers of the Rust sources as words,
  byte strings, results as sums with the propagation done by Rust's question mark operator
  (once for pure results, once for results that thread a state), little-endian encoding and
  slices. The lemmas here are the ones several components use.
\<close>

section \<open>Machine integers and byte strings\<close>

type_synonym byte = "8 word"
type_synonym bytes = "8 word list"
type_synonym u32 = "32 word"
type_synonym u64 = "64 word"

text \<open>
  Indices and lengths of buffers are \<open>usize\<close> in the sources; the supported targets are the
  64-bit Unix systems. They are modelled as natural numbers with the 64-bit limit written out
  in the one place where the code tests it, \<open>checked_add\<close>.
\<close>

definition usize_limit :: nat where
  "usize_limit = 2 ^ 64"

definition checked_add :: "nat \<Rightarrow> nat \<Rightarrow> nat option" where
  "checked_add a b = (if a + b < usize_limit then Some (a + b) else None)"

lemma checked_add_Some_iff:
  "checked_add a b = Some c \<longleftrightarrow> c = a + b \<and> a + b < usize_limit"
  by (auto simp: checked_add_def)

lemma checked_add_None_iff: "checked_add a b = None \<longleftrightarrow> usize_limit \<le> a + b"
  by (auto simp: checked_add_def)

section \<open>Results and their propagation\<close>

named_theorems res_iffs "inversion of successful and failing sequences of operations"

definition res_bind :: "'e + 'a \<Rightarrow> ('a \<Rightarrow> 'e + 'b) \<Rightarrow> 'e + 'b" where
  "res_bind r k = (case r of Inl e \<Rightarrow> Inl e | Inr x \<Rightarrow> k x)"

lemma res_bind_simps [simp]:
  "res_bind (Inl e) k = Inl e"
  "res_bind (Inr x) k = k x"
  by (simp_all add: res_bind_def)

lemma res_bind_Inr_iff [res_iffs]:
  "res_bind r k = Inr y \<longleftrightarrow> (\<exists>x. r = Inr x \<and> k x = Inr y)"
  by (cases r) auto

lemma res_bind_Inl_iff [res_iffs]:
  "res_bind r k = Inl e \<longleftrightarrow> r = Inl e \<or> (\<exists>x. r = Inr x \<and> k x = Inl e)"
  by (cases r) auto

lemma res_bind_cong [fundef_cong]:
  "r = r' \<Longrightarrow> (\<And>x. r' = Inr x \<Longrightarrow> k x = k' x) \<Longrightarrow> res_bind r k = res_bind r' k'"
  by (cases r') auto

text \<open>
  An operation on a state \<open>'s\<close> that can fail returns its result paired with the state it
  leaves behind, also when it fails.
\<close>

definition st_bind ::
  "('e + 'a) \<times> 's \<Rightarrow> ('a \<Rightarrow> 's \<Rightarrow> ('e + 'b) \<times> 's) \<Rightarrow> ('e + 'b) \<times> 's" where
  "st_bind m k = (case m of (Inl e, s) \<Rightarrow> (Inl e, s) | (Inr x, s) \<Rightarrow> k x s)"

lemma st_bind_simps [simp]:
  "st_bind (Inl e, s) k = (Inl e, s)"
  "st_bind (Inr x, s) k = k x s"
  by (simp_all add: st_bind_def)

lemma st_bind_Inr_iff [res_iffs]:
  "st_bind m k = (Inr y, t) \<longleftrightarrow> (\<exists>x s. m = (Inr x, s) \<and> k x s = (Inr y, t))"
  by (auto simp: st_bind_def split: prod.splits sum.splits)

lemma st_bind_Inl_iff [res_iffs]:
  "st_bind m k = (Inl e, t) \<longleftrightarrow>
     m = (Inl e, t) \<or> (\<exists>x s. m = (Inr x, s) \<and> k x s = (Inl e, t))"
  by (auto simp: st_bind_def split: prod.splits sum.splits)

lemma fst_Inr_iff [res_iffs]: "fst p = Inr x \<longleftrightarrow> (\<exists>s. p = (Inr x, s))"
  by (cases p) auto

lemma fst_Inl_iff [res_iffs]: "fst p = Inl e \<longleftrightarrow> (\<exists>s. p = (Inl e, s))"
  by (cases p) auto

lemma st_bind_cong [fundef_cong]:
  "m = m' \<Longrightarrow> (\<And>x s. m' = (Inr x, s) \<Longrightarrow> k x s = k' x s) \<Longrightarrow> st_bind m k = st_bind m' k'"
  by (auto simp: st_bind_def split: prod.splits sum.splits)

text \<open>The conversion of the error that the question mark operator inserts.\<close>

definition map_err :: "('e \<Rightarrow> 'f) \<Rightarrow> ('e + 'a) \<times> 's \<Rightarrow> ('f + 'a) \<times> 's" where
  "map_err f m = (case m of (Inl e, s) \<Rightarrow> (Inl (f e), s) | (Inr x, s) \<Rightarrow> (Inr x, s))"

lemma map_err_simps [simp]:
  "map_err f (Inl e, s) = (Inl (f e), s)"
  "map_err f (Inr x, s) = (Inr x, s)"
  by (simp_all add: map_err_def)

lemma map_err_Inr_iff [res_iffs]: "map_err f m = (Inr x, s) \<longleftrightarrow> m = (Inr x, s)"
  by (auto simp: map_err_def split: prod.splits sum.splits)

lemma map_err_Inl_iff [res_iffs]:
  "map_err f m = (Inl e, s) \<longleftrightarrow> (\<exists>e'. e = f e' \<and> m = (Inl e', s))"
  by (auto simp: map_err_def split: prod.splits sum.splits)

section \<open>Slices\<close>

text \<open>The range \<open>buf[a..b]\<close>; the callers establish \<open>a \<le> b \<le> length buf\<close>.\<close>

definition slice_of :: "'a list \<Rightarrow> nat \<Rightarrow> nat \<Rightarrow> 'a list" where
  "slice_of buf a b = take (b - a) (drop a buf)"

lemma length_slice [simp]: "b \<le> length buf \<Longrightarrow> length (slice_of buf a b) = b - a"
  by (simp add: slice_of_def)

lemma slice_append_left: "b \<le> length xs \<Longrightarrow> slice_of (xs @ ys) a b = slice_of xs a b"
  by (simp add: slice_of_def)

lemma slice_append_right:
  "a = length xs \<Longrightarrow> b = a + length ys \<Longrightarrow> slice_of (xs @ ys @ zs) a b = ys"
  by (simp add: slice_of_def)

lemma slice_whole: "slice_of xs 0 (length xs) = xs"
  by (simp add: slice_of_def)

lemma slice_take: "b \<le> n \<Longrightarrow> slice_of (take n xs) a b = slice_of xs a b"
  by (simp add: slice_of_def drop_take min_def)

lemma drop_eq_slice_append:
  "a \<le> b \<Longrightarrow> b \<le> length xs \<Longrightarrow> drop a xs = slice_of xs a b @ drop b xs"
  by (simp add: slice_of_def) (metis append_take_drop_id drop_drop le_add_diff_inverse2)

lemma slice_join:
  assumes "a \<le> b" and "b \<le> c"
  shows "slice_of xs a b @ slice_of xs b c = slice_of xs a c"
proof -
  have "take ((b - a) + (c - b)) (drop a xs) =
      take (b - a) (drop a xs) @ take (c - b) (drop (b - a) (drop a xs))"
    by (rule take_add)
  with assms show ?thesis by (simp add: slice_of_def)
qed

lemma slice_join_append:
  "a \<le> b \<Longrightarrow> b \<le> c \<Longrightarrow> slice_of xs a b @ slice_of xs b c @ ys = slice_of xs a c @ ys"
  by (metis append_assoc slice_join)

lemma take_eq_slice: "take n xs = slice_of xs 0 n"
  by (simp add: slice_of_def)

lemma slice_singleton: "a < length xs \<Longrightarrow> slice_of xs a (Suc a) = [xs ! a]"
  by (simp add: slice_of_def Cons_nth_drop_Suc [symmetric])

section \<open>Little-endian encoding\<close>

primrec le_bytes :: "nat \<Rightarrow> nat \<Rightarrow> bytes" where
  "le_bytes 0 v = []"
| "le_bytes (Suc n) v = of_nat (v mod 256) # le_bytes n (v div 256)"

primrec le_nat :: "bytes \<Rightarrow> nat" where
  "le_nat [] = 0"
| "le_nat (b # bs) = unat b + 256 * le_nat bs"

lemma length_le_bytes [simp]: "length (le_bytes n v) = n"
  by (induction n arbitrary: v) simp_all

lemma le_nat_le_bytes: "le_nat (le_bytes n v) = v mod 256 ^ n"
proof (induction n arbitrary: v)
  case (Suc n)
  have "unat (of_nat (v mod 256) :: byte) = v mod 256"
    by (simp add: unat_of_nat)
  with Suc show ?case by (simp add: mod_mult2_eq)
qed simp

lemma le_nat_bound: "le_nat bs < 256 ^ length bs"
proof (induction bs)
  case (Cons b bs)
  have "unat b < 256" using unsigned_less [of b, where ?'a = nat] by simp
  with Cons show ?case by simp
qed simp

lemma le_bytes_le_nat: "le_bytes (length bs) (le_nat bs) = bs"
proof (induction bs)
  case (Cons b bs)
  have "unat b < 256" using unsigned_less [of b, where ?'a = nat] by simp
  with Cons show ?case by simp
qed simp

definition u32_to_le_bytes :: "u32 \<Rightarrow> bytes" where
  "u32_to_le_bytes w = le_bytes 4 (unat w)"

definition u64_to_le_bytes :: "u64 \<Rightarrow> bytes" where
  "u64_to_le_bytes w = le_bytes 8 (unat w)"

definition u32_from_le_bytes :: "bytes \<Rightarrow> u32" where
  "u32_from_le_bytes bs = of_nat (le_nat bs)"

definition u64_from_le_bytes :: "bytes \<Rightarrow> u64" where
  "u64_from_le_bytes bs = of_nat (le_nat bs)"

lemma length_u32_to_le_bytes [simp]: "length (u32_to_le_bytes w) = 4"
  by (simp add: u32_to_le_bytes_def)

lemma length_u64_to_le_bytes [simp]: "length (u64_to_le_bytes w) = 8"
  by (simp add: u64_to_le_bytes_def)

lemma u32_from_to_le_bytes [simp]: "u32_from_le_bytes (u32_to_le_bytes w) = w"
proof -
  have "unat w < 256 ^ 4" using unsigned_less [of w, where ?'a = nat] by simp
  then show ?thesis
    by (simp add: u32_from_le_bytes_def u32_to_le_bytes_def le_nat_le_bytes)
qed

lemma u64_from_to_le_bytes [simp]: "u64_from_le_bytes (u64_to_le_bytes w) = w"
proof -
  have "unat w < 256 ^ 8" using unsigned_less [of w, where ?'a = nat] by simp
  then show ?thesis
    by (simp add: u64_from_le_bytes_def u64_to_le_bytes_def le_nat_le_bytes)
qed

lemma u32_to_from_le_bytes: "length bs = 4 \<Longrightarrow> u32_to_le_bytes (u32_from_le_bytes bs) = bs"
proof -
  assume len: "length bs = 4"
  then have "le_nat bs < 2 ^ 32" using le_nat_bound [of bs] by simp
  then have "unat (of_nat (le_nat bs) :: u32) = le_nat bs"
    by (simp add: unat_of_nat)
  with len show ?thesis
    using le_bytes_le_nat [of bs] by (simp add: u32_to_le_bytes_def u32_from_le_bytes_def)
qed

lemma u64_to_from_le_bytes: "length bs = 8 \<Longrightarrow> u64_to_le_bytes (u64_from_le_bytes bs) = bs"
proof -
  assume len: "length bs = 8"
  then have "le_nat bs < 2 ^ 64" using le_nat_bound [of bs] by simp
  then have "unat (of_nat (le_nat bs) :: u64) = le_nat bs"
    by (simp add: unat_of_nat)
  with len show ?thesis
    using le_bytes_le_nat [of bs] by (simp add: u64_to_le_bytes_def u64_from_le_bytes_def)
qed

lemma unat_u32_of_nat: "n < 2 ^ 32 \<Longrightarrow> unat (of_nat n :: u32) = n"
  by (simp add: unat_of_nat)

lemma unat_u64_of_nat: "n < 2 ^ 64 \<Longrightarrow> unat (of_nat n :: u64) = n"
  by (simp add: unat_of_nat)

lemma unat_u32_bound: "unat (w :: u32) < 2 ^ 32"
  using unsigned_less [of w, where ?'a = nat] by simp

lemma unat_u64_bound: "unat (w :: u64) < 2 ^ 64"
  using unsigned_less [of w, where ?'a = nat] by simp

lemma u64_less_inc: "(x :: u64) \<noteq> - 1 \<Longrightarrow> x < x + 1"
  by (meson inc_less_eq_triv_imp not_le)

lemma unat_u64_max: "unat (- 1 :: u64) = 2 ^ 64 - 1"
  by (simp add: unsigned_minus_1_eq_mask mask_eq_exp_minus_1)

lemma unat_u64_inc: "(x :: u64) \<noteq> - 1 \<Longrightarrow> unat (x + 1) = unat x + 1"
  using unatSuc [of x] by (simp add: add.commute add_eq_0_iff)

end
