(* ===== verification/Text.thy ===== *)
theory Text
  imports Prelude
begin

text \<open>
  The parts of the Rust standard library on text that the sources use: conversion between
  string literals and bytes, UTF-8 validation (\<open>std::str::from_utf8\<close>, with the position and
  length its error reports), \<open>from_utf8_lossy\<close>, decimal formatting and parsing
  (\<open>format!("{:06}")\<close>, \<open>str::parse\<close>), suffixes and whitespace. A Rust \<open>String\<close> is its UTF-8
  bytes; error messages and file names are HOL strings, whose characters are bytes as well.
\<close>

section \<open>Characters and bytes\<close>

definition to_bytes :: "string \<Rightarrow> bytes" where
  "to_bytes s = map (\<lambda>c. of_nat (of_char c)) s"

definition of_bytes :: "bytes \<Rightarrow> string" where
  "of_bytes bs = map (\<lambda>b. char_of (unat b)) bs"

lemma length_to_bytes [simp]: "length (to_bytes s) = length s"
  by (simp add: to_bytes_def)

lemma to_bytes_append [simp]: "to_bytes (s @ t) = to_bytes s @ to_bytes t"
  by (simp add: to_bytes_def)

lemma unat_of_nat_of_char: "unat (of_nat (of_char c) :: byte) = of_char c"
  using nat_of_char_less_256 [of c] by (simp add: unat_of_nat)

lemma of_bytes_to_bytes [simp]: "of_bytes (to_bytes s) = s"
  by (induction s) (simp_all add: of_bytes_def to_bytes_def unat_of_nat_of_char)

lemma to_bytes_inject [simp]: "to_bytes s = to_bytes t \<longleftrightarrow> s = t"
  by (metis of_bytes_to_bytes)


lemma of_nat_of_char_inject: "(of_nat (of_char c) :: byte) = of_nat (of_char d) \<longleftrightarrow> c = d"
  by (metis of_char_eq_iff unat_of_nat_of_char)

section \<open>UTF-8 validation\<close>

text \<open>
  \<open>Utf8_Error valid_up_to error_len\<close>: the sequence is valid up to the first index; \<open>error_len\<close>
  is the length of the offending sequence, or None when the input ends inside a character.
\<close>

datatype utf8_error = Utf8_Error nat "nat option"

definition in_range :: "byte \<Rightarrow> byte \<Rightarrow> byte \<Rightarrow> bool" where
  "in_range lo hi b \<longleftrightarrow> lo \<le> b \<and> b \<le> hi"

definition utf8_cont :: "byte \<Rightarrow> bool" where
  "utf8_cont b \<longleftrightarrow> in_range 0x80 0xBF b"

text \<open>The number of bytes the first byte of a character announces; 0 for an invalid first byte.\<close>

definition utf8_char_width :: "byte \<Rightarrow> nat" where
  "utf8_char_width b =
     (if b < 0x80 then 1
      else if in_range 0xC2 0xDF b then 2
      else if in_range 0xE0 0xEF b then 3
      else if in_range 0xF0 0xF4 b then 4
      else 0)"

text \<open>The range of the second byte excludes overlong forms, surrogates and code points beyond 10FFFF.\<close>

definition utf8_second_ok :: "byte \<Rightarrow> byte \<Rightarrow> bool" where
  "utf8_second_ok b0 b1 =
     (if b0 = 0xE0 then in_range 0xA0 0xBF b1
      else if b0 = 0xED then in_range 0x80 0x9F b1
      else if b0 = 0xF0 then in_range 0x90 0xBF b1
      else if b0 = 0xF4 then in_range 0x80 0x8F b1
      else utf8_cont b1)"

text \<open>
  One character at the front of a non-empty input: its width, or the length of the error.
\<close>

fun utf8_cont_run :: "nat \<Rightarrow> nat \<Rightarrow> bytes \<Rightarrow> nat option + unit" where
  "utf8_cont_run i 0 bs = Inr ()"
| "utf8_cont_run i (Suc n) bs =
     (case bs of
        [] \<Rightarrow> Inl None
      | b # bs \<Rightarrow> if utf8_cont b then utf8_cont_run (Suc i) n bs else Inl (Some i))"

fun utf8_char :: "bytes \<Rightarrow> nat option + nat" where
  "utf8_char [] = Inl None"
| "utf8_char (b0 # bs) =
     (let w = utf8_char_width b0 in
      if w = 0 then Inl (Some 1)
      else if w = 1 then Inr 1
      else (case bs of
              [] \<Rightarrow> Inl None
            | b1 # rest \<Rightarrow>
                if \<not> utf8_second_ok b0 b1 then Inl (Some 1)
                else res_bind (utf8_cont_run 2 (w - 2) rest) (\<lambda>_. Inr w)))"

lemma utf8_char_pos: "utf8_char bs = Inr n \<Longrightarrow> 0 < n"
  by (cases bs) (auto simp: Let_def res_iffs split: if_splits list.splits)

function utf8_validate :: "nat \<Rightarrow> bytes \<Rightarrow> utf8_error option" where
  "utf8_validate i bs =
     (if bs = [] then None
      else case utf8_char bs of
             Inl len \<Rightarrow> Some (Utf8_Error i len)
           | Inr n \<Rightarrow> utf8_validate (i + n) (drop n bs))"
  by pat_completeness auto
termination
  by (relation "measure (\<lambda>(i, bs). length bs)") (auto dest: utf8_char_pos)

declare utf8_validate.simps [simp del]

definition from_utf8 :: "bytes \<Rightarrow> utf8_error + bytes" where
  "from_utf8 bs = (case utf8_validate 0 bs of None \<Rightarrow> Inr bs | Some e \<Rightarrow> Inl e)"

definition utf8_valid :: "bytes \<Rightarrow> bool" where
  "utf8_valid bs \<longleftrightarrow> utf8_validate 0 bs = None"

lemma from_utf8_valid: "utf8_valid bs \<Longrightarrow> from_utf8 bs = Inr bs"
  by (simp add: from_utf8_def utf8_valid_def)

lemma from_utf8_Inr_iff: "from_utf8 bs = Inr s \<longleftrightarrow> utf8_valid bs \<and> s = bs"
  by (auto simp: from_utf8_def utf8_valid_def split: option.splits)

lemma from_utf8_invalid: "\<not> utf8_valid bs \<Longrightarrow> \<exists>e. from_utf8 bs = Inl e"
  by (auto simp: from_utf8_def utf8_valid_def split: option.splits)

lemma utf8_validate_ascii:
  "(\<And>b. b \<in> set bs \<Longrightarrow> b < 0x80) \<Longrightarrow> utf8_validate i bs = None"
proof (induction bs arbitrary: i)
  case Nil
  show ?case by (simp add: utf8_validate.simps)
next
  case (Cons b bs)
  then have "utf8_char (b # bs) = Inr 1"
    by (simp add: utf8_char_width_def)
  with Cons show ?case by (simp add: utf8_validate.simps [of i "b # bs"])
qed

lemma utf8_valid_ascii: "(\<And>b. b \<in> set bs \<Longrightarrow> b < 0x80) \<Longrightarrow> utf8_valid bs"
  by (simp add: utf8_valid_def utf8_validate_ascii)

lemma utf8_valid_Nil [simp]: "utf8_valid []"
  by (rule utf8_valid_ascii) simp

text \<open>\<open>String::from_utf8_lossy\<close>: every invalid sequence becomes U+FFFD.\<close>

definition replacement_char :: bytes where
  "replacement_char = [0xEF, 0xBF, 0xBD]"

function from_utf8_lossy :: "bytes \<Rightarrow> bytes" where
  "from_utf8_lossy bs =
     (if bs = [] then []
      else case utf8_char bs of
             Inr n \<Rightarrow> take n bs @ from_utf8_lossy (drop n bs)
           | Inl None \<Rightarrow> replacement_char
           | Inl (Some n) \<Rightarrow> replacement_char @ from_utf8_lossy (drop (max 1 n) bs))"
  by pat_completeness auto
termination
  by (relation "measure length") (auto dest: utf8_char_pos)

declare from_utf8_lossy.simps [simp del]

section \<open>Decimal numbers\<close>

definition digit_char :: "nat \<Rightarrow> char" where
  "digit_char d = char_of (48 + d)"

definition is_digit :: "char \<Rightarrow> bool" where
  "is_digit c \<longleftrightarrow> 48 \<le> (of_char c :: nat) \<and> (of_char c :: nat) \<le> 57"

definition digit_val :: "char \<Rightarrow> nat" where
  "digit_val c = of_char c - 48"

fun show_nat :: "nat \<Rightarrow> string" where
  "show_nat n = (if n < 10 then [digit_char n] else show_nat (n div 10) @ [digit_char (n mod 10)])"

declare show_nat.simps [simp del]

definition pad_zeros :: "nat \<Rightarrow> string \<Rightarrow> string" where
  "pad_zeros w s = replicate (w - length s) CHR ''0'' @ s"

definition digits_val :: "string \<Rightarrow> nat" where
  "digits_val s = foldl (\<lambda>acc c. acc * 10 + digit_val c) 0 s"

text \<open>
  \<open>str::parse::<u64>\<close>: an optional plus sign, then at least one digit and nothing else; a value
  of 2 to the 64 or more is an overflow error. \<open>str::parse::<i64>\<close> also takes a minus sign.
\<close>

definition parse_digits :: "string \<Rightarrow> nat option" where
  "parse_digits s = (if s \<noteq> [] \<and> list_all is_digit s then Some (digits_val s) else None)"

definition strip_sign :: "char \<Rightarrow> string \<Rightarrow> string option" where
  "strip_sign sign s = (case s of c # cs \<Rightarrow> if c = sign then Some cs else None | [] \<Rightarrow> None)"

definition parse_u64 :: "string \<Rightarrow> u64 option" where
  "parse_u64 s =
     (let ds = (case strip_sign CHR ''+'' s of Some t \<Rightarrow> t | None \<Rightarrow> s) in
      case parse_digits ds of
        Some n \<Rightarrow> if n < 2 ^ 64 then Some (of_nat n) else None
      | None \<Rightarrow> None)"

definition parse_i64_str :: "string \<Rightarrow> int option" where
  "parse_i64_str s =
     (case strip_sign CHR ''-'' s of
        Some t \<Rightarrow>
          (case parse_digits t of
             Some n \<Rightarrow> if n \<le> 2 ^ 63 then Some (- int n) else None
           | None \<Rightarrow> None)
      | None \<Rightarrow>
          (case parse_digits (case strip_sign CHR ''+'' s of Some t \<Rightarrow> t | None \<Rightarrow> s) of
             Some n \<Rightarrow> if n < 2 ^ 63 then Some (int n) else None
           | None \<Rightarrow> None))"

lemma of_char_digit_char: "d < 10 \<Longrightarrow> (of_char (digit_char d) :: nat) = 48 + d"
  by (simp add: digit_char_def)

lemma digit_char_simps [simp]:
  "d < 10 \<Longrightarrow> is_digit (digit_char d)"
  "d < 10 \<Longrightarrow> digit_val (digit_char d) = d"
  by (simp_all add: is_digit_def digit_val_def of_char_digit_char)

lemma zero_digit_simps [simp]:
  "is_digit CHR ''0''"
  "digit_val CHR ''0'' = 0"
  by (simp_all add: is_digit_def digit_val_def)

lemma sign_not_digit [simp]: "\<not> is_digit CHR ''+''" "\<not> is_digit CHR ''-''"
  by (simp_all add: is_digit_def)

lemma show_nat_ne [simp]: "show_nat n \<noteq> []"
  by (subst show_nat.simps) simp

lemma digits_val_snoc: "digits_val (s @ [c]) = digits_val s * 10 + digit_val c"
  by (simp add: digits_val_def)

lemma digits_val_zeros: "digits_val (replicate k CHR ''0'' @ s) = digits_val s"
  by (induction k) (simp_all add: digits_val_def)

lemma show_nat_digits: "list_all is_digit (show_nat n) \<and> digits_val (show_nat n) = n"
proof (induction n rule: show_nat.induct)
  case (1 n)
  show ?case
  proof (cases "n < 10")
    case True
    then show ?thesis
      by (simp add: show_nat.simps [of n] digits_val_def)
  next
    case False
    with "1.IH" show ?thesis
      by (simp add: show_nat.simps [of n] digits_val_snoc)
  qed
qed

lemma pad_show_digits: "list_all is_digit (pad_zeros w (show_nat n))"
  using show_nat_digits [of n] by (auto simp: pad_zeros_def list_all_iff)

lemma parse_digits_pad_show: "parse_digits (pad_zeros w (show_nat n)) = Some n"
  using show_nat_digits [of n] pad_show_digits [of w n]
  by (simp add: parse_digits_def pad_zeros_def digits_val_zeros)

lemma parse_digits_show: "parse_digits (show_nat n) = Some n"
  using show_nat_digits [of n] by (simp add: parse_digits_def)

lemma strip_sign_digits:
  "list_all is_digit s \<Longrightarrow> \<not> is_digit c \<Longrightarrow> strip_sign c s = None"
  by (cases s) (auto simp: strip_sign_def)

lemma parse_u64_pad_show: "parse_u64 (pad_zeros w (show_nat (unat n))) = Some n"
  using unat_u64_bound [of n]
  by (simp add: parse_u64_def strip_sign_digits [OF pad_show_digits] parse_digits_pad_show)

lemma pad_show_inject:
  "pad_zeros w (show_nat m) = pad_zeros w (show_nat n) \<longleftrightarrow> m = n"
  by (metis option.inject parse_digits_pad_show)

section \<open>Suffixes and whitespace\<close>

definition ends_with :: "'a list \<Rightarrow> 'a list \<Rightarrow> bool" where
  "ends_with s suf \<longleftrightarrow> length suf \<le> length s \<and> drop (length s - length suf) s = suf"

definition strip_suffix :: "'a list \<Rightarrow> 'a list \<Rightarrow> 'a list option" where
  "strip_suffix s suf = (if ends_with s suf then Some (take (length s - length suf) s) else None)"

lemma strip_suffix_append [simp]: "strip_suffix (s @ suf) suf = Some s"
  by (simp add: strip_suffix_def ends_with_def)

lemma ends_with_append [simp]: "ends_with (s @ suf) suf"
  by (simp add: ends_with_def)

lemma ends_with_iff: "ends_with s suf \<longleftrightarrow> (\<exists>p. s = p @ suf)"
  by (auto simp: ends_with_def) (metis append_take_drop_id)

lemma strip_suffix_Some_iff: "strip_suffix s suf = Some p \<longleftrightarrow> s = p @ suf"
proof
  assume "strip_suffix s suf = Some p"
  then have "drop (length s - length suf) s = suf" and "p = take (length s - length suf) s"
    by (auto simp: strip_suffix_def ends_with_def split: if_splits)
  then show "s = p @ suf" by (metis append_take_drop_id)
qed simp

text \<open>
  \<open>str::trim\<close> removes Unicode white space at both ends; \<open>white_space\<close> is the length of a white
  space character at the front of the input.
\<close>

definition ascii_space :: "byte \<Rightarrow> bool" where
  "ascii_space b \<longleftrightarrow> (0x09 \<le> b \<and> b \<le> 0x0D) \<or> b = 0x20"

fun white_space :: "bytes \<Rightarrow> nat option" where
  "white_space (a # bs) =
     (if ascii_space a then Some 1
      else case bs of
             b # cs \<Rightarrow>
               if a = 0xC2 \<and> (b = 0x85 \<or> b = 0xA0) then Some 2
               else (case cs of
                       c # _ \<Rightarrow>
                         if (a = 0xE1 \<and> b = 0x9A \<and> c = 0x80) \<or>
                            (a = 0xE2 \<and> b = 0x80 \<and>
                               ((0x80 \<le> c \<and> c \<le> 0x8A) \<or> c = 0xA8 \<or> c = 0xA9 \<or> c = 0xAF)) \<or>
                            (a = 0xE2 \<and> b = 0x81 \<and> c = 0x9F) \<or>
                            (a = 0xE3 \<and> b = 0x80 \<and> c = 0x80)
                         then Some 3 else None
                     | [] \<Rightarrow> None)
           | [] \<Rightarrow> None)"
| "white_space [] = None"

lemma white_space_pos: "white_space bs = Some n \<Longrightarrow> 0 < n \<and> bs \<noteq> []"
  by (cases bs) (auto split: if_splits list.splits)

function trim_start :: "bytes \<Rightarrow> bytes" where
  "trim_start bs = (case white_space bs of Some n \<Rightarrow> trim_start (drop n bs) | None \<Rightarrow> bs)"
  by pat_completeness auto
termination
  by (relation "measure length") (auto dest: white_space_pos)

declare trim_start.simps [simp del]

text \<open>The length of a white space character at the end of the input.\<close>

definition white_space_end :: "bytes \<Rightarrow> nat option" where
  "white_space_end bs =
     (case filter (\<lambda>k. k \<le> length bs \<and> white_space (drop (length bs - k) bs) = Some k) [1, 2, 3] of
        k # _ \<Rightarrow> Some k
      | [] \<Rightarrow> None)"

lemma white_space_end_pos: "white_space_end bs = Some k \<Longrightarrow> 0 < k \<and> k \<le> length bs"
  by (auto simp: white_space_end_def split: if_splits)

function trim_end :: "bytes \<Rightarrow> bytes" where
  "trim_end bs =
     (case white_space_end bs of Some k \<Rightarrow> trim_end (take (length bs - k) bs) | None \<Rightarrow> bs)"
  by pat_completeness auto
termination
  by (relation "measure length") (auto dest!: white_space_end_pos)

declare trim_end.simps [simp del]

definition trim :: "bytes \<Rightarrow> bytes" where
  "trim bs = trim_end (trim_start bs)"

text \<open>\<open>str::split_whitespace\<close>: the maximal runs of other characters.\<close>

function take_word :: "bytes \<Rightarrow> bytes \<times> bytes" where
  "take_word bs =
     (case bs of
        [] \<Rightarrow> ([], [])
      | b # rest \<Rightarrow>
          if white_space bs \<noteq> None then ([], bs)
          else (let (w, rest') = take_word rest in (b # w, rest')))"
  by pat_completeness auto
termination
  by (relation "measure length") auto

declare take_word.simps [simp del]

lemma take_word_length: "take_word bs = (w, rest) \<Longrightarrow> length w + length rest = length bs"
proof (induction bs arbitrary: w rest)
  case Nil
  then show ?case by (simp add: take_word.simps)
next
  case (Cons b bs)
  show ?case
  proof (cases "white_space (b # bs)")
    case None
    obtain w' rest' where "take_word bs = (w', rest')" by fastforce
    with Cons None show ?thesis
      by (auto simp: take_word.simps [of "b # bs"])
  next
    case (Some n)
    with Cons.prems show ?thesis by (auto simp: take_word.simps [of "b # bs"])
  qed
qed

lemma trim_start_length: "length (trim_start bs) \<le> length bs"
proof (induction bs rule: trim_start.induct)
  case (1 bs)
  show ?case
  proof (cases "white_space bs")
    case None
    then show ?thesis by (simp add: trim_start.simps [of bs])
  next
    case (Some n)
    with "1.IH" have "length (trim_start (drop n bs)) \<le> length bs"
      by fastforce
    with Some show ?thesis by (simp add: trim_start.simps [of bs])
  qed
qed

lemma trim_start_front: "white_space (trim_start bs) = None"
proof (induction bs rule: trim_start.induct)
  case (1 bs)
  then show ?case
    by (cases "white_space bs") (simp_all add: trim_start.simps [of bs])
qed

function split_whitespace :: "bytes \<Rightarrow> bytes list" where
  "split_whitespace bs =
     (let front = trim_start bs in
      if front = [] then []
      else (let (w, rest) = take_word front in w # split_whitespace rest))"
  by pat_completeness auto
termination
proof (relation "measure length", simp)
  fix bs front p w rest
  assume f: "front = trim_start bs" "front \<noteq> []" and p: "p = take_word front" "(w, rest) = p"
  then have "w \<noteq> []"
    using trim_start_front [of bs]
    by (auto simp: take_word.simps [of "trim_start bs"] split: list.splits prod.splits)
  then show "(rest, bs) \<in> measure length"
    using take_word_length [of front w rest] trim_start_length [of bs] f p
    by (cases w) auto
qed

declare split_whitespace.simps [simp del]

end
