(* ===== verification/Errors.thy ===== *)
theory Errors
  imports Text
begin

text \<open>
  The error types: \<open>KvsError\<close> of \<open>src/src/storage/error.rs\<close>, the wire-level \<open>ErrorCode\<close> of
  \<open>src/src/network/error.rs\<close> and the conversions between them. An \<open>io::Error\<close> is its kind and
  its message.
\<close>

section \<open>I/O errors\<close>

datatype io_kind =
    UnexpectedEof
  | InvalidInput
  | NotFound
  | AlreadyExists
  | PermissionDenied
  | IsADirectory
  | FileTooLarge
  | StorageFull
  | ConnectionReset
  | InvalidDataKind
  | OtherKind

datatype io_error = Io_Error (io_error_kind: io_kind) (io_error_msg: string)

section \<open>KvsError\<close>

text \<open>
  One constructor per variant. The payload of \<open>Serde\<close> is the message of the third-party JSON
  error; nothing in the crate produces that variant.
\<close>

datatype kvs_error =
    Io io_error
  | Serde string
  | KeyNotFound
  | UnexpectedCommandType
  | Corruption
  | Clock
  | Utf8 utf8_error
  | MissingDataFile u64
  | LockPoisoned
  | StoreLocked
  | InvalidData string
  | ServerInternal
  | EngineMismatch string string

fun utf8_error_to_string :: "utf8_error \<Rightarrow> string" where
  "utf8_error_to_string (Utf8_Error i (Some n)) =
     ''invalid utf-8 sequence of '' @ show_nat n @ '' bytes from index '' @ show_nat i"
| "utf8_error_to_string (Utf8_Error i None) =
     ''incomplete utf-8 byte sequence from index '' @ show_nat i"

fun kvs_error_to_string :: "kvs_error \<Rightarrow> string" where
  "kvs_error_to_string (Io e) = io_error_msg e"
| "kvs_error_to_string (Serde msg) = msg"
| "kvs_error_to_string KeyNotFound = ''Key not found''"
| "kvs_error_to_string UnexpectedCommandType = ''Unexpected command type''"
| "kvs_error_to_string Corruption = ''Corrupted record''"
| "kvs_error_to_string Clock = ''second time provided was later than self''"
| "kvs_error_to_string (Utf8 e) = utf8_error_to_string e"
| "kvs_error_to_string (MissingDataFile i) = ''Data file not found, id '' @ show_nat (unat i)"
| "kvs_error_to_string LockPoisoned = ''Lock poisoned''"
| "kvs_error_to_string StoreLocked = ''Store is locked by another process''"
| "kvs_error_to_string (InvalidData msg) = ''Invalid data: '' @ msg"
| "kvs_error_to_string ServerInternal = ''Internal server error''"
| "kvs_error_to_string (EngineMismatch found requested) =
     ''Store directory belongs to the '' @ [CHR 0x27] @ found @ [CHR 0x27] @
     '' engine, not '' @ [CHR 0x27] @ requested @ [CHR 0x27]"

section \<open>ErrorCode\<close>

datatype error_code = EC_KeyNotFound | EC_Internal | EC_InvalidRequest

text \<open>The discriminants, \<open>code as u8\<close>.\<close>

fun error_code_to_u8 :: "error_code \<Rightarrow> byte" where
  "error_code_to_u8 EC_KeyNotFound = 1"
| "error_code_to_u8 EC_Internal = 2"
| "error_code_to_u8 EC_InvalidRequest = 3"

fun error_code_to_string :: "error_code \<Rightarrow> string" where
  "error_code_to_string EC_KeyNotFound = ''Key not found''"
| "error_code_to_string EC_Internal = ''Internal server error''"
| "error_code_to_string EC_InvalidRequest = ''Invalid request''"

fun error_code_from_error :: "kvs_error \<Rightarrow> error_code" where
  "error_code_from_error KeyNotFound = EC_KeyNotFound"
| "error_code_from_error (InvalidData _) = EC_InvalidRequest"
| "error_code_from_error _ = EC_Internal"

fun error_from_error_code :: "error_code \<Rightarrow> kvs_error" where
  "error_from_error_code EC_KeyNotFound = KeyNotFound"
| "error_from_error_code EC_InvalidRequest = InvalidData ''rejected by server''"
| "error_from_error_code EC_Internal = ServerInternal"

definition error_code_try_from :: "byte \<Rightarrow> kvs_error + error_code" where
  "error_code_try_from b =
     (if b = 1 then Inr EC_KeyNotFound
      else if b = 2 then Inr EC_Internal
      else if b = 3 then Inr EC_InvalidRequest
      else Inl UnexpectedCommandType)"

lemma error_code_try_from_to_u8 [simp]: "error_code_try_from (error_code_to_u8 c) = Inr c"
  by (cases c) (simp_all add: error_code_try_from_def)

text \<open>
  Crossing the wire twice changes nothing: the error a client reconstructs from a code is
  classified by the server side as the same code.
\<close>

lemma error_code_wire_stable [simp]: "error_code_from_error (error_from_error_code c) = c"
  by (cases c) simp_all

end
