(* ===== verification/Bytes_Util.thy ===== *)
theory Bytes_Util
  imports Errors
begin

text \<open>
  \<open>BytesUtil\<close> of \<open>src/src/storage/bytes_util.rs\<close>: bounds-checked reads from a buffer at a
  cursor. The cursor is the state: each operation returns it also when it fails.
\<close>

definition eof_error :: io_error where
  "eof_error = Io_Error UnexpectedEof ''unexpected end of buffer''"

definition cursor_overflow :: io_error where
  "cursor_overflow = Io_Error InvalidDataKind ''cursor overflow''"

definition length_overflow :: io_error where
  "length_overflow = Io_Error InvalidDataKind ''length overflow''"

definition read_u8 :: "bytes \<Rightarrow> nat \<Rightarrow> (io_error + byte) \<times> nat" where
  "read_u8 buf cursor =
     (if length buf \<le> cursor then (Inl eof_error, cursor)
      else (Inr (buf ! cursor), cursor + 1))"

definition read_u32 :: "bytes \<Rightarrow> nat \<Rightarrow> (io_error + u32) \<times> nat" where
  "read_u32 buf cursor =
     (case checked_add cursor 4 of
        None \<Rightarrow> (Inl cursor_overflow, cursor)
      | Some e \<Rightarrow>
          if length buf < e then (Inl eof_error, cursor)
          else (Inr (u32_from_le_bytes (slice_of buf cursor e)), e))"

definition read_u64 :: "bytes \<Rightarrow> nat \<Rightarrow> (io_error + u64) \<times> nat" where
  "read_u64 buf cursor =
     (case checked_add cursor 8 of
        None \<Rightarrow> (Inl cursor_overflow, cursor)
      | Some e \<Rightarrow>
          if length buf < e then (Inl eof_error, cursor)
          else (Inr (u64_from_le_bytes (slice_of buf cursor e)), e))"

definition read_bytes :: "bytes \<Rightarrow> nat \<Rightarrow> nat \<Rightarrow> (io_error + bytes) \<times> nat" where
  "read_bytes buf cursor len =
     (case checked_add cursor len of
        None \<Rightarrow> (Inl length_overflow, cursor)
      | Some e \<Rightarrow>
          if length buf < e then (Inl eof_error, cursor)
          else (Inr (slice_of buf cursor e), e))"

lemmas read_defs = read_u8_def read_u32_def read_u64_def read_bytes_def

section \<open>Successful reads\<close>

text \<open>
  A buffer lives in memory, so its length is below the \<open>usize\<close> limit; under that bound a read
  succeeds exactly when the bytes are there.
\<close>

lemma read_u8_at: "cursor = length pre \<Longrightarrow> read_u8 (pre @ b # post) cursor = (Inr b, cursor + 1)"
  by (simp add: read_u8_def nth_append)

lemma read_u32_at:
  assumes "cursor = length pre" and "length pre + 4 < usize_limit"
  shows "read_u32 (pre @ u32_to_le_bytes w @ post) cursor = (Inr w, cursor + 4)"
  using assms
  by (simp add: read_u32_def checked_add_def slice_append_right)

lemma read_u64_at:
  assumes "cursor = length pre" and "length pre + 8 < usize_limit"
  shows "read_u64 (pre @ u64_to_le_bytes w @ post) cursor = (Inr w, cursor + 8)"
  using assms
  by (simp add: read_u64_def checked_add_def slice_append_right)

lemma read_bytes_at:
  assumes "cursor = length pre" and "len = length bs" and "length pre + len < usize_limit"
  shows "read_bytes (pre @ bs @ post) cursor len = (Inr bs, cursor + len)"
  using assms
  by (simp add: read_bytes_def checked_add_def slice_append_right)

lemma read_u8_Inr_iff [res_iffs]:
  "read_u8 buf cursor = (Inr b, c') \<longleftrightarrow> cursor < length buf \<and> b = buf ! cursor \<and> c' = cursor + 1"
  by (auto simp: read_u8_def)

lemma read_u32_Inr_iff [res_iffs]:
  "read_u32 buf cursor = (Inr w, c') \<longleftrightarrow>
     cursor + 4 < usize_limit \<and> cursor + 4 \<le> length buf \<and> c' = cursor + 4 \<and>
     w = u32_from_le_bytes (slice_of buf cursor c')"
  by (auto simp: read_u32_def checked_add_def)

lemma read_u64_Inr_iff [res_iffs]:
  "read_u64 buf cursor = (Inr w, c') \<longleftrightarrow>
     cursor + 8 < usize_limit \<and> cursor + 8 \<le> length buf \<and> c' = cursor + 8 \<and>
     w = u64_from_le_bytes (slice_of buf cursor c')"
  by (auto simp: read_u64_def checked_add_def)

lemma read_bytes_Inr_iff [res_iffs]:
  "read_bytes buf cursor len = (Inr bs, c') \<longleftrightarrow>
     cursor + len < usize_limit \<and> cursor + len \<le> length buf \<and> c' = cursor + len \<and>
     bs = slice_of buf cursor c'"
  by (auto simp: read_bytes_def checked_add_def)

section \<open>Failing reads\<close>

text \<open>A failed read leaves the cursor where it was, and overflow is an error value, not a panic.\<close>

lemma read_failure_keeps_cursor:
  "read_u8 buf c = (Inl e, c') \<Longrightarrow> c' = c"
  "read_u32 buf c = (Inl e, c') \<Longrightarrow> c' = c"
  "read_u64 buf c = (Inl e, c') \<Longrightarrow> c' = c"
  "read_bytes buf c len = (Inl e, c') \<Longrightarrow> c' = c"
  by (auto simp: read_defs split: if_splits option.splits)

end
