(* ===== verification/Command.thy ===== *)
theory Command
  imports Bytes_Util
begin

text \<open>
  Log records, \<open>src/src/storage/command.rs\<close>. The checksum \<open>crc32fast::hash\<close> is third-party code:
  every definition that uses it takes it as the argument \<open>crc\<close>.
\<close>

definition HEADER_LEN :: nat where
  "HEADER_LEN = 8"

definition CRC_LEN :: nat where
  "CRC_LEN = 4"

lemmas command_consts = HEADER_LEN_def CRC_LEN_def

datatype command =
    Command_Set u64 bytes bytes
  | Command_Rm u64 bytes

datatype command_type = CommandType_Set | CommandType_Rm

fun command_type_to_u8 :: "command_type \<Rightarrow> byte" where
  "command_type_to_u8 CommandType_Set = 0"
| "command_type_to_u8 CommandType_Rm = 1"

definition command_type_try_from :: "byte \<Rightarrow> kvs_error + command_type" where
  "command_type_try_from value =
     (if value = 0 then Inr CommandType_Set
      else if value = 1 then Inr CommandType_Rm
      else Inl UnexpectedCommandType)"

definition body_len :: "bytes \<Rightarrow> nat" where
  "body_len header = unat (u32_from_le_bytes (slice_of header CRC_LEN HEADER_LEN))"

fun get_timestamp :: "command \<Rightarrow> u64" where
  "get_timestamp (Command_Set ts key value) = ts"
| "get_timestamp (Command_Rm ts key) = ts"

fun get_key :: "command \<Rightarrow> bytes" where
  "get_key (Command_Set ts key value) = key"
| "get_key (Command_Rm ts key) = key"

fun get_value :: "command \<Rightarrow> bytes option" where
  "get_value (Command_Set ts key value) = Some value"
| "get_value (Command_Rm ts key) = None"

fun encoded_body_len :: "command \<Rightarrow> nat" where
  "encoded_body_len (Command_Set ts key value) = 8 + 1 + 4 + length key + 4 + length value"
| "encoded_body_len (Command_Rm ts key) = 8 + 1 + 4 + length key"

fun write_body :: "command \<Rightarrow> bytes \<Rightarrow> bytes" where
  "write_body (Command_Set ts key value) buf =
     buf @ u64_to_le_bytes ts @ [command_type_to_u8 CommandType_Set] @
     u32_to_le_bytes (of_nat (length key)) @ key @
     u32_to_le_bytes (of_nat (length value)) @ value"
| "write_body (Command_Rm ts key) buf =
     buf @ u64_to_le_bytes ts @ [command_type_to_u8 CommandType_Rm] @
     u32_to_le_bytes (of_nat (length key)) @ key"

text \<open>The four placeholder bytes are overwritten with the checksum of everything after them.\<close>

definition command_serialize :: "(bytes \<Rightarrow> u32) \<Rightarrow> command \<Rightarrow> bytes" where
  "command_serialize crc cmd =
     (let buf = replicate CRC_LEN 0 @ u32_to_le_bytes (of_nat (encoded_body_len cmd));
          buf = write_body cmd buf;
          c = crc (drop CRC_LEN buf)
      in u32_to_le_bytes c @ drop CRC_LEN buf)"

definition command_deserialize ::
  "(bytes \<Rightarrow> u32) \<Rightarrow> bytes \<Rightarrow> kvs_error + (command \<times> nat)" where
  "command_deserialize crc buf = fst (
     st_bind (map_err Io (read_u32 buf 0)) (\<lambda>stored_crc cursor.
     st_bind (map_err Io (read_u32 buf cursor)) (\<lambda>blen cursor.
     let body_len = unat blen in
     if length buf < HEADER_LEN + body_len
     then (Inl (Io (Io_Error UnexpectedEof ''incomplete command'')), cursor)
     else
       let command_end = HEADER_LEN + body_len;
           actual_crc = crc (slice_of buf CRC_LEN command_end)
       in
       if actual_crc \<noteq> stored_crc then (Inl Corruption, cursor)
       else
         st_bind (map_err Io (read_u64 buf cursor)) (\<lambda>ts cursor.
         st_bind (map_err Io (read_u8 buf cursor)) (\<lambda>b cursor.
         st_bind (command_type_try_from b, cursor) (\<lambda>ty cursor.
         st_bind
           (case ty of
              CommandType_Set \<Rightarrow>
                st_bind (map_err Io (read_u32 buf cursor)) (\<lambda>key_len cursor.
                st_bind (map_err Io (read_bytes buf cursor (unat key_len))) (\<lambda>key cursor.
                st_bind (map_err Io (read_u32 buf cursor)) (\<lambda>value_len cursor.
                st_bind (map_err Io (read_bytes buf cursor (unat value_len))) (\<lambda>value cursor.
                (Inr (Command_Set ts key value), cursor)))))
            | CommandType_Rm \<Rightarrow>
                st_bind (map_err Io (read_u32 buf cursor)) (\<lambda>key_len cursor.
                st_bind (map_err Io (read_bytes buf cursor (unat key_len))) (\<lambda>key cursor.
                (Inr (Command_Rm ts key), cursor))))
           (\<lambda>command cursor.
              if cursor \<noteq> command_end then (Inl Corruption, cursor)
              else (Inr (command, command_end), cursor))))))))"

section \<open>Layout of a serialized record\<close>

lemma command_type_try_from_to_u8 [simp]:
  "command_type_try_from (command_type_to_u8 t) = Inr t"
  by (cases t) (simp_all add: command_type_try_from_def)

definition record_body :: "command \<Rightarrow> bytes" where
  "record_body cmd = write_body cmd []"

lemma write_body_append: "write_body cmd buf = buf @ record_body cmd"
  by (cases cmd) (simp_all add: record_body_def)

lemma length_record_body [simp]: "length (record_body cmd) = encoded_body_len cmd"
  by (cases cmd) (simp_all add: record_body_def)

definition record_tail :: "command \<Rightarrow> bytes" where
  "record_tail cmd = u32_to_le_bytes (of_nat (encoded_body_len cmd)) @ record_body cmd"

lemma command_serialize_layout:
  "command_serialize crc cmd = u32_to_le_bytes (crc (record_tail cmd)) @ record_tail cmd"
  by (simp add: command_serialize_def write_body_append record_tail_def command_consts Let_def)

lemma length_record_tail [simp]: "length (record_tail cmd) = 4 + encoded_body_len cmd"
  by (simp add: record_tail_def)

lemma length_command_serialize [simp]:
  "length (command_serialize crc cmd) = HEADER_LEN + encoded_body_len cmd"
  by (simp add: command_serialize_layout command_consts)

text \<open>
  A command fits when its body length fits the 32-bit length field; then the inner lengths fit
  as well.
\<close>

definition command_fits :: "command \<Rightarrow> bool" where
  "command_fits cmd \<longleftrightarrow> encoded_body_len cmd < 2 ^ 32"

section \<open>Round trip\<close>

lemma command_deserialize_Inr:
  "command_deserialize crc buf = Inr (cmd, n) \<Longrightarrow>
     n = HEADER_LEN + unat (u32_from_le_bytes (slice_of buf 4 8)) \<and> n \<le> length buf \<and>
     u32_from_le_bytes (slice_of buf 0 4) = crc (slice_of buf 4 n) \<and>
     (case cmd of
        Command_Set ts key value \<Rightarrow>
          ts = u64_from_le_bytes (slice_of buf 8 16) \<and> buf ! 16 = 0 \<and>
          (let kl = unat (u32_from_le_bytes (slice_of buf 17 21));
               vl = unat (u32_from_le_bytes (slice_of buf (21 + kl) (25 + kl)))
           in key = slice_of buf 21 (21 + kl) \<and> value = slice_of buf (25 + kl) (25 + kl + vl) \<and>
              n = 25 + kl + vl)
      | Command_Rm ts key \<Rightarrow>
          ts = u64_from_le_bytes (slice_of buf 8 16) \<and> buf ! 16 = 1 \<and>
          (let kl = unat (u32_from_le_bytes (slice_of buf 17 21))
           in key = slice_of buf 21 (21 + kl) \<and> n = 21 + kl))"
  by (auto simp: command_deserialize_def Let_def res_iffs command_consts command_type_try_from_def
      split: if_splits command_type.splits)

lemma command_deserialize_serialize:
  assumes "command_fits cmd"
  shows "command_deserialize crc (command_serialize crc cmd @ rest) =
           Inr (cmd, length (command_serialize crc cmd))"
proof (cases cmd)
  case (Command_Set ts key val)
  with assms have small: "length key < 2 ^ 32" "length val < 2 ^ 32"
    and total: "17 + length key + length val < 2 ^ 32"
    by (auto simp: command_fits_def)
  from total have "unat (17 + of_nat (length key) + of_nat (length val) :: u32) =
      17 + length key + length val"
    using unat_u32_of_nat [of "17 + length key + length val"] by simp
  with small total Command_Set show ?thesis
    by (simp add: command_deserialize_def command_serialize_layout record_tail_def record_body_def
        read_defs checked_add_def usize_limit_def slice_of_def nth_append unat_u32_of_nat
        command_consts Let_def command_type_try_from_def drop_Cons' take_Cons')
next
  case (Command_Rm ts key)
  with assms have small: "length key < 2 ^ 32" and total: "13 + length key < 2 ^ 32"
    by (auto simp: command_fits_def)
  from total have "unat (13 + of_nat (length key) :: u32) = 13 + length key"
    using unat_u32_of_nat [of "13 + length key"] by simp
  with small total Command_Rm show ?thesis
    by (simp add: command_deserialize_def command_serialize_layout record_tail_def record_body_def
        read_defs checked_add_def usize_limit_def slice_of_def nth_append unat_u32_of_nat
        command_consts Let_def command_type_try_from_def drop_Cons' take_Cons')
qed

text \<open>
  Conversely, whatever decodes is, byte for byte, the encoding of the decoded command: the format
  has no second representation of a record, and nothing outside the first \<open>n\<close> bytes matters.
\<close>

lemma command_deserialize_canonical:
  assumes "command_deserialize crc buf = Inr (cmd, n)"
  shows "command_fits cmd \<and> n = length (command_serialize crc cmd) \<and>
         take n buf = command_serialize crc cmd"
proof -
  note inv = command_deserialize_Inr [OF assms]
  define bl where "bl = unat (u32_from_le_bytes (slice_of buf 4 8))"
  from inv have n: "n = 8 + bl" and len: "n \<le> length buf"
    and stored: "crc (slice_of buf 4 n) = u32_from_le_bytes (slice_of buf 0 4)"
    by (auto simp: bl_def HEADER_LEN_def)
  have hdr: "u32_to_le_bytes (crc (slice_of buf 4 n)) = slice_of buf 0 4"
    "u32_to_le_bytes (of_nat bl) = slice_of buf 4 8"
    unfolding stored using n len by (simp_all add: u32_to_from_le_bytes bl_def)
  have body: "record_body cmd = slice_of buf 8 n \<and> encoded_body_len cmd = bl"
  proof (cases cmd)
    case (Command_Set ts key val)
    define kl where "kl = unat (u32_from_le_bytes (slice_of buf 17 21))"
    define vl where "vl = unat (u32_from_le_bytes (slice_of buf (21 + kl) (25 + kl)))"
    from inv Command_Set have f: "ts = u64_from_le_bytes (slice_of buf 8 16)" "buf ! 16 = 0"
      "key = slice_of buf 21 (21 + kl)" "val = slice_of buf (25 + kl) n" "n = 25 + kl + vl"
      by (auto simp: Let_def kl_def vl_def)
    have "u64_to_le_bytes ts = slice_of buf 8 16" "[0] = slice_of buf 16 17"
      "u32_to_le_bytes (of_nat kl) = slice_of buf 17 21"
      "u32_to_le_bytes (of_nat vl) = slice_of buf (21 + kl) (25 + kl)"
      using len f slice_singleton [of 16 buf]
      by (simp_all add: kl_def vl_def u32_to_from_le_bytes u64_to_from_le_bytes)
    with len n f Command_Set show ?thesis
      by (simp add: record_body_def slice_join slice_join_append)
  next
    case (Command_Rm ts key)
    define kl where "kl = unat (u32_from_le_bytes (slice_of buf 17 21))"
    from inv Command_Rm have f: "ts = u64_from_le_bytes (slice_of buf 8 16)" "buf ! 16 = 1"
      "key = slice_of buf 21 n" "n = 21 + kl"
      by (auto simp: Let_def kl_def)
    have "u64_to_le_bytes ts = slice_of buf 8 16" "[1] = slice_of buf 16 17"
      "u32_to_le_bytes (of_nat kl) = slice_of buf 17 21"
      using len f slice_singleton [of 16 buf]
      by (simp_all add: kl_def u32_to_from_le_bytes u64_to_from_le_bytes)
    with len n f Command_Rm show ?thesis
      by (simp add: record_body_def slice_join slice_join_append)
  qed
  have "bl < 2 ^ 32" unfolding bl_def by (rule unat_u32_bound)
  with body hdr n len show ?thesis
    by (simp add: command_fits_def command_serialize_layout record_tail_def command_consts
        slice_join slice_join_append take_eq_slice)
qed

text \<open>
  Torn writes: cutting a record short is always reported as an unexpected end of file, never as
  corruption and never as a shorter record.
\<close>

lemma serialize_len_field:
  "slice_of (command_serialize crc cmd) 4 8 = u32_to_le_bytes (of_nat (encoded_body_len cmd))"
  by (simp add: command_serialize_layout record_tail_def slice_append_right)

lemma command_deserialize_truncated:
  assumes "command_fits cmd" and k: "k < length (command_serialize crc cmd)"
  shows "\<exists>msg. command_deserialize crc (take k (command_serialize crc cmd)) =
           Inl (Io (Io_Error UnexpectedEof msg))"
proof (cases "k < 8")
  case True
  with k show ?thesis
    by (auto simp: command_deserialize_def read_u32_def checked_add_def usize_limit_def eof_error_def)
next
  case False
  let ?buf = "take k (command_serialize crc cmd)"
  from assms have "slice_of ?buf 4 8 = u32_to_le_bytes (of_nat (encoded_body_len cmd))"
    and "unat (of_nat (encoded_body_len cmd) :: u32) = encoded_body_len cmd"
    using False by (simp_all add: slice_take serialize_len_field command_fits_def unat_u32_of_nat)
  with False k show ?thesis
    by (simp add: command_deserialize_def read_u32_def checked_add_def usize_limit_def Let_def)
qed

text \<open>A record whose stored checksum differs from the checksum of its bytes is corruption.\<close>

lemma command_deserialize_bad_crc:
  assumes "length body = unat (len :: u32)" and "stored \<noteq> crc (u32_to_le_bytes len @ body)"
  shows "command_deserialize crc (u32_to_le_bytes stored @ u32_to_le_bytes len @ body @ rest) =
           Inl Corruption"
  using assms
  by (auto simp: command_deserialize_def read_u32_def checked_add_def usize_limit_def Let_def
      slice_of_def command_consts)

end
