(* ===== verification/Index_Value.thy ===== *)
theory Index_Value
  imports Command
begin

text \<open>
  Hint-file records, \<open>src/src/storage/index_value.rs\<close>: the entry of the in-memory index and its
  encoding next to its key. The file id is not part of the encoding; it comes from the name of
  the hint file and is an argument of the decoder.
\<close>

definition BODY_LEN_LEN :: nat where
  "BODY_LEN_LEN = 4"

definition KEY_LEN_LEN :: nat where
  "KEY_LEN_LEN = 4"

definition INDEX_VALUE_LEN :: nat where
  "INDEX_VALUE_LEN = 24"

definition HINT_HEADER_LEN :: nat where
  "HINT_HEADER_LEN = CRC_LEN + BODY_LEN_LEN"

lemmas hint_consts =
  CRC_LEN_def BODY_LEN_LEN_def KEY_LEN_LEN_def INDEX_VALUE_LEN_def HINT_HEADER_LEN_def

record index_value =
  iv_file_id :: u64
  iv_ts :: u64
  iv_offset :: u64
  iv_len :: u64

definition iv_serialize :: "(bytes \<Rightarrow> u32) \<Rightarrow> index_value \<Rightarrow> bytes \<Rightarrow> bytes" where
  "iv_serialize crc iv key =
     (let body_len = KEY_LEN_LEN + length key + INDEX_VALUE_LEN;
          buf = replicate CRC_LEN 0 @ u32_to_le_bytes (of_nat body_len) @
                u32_to_le_bytes (of_nat (length key)) @ key @
                u64_to_le_bytes (iv_ts iv) @ u64_to_le_bytes (iv_offset iv) @
                u64_to_le_bytes (iv_len iv);
          c = crc (drop CRC_LEN buf)
      in u32_to_le_bytes c @ drop CRC_LEN buf)"

text \<open>
  The conversion \<open>usize::try_from(len)\<close> of the decoded 64-bit length never fails on the 64-bit
  targets; the branch is kept as the test the source makes.
\<close>

definition usize_try_from :: "u64 \<Rightarrow> u64 option" where
  "usize_try_from len = (if unat len < usize_limit then Some len else None)"

definition iv_deserialize ::
  "(bytes \<Rightarrow> u32) \<Rightarrow> bytes \<Rightarrow> u64 \<Rightarrow> kvs_error + (bytes \<times> index_value \<times> nat)" where
  "iv_deserialize crc buf file_id = fst (
     st_bind (map_err Io (read_u32 buf 0)) (\<lambda>stored_crc cursor.
     st_bind (map_err Io (read_u32 buf cursor)) (\<lambda>blen cursor.
     let body_len = unat blen in
     if length buf < HINT_HEADER_LEN + body_len
     then (Inl (Io (Io_Error UnexpectedEof ''incomplete index value'')), cursor)
     else
       let record_end = HINT_HEADER_LEN + body_len;
           actual_crc = crc (slice_of buf CRC_LEN record_end)
       in
       if actual_crc \<noteq> stored_crc then (Inl Corruption, cursor)
       else
         st_bind (map_err Io (read_u32 buf cursor)) (\<lambda>key_len cursor.
         st_bind (map_err Io (read_bytes buf cursor (unat key_len))) (\<lambda>key cursor.
         st_bind (map_err Io (read_u64 buf cursor)) (\<lambda>ts cursor.
         st_bind (map_err Io (read_u64 buf cursor)) (\<lambda>offset cursor.
         st_bind (map_err Io (read_u64 buf cursor)) (\<lambda>len cursor.
         st_bind
           (case usize_try_from len of None \<Rightarrow> (Inl Corruption, cursor) | Some l \<Rightarrow> (Inr l, cursor))
           (\<lambda>len cursor.
         if cursor \<noteq> record_end then (Inl Corruption, cursor)
         else
           (Inr (key,
                 \<lparr>iv_file_id = file_id, iv_ts = ts, iv_offset = offset, iv_len = len\<rparr>,
                 record_end), cursor))))))))))"

section \<open>Layout\<close>

definition hint_body :: "index_value \<Rightarrow> bytes \<Rightarrow> bytes" where
  "hint_body iv key =
     u32_to_le_bytes (of_nat (length key)) @ key @
     u64_to_le_bytes (iv_ts iv) @ u64_to_le_bytes (iv_offset iv) @ u64_to_le_bytes (iv_len iv)"

lemma length_hint_body [simp]: "length (hint_body iv key) = 28 + length key"
  by (simp add: hint_body_def)

definition hint_tail :: "index_value \<Rightarrow> bytes \<Rightarrow> bytes" where
  "hint_tail iv key = u32_to_le_bytes (of_nat (28 + length key)) @ hint_body iv key"

lemma iv_serialize_layout:
  "iv_serialize crc iv key = u32_to_le_bytes (crc (hint_tail iv key)) @ hint_tail iv key"
  by (simp add: iv_serialize_def hint_tail_def hint_body_def hint_consts Let_def)

lemma length_iv_serialize [simp]: "length (iv_serialize crc iv key) = 36 + length key"
  by (simp add: iv_serialize_layout hint_tail_def)

definition hint_fits :: "bytes \<Rightarrow> bool" where
  "hint_fits key \<longleftrightarrow> 28 + length key < 2 ^ 32"

lemma usize_try_from_Some [simp]: "usize_try_from len = Some len"
  using unat_u64_bound [of len] by (simp add: usize_try_from_def usize_limit_def)

section \<open>Round trip\<close>

lemma iv_deserialize_serialize:
  assumes "hint_fits key"
  shows "iv_deserialize crc (iv_serialize crc iv key @ rest) file_id =
           Inr (key, iv\<lparr>iv_file_id := file_id\<rparr>, length (iv_serialize crc iv key))"
proof -
  from assms have small: "length key < 2 ^ 32" and total: "28 + length key < 2 ^ 32"
    by (auto simp: hint_fits_def)
  from total have "unat (28 + of_nat (length key) :: u32) = 28 + length key"
    using unat_u32_of_nat [of "28 + length key"] by simp
  with small total show ?thesis
    by (simp add: iv_deserialize_def iv_serialize_layout hint_tail_def hint_body_def
        read_defs checked_add_def usize_limit_def slice_of_def unat_u32_of_nat
        hint_consts Let_def)
qed

lemma iv_deserialize_canonical:
  assumes "iv_deserialize crc buf file_id = Inr (key, iv, n)"
  shows "hint_fits key \<and> iv_file_id iv = file_id \<and> n = length (iv_serialize crc iv key) \<and>
         take n buf = iv_serialize crc iv key"
proof -
  define bl where "bl = unat (u32_from_le_bytes (slice_of buf 4 8))"
  define kl where "kl = unat (u32_from_le_bytes (slice_of buf 8 12))"
  from assms have n: "n = 8 + bl" "n = 36 + kl" and len: "n \<le> length buf"
    and stored: "crc (slice_of buf 4 n) = u32_from_le_bytes (slice_of buf 0 4)"
    and key: "key = slice_of buf 12 (12 + kl)"
    and iv: "iv = \<lparr>iv_file_id = file_id,
          iv_ts = u64_from_le_bytes (slice_of buf (12 + kl) (20 + kl)),
          iv_offset = u64_from_le_bytes (slice_of buf (20 + kl) (28 + kl)),
          iv_len = u64_from_le_bytes (slice_of buf (28 + kl) n)\<rparr>"
    by (auto simp: iv_deserialize_def Let_def res_iffs hint_consts bl_def kl_def
        split: if_splits) (simp add: add.commute)
  have hdr: "u32_to_le_bytes (crc (slice_of buf 4 n)) = slice_of buf 0 4"
    unfolding stored using n len by (simp add: u32_to_from_le_bytes)
  have fields: "u32_to_le_bytes (of_nat bl) = slice_of buf 4 8"
    "u32_to_le_bytes (of_nat kl) = slice_of buf 8 12"
    "u64_to_le_bytes (iv_ts iv) = slice_of buf (12 + kl) (20 + kl)"
    "u64_to_le_bytes (iv_offset iv) = slice_of buf (20 + kl) (28 + kl)"
    "u64_to_le_bytes (iv_len iv) = slice_of buf (28 + kl) n"
    using n len by (simp_all add: iv bl_def kl_def u32_to_from_le_bytes u64_to_from_le_bytes)
  have kl: "length key = kl" "bl = 28 + kl" using key n len by simp_all
  have "hint_tail iv key = slice_of buf 4 n"
    using n len by (simp add: hint_tail_def hint_body_def kl key
        fields [unfolded kl(2) of_nat_add of_nat_numeral] slice_join slice_join_append)
  moreover have "bl < 2 ^ 32" unfolding bl_def by (rule unat_u32_bound)
  ultimately show ?thesis
    using kl n len hdr by (simp add: hint_fits_def iv iv_serialize_layout slice_join take_eq_slice)
qed

end
