(* ===== verification/Codec_Correct.thy ===== *)
theory Codec_Correct
  imports Index_Value
begin

text \<open>
  The correctness of the two on-disk encodings: log records (\<open>command.rs\<close>) and hint records
  (\<open>index_value.rs\<close>). Nothing is assumed of the checksum.
\<close>

section \<open>Log records\<close>

text \<open>
  C4. Encoding and decoding a log record are inverse to each other. A record that fits its length
  fields decodes to itself whatever follows it, and \<open>deserialize\<close> reports its exact length;
  conversely the bytes that \<open>deserialize\<close> accepts are exactly the encoding of what it returns, so
  a record has one representation only.
\<close>

theorem record_codec_inverse:
  "(command_fits cmd \<longrightarrow>
      command_deserialize crc (command_serialize crc cmd @ rest) =
        Inr (cmd, length (command_serialize crc cmd))) \<and>
   (command_deserialize crc buf = Inr (cmd, n) \<longrightarrow>
      command_fits cmd \<and> n = length (command_serialize crc cmd) \<and>
      take n buf = command_serialize crc cmd)"
  using command_deserialize_serialize command_deserialize_canonical by blast

theorem record_codec_inverse_witness:
  "command_deserialize (\<lambda>bs. of_nat (length bs))
     (command_serialize (\<lambda>bs. of_nat (length bs)) (Command_Set 5 [107] [118, 119]) @ [1, 2]) =
   Inr (Command_Set 5 [107] [118, 119], 28) \<and>
   take 28 (command_serialize (\<lambda>bs. of_nat (length bs)) (Command_Set 5 [107] [118, 119]) @ [1, 2]) =
   command_serialize (\<lambda>bs. of_nat (length bs)) (Command_Set 5 [107] [118, 119])"
proof -
  let ?crc = "\<lambda>bs :: bytes. of_nat (length bs) :: u32" and ?cmd = "Command_Set 5 [107] [118, 119]"
  have len: "length (command_serialize ?crc ?cmd) = 28" by (simp add: HEADER_LEN_def)
  have "command_fits ?cmd" by (simp add: command_fits_def)
  then have dec: "command_deserialize ?crc (command_serialize ?crc ?cmd @ [1, 2]) = Inr (?cmd, 28)"
    using record_codec_inverse [of ?cmd ?crc "[1, 2]"] len by simp
  with record_codec_inverse [of ?cmd ?crc "[]" "command_serialize ?crc ?cmd @ [1, 2]" 28]
  show ?thesis by simp
qed

text \<open>
  C15. A record cut short anywhere, as a crash in the middle of a write leaves it, is reported as an
  unexpected end of file: never as corruption, and never decoded as a shorter record.
\<close>

theorem record_truncated:
  assumes "command_fits cmd" and "k < length (command_serialize crc cmd)"
  shows "\<exists>msg. command_deserialize crc (take k (command_serialize crc cmd)) =
           Inl (Io (Io_Error UnexpectedEof msg))"
  using assms by (rule command_deserialize_truncated)

theorem record_truncated_witness:
  "\<exists>msg. command_deserialize (\<lambda>_. 7) (take 20 (command_serialize (\<lambda>_. 7) (Command_Rm 1 [107]))) =
     Inl (Io (Io_Error UnexpectedEof msg))"
  using record_truncated [of "Command_Rm 1 [107]" 20 "\<lambda>_. 7"] by (simp add: command_fits_def HEADER_LEN_def)

text \<open>
  C19. A complete record whose stored checksum is not the checksum of its bytes is \<open>Corruption\<close>,
  whatever its body says.
\<close>

theorem record_bad_checksum:
  assumes "length body = unat (len :: u32)" and "stored \<noteq> crc (u32_to_le_bytes len @ body)"
  shows "command_deserialize crc (u32_to_le_bytes stored @ u32_to_le_bytes len @ body @ rest) =
           Inl Corruption"
  using assms by (rule command_deserialize_bad_crc)

theorem record_bad_checksum_witness:
  "command_deserialize (\<lambda>_. 7) (u32_to_le_bytes 8 @ u32_to_le_bytes 2 @ [1, 2] @ []) = Inl Corruption"
  using record_bad_checksum [of "[1, 2]" 2 8 "\<lambda>_. 7" "[]"] by simp

section \<open>Hint records\<close>

text \<open>
  C14. The same for hint records: a hint decodes to the key and the entry it was written for, with
  the id of the file it belongs to, and only encodings of the decoded entry are accepted.
\<close>

theorem hint_codec_inverse:
  "(hint_fits key \<longrightarrow>
      iv_deserialize crc (iv_serialize crc iv key @ rest) file_id =
        Inr (key, iv\<lparr>iv_file_id := file_id\<rparr>, length (iv_serialize crc iv key))) \<and>
   (iv_deserialize crc buf file_id = Inr (key, iv, n) \<longrightarrow>
      hint_fits key \<and> iv_file_id iv = file_id \<and> n = length (iv_serialize crc iv key) \<and>
      take n buf = iv_serialize crc iv key)"
  using iv_deserialize_serialize iv_deserialize_canonical by blast

theorem hint_codec_inverse_witness:
  "iv_deserialize (\<lambda>_. 7)
     (iv_serialize (\<lambda>_. 7) \<lparr>iv_file_id = 9, iv_ts = 5, iv_offset = 0, iv_len = 27\<rparr> [107]) 3 =
   Inr ([107], \<lparr>iv_file_id = 3, iv_ts = 5, iv_offset = 0, iv_len = 27\<rparr>, 37)"
  using hint_codec_inverse [of "[107]" "\<lambda>_. 7" "\<lparr>iv_file_id = 9, iv_ts = 5, iv_offset = 0, iv_len = 27\<rparr>" "[]" 3]
  by (simp add: hint_fits_def)

end
