(* ===== verification/Index.thy ===== *)
theory Index
  imports Index_Value
begin

unbundle bit_operations_syntax

text \<open>
  The in-memory index (the keydir) of \<open>src/src/storage/index.rs\<close>: sixteen hash maps, each behind
  its own lock, with the bucket of a key chosen by an FNV-1a hash. A lock is its poison flag and
  what it protects. The locale \<open>keydir\<close> is the contract the engine relies on; it is interpreted
  on the buckets the loader fills and on the locked buckets of the running store.
\<close>

definition INDEX_BUCKETS_NUM :: nat where
  "INDEX_BUCKETS_NUM = 16"

type_synonym hash_map = "bytes \<rightharpoonup> index_value"

record rw_lock =
  rw_poisoned :: bool
  rw_data :: hash_map

type_synonym index = "rw_lock list"

definition index_from :: "hash_map list \<Rightarrow> index" where
  "index_from arr = map (\<lambda>m. \<lparr>rw_poisoned = False, rw_data = m\<rparr>) arr"

section \<open>The bucket of a key\<close>

definition FNV_OFFSET :: u64 where
  "FNV_OFFSET = 0xcbf29ce484222325"

definition FNV_PRIME :: u64 where
  "FNV_PRIME = 0x00000100000001b3"

definition fnv_step :: "u64 \<Rightarrow> byte \<Rightarrow> u64" where
  "fnv_step hash b = (hash XOR ucast b) * FNV_PRIME"

definition get_bucket :: "bytes \<Rightarrow> nat" where
  "get_bucket key =
     (let hash = foldl fnv_step FNV_OFFSET key
      in unat (drop_bit 32 hash XOR hash) mod INDEX_BUCKETS_NUM)"

lemma get_bucket_less: "get_bucket key < INDEX_BUCKETS_NUM"
  by (simp add: get_bucket_def INDEX_BUCKETS_NUM_def Let_def)

section \<open>Access under the locks\<close>

text \<open>
  Taking a lock returns the protected map, or \<open>LockPoisoned\<close> when a thread panicked while it
  held the lock. \<open>write_back\<close> is what releasing a write guard leaves in the bucket.
\<close>

definition write_access :: "index \<Rightarrow> bytes \<Rightarrow> kvs_error + hash_map" where
  "write_access idx key =
     (let l = idx ! get_bucket key
      in if rw_poisoned l then Inl LockPoisoned else Inr (rw_data l))"

definition read_access :: "index \<Rightarrow> bytes \<Rightarrow> kvs_error + hash_map" where
  "read_access idx key =
     (let l = idx ! get_bucket key
      in if rw_poisoned l then Inl LockPoisoned else Inr (rw_data l))"

definition write_back :: "index \<Rightarrow> bytes \<Rightarrow> hash_map \<Rightarrow> index" where
  "write_back idx key m = idx[get_bucket key := (idx ! get_bucket key)\<lparr>rw_data := m\<rparr>]"

section \<open>The contract of a keydir\<close>

datatype keydir_op = Keydir_Put bytes index_value | Keydir_Drop bytes

fun apply_op :: "hash_map \<Rightarrow> keydir_op \<Rightarrow> hash_map" where
  "apply_op m (Keydir_Put k v) = m(k \<mapsto> v)"
| "apply_op m (Keydir_Drop k) = m(k := None)"

locale keydir =
  fixes lookup :: "'i \<Rightarrow> bytes \<Rightarrow> index_value option"
    and insert :: "bytes \<Rightarrow> index_value \<Rightarrow> 'i \<Rightarrow> 'i"
    and delete :: "bytes \<Rightarrow> 'i \<Rightarrow> 'i"
    and invar :: "'i \<Rightarrow> bool"
  assumes lookup_insert: "invar i \<Longrightarrow> lookup (insert k v i) = (lookup i)(k \<mapsto> v)"
    and lookup_delete: "invar i \<Longrightarrow> lookup (delete k i) = (lookup i)(k := None)"
    and invar_insert: "invar i \<Longrightarrow> invar (insert k v i)"
    and invar_delete: "invar i \<Longrightarrow> invar (delete k i)"
begin

definition run_op :: "'i \<Rightarrow> keydir_op \<Rightarrow> 'i" where
  "run_op i p = (case p of Keydir_Put k v \<Rightarrow> insert k v i | Keydir_Drop k \<Rightarrow> delete k i)"

lemma invar_run_op: "invar i \<Longrightarrow> invar (run_op i p)"
  by (simp add: run_op_def invar_insert invar_delete split: keydir_op.split)

lemma lookup_run_op: "invar i \<Longrightarrow> lookup (run_op i p) = apply_op (lookup i) p"
  by (simp add: run_op_def lookup_insert lookup_delete split: keydir_op.split)

lemma lookup_run_ops:
  "invar i \<Longrightarrow> invar (foldl run_op i ops) \<and> lookup (foldl run_op i ops) = foldl apply_op (lookup i) ops"
  by (induction ops arbitrary: i) (simp_all add: invar_run_op lookup_run_op)

text \<open>The last operation on a key decides.\<close>

lemma lookup_last_op:
  assumes "invar i" and "\<forall>p \<in> set later. p \<noteq> Keydir_Drop k \<and> (\<forall>v. p \<noteq> Keydir_Put k v)"
  shows "lookup (foldl run_op i (earlier @ Keydir_Put k v # later)) k = Some v"
proof -
  have keep: "foldl apply_op m later k = m k" for m
    using assms(2)
  proof (induction later arbitrary: m)
    case (Cons p later)
    then have "apply_op m p k = m k" by (cases p) auto
    with Cons show ?case by simp
  qed simp
  show ?thesis
    using lookup_run_ops [OF assms(1), of "earlier @ Keydir_Put k v # later"] keep by simp
qed

end

section \<open>Buckets without locks: the loader's arrays\<close>

definition buckets_lookup :: "hash_map list \<Rightarrow> bytes \<Rightarrow> index_value option" where
  "buckets_lookup bs key = (bs ! get_bucket key) key"

definition buckets_insert :: "bytes \<Rightarrow> index_value \<Rightarrow> hash_map list \<Rightarrow> hash_map list" where
  "buckets_insert key v bs = bs[get_bucket key := (bs ! get_bucket key)(key \<mapsto> v)]"

definition buckets_remove :: "bytes \<Rightarrow> hash_map list \<Rightarrow> hash_map list" where
  "buckets_remove key bs = bs[get_bucket key := (bs ! get_bucket key)(key := None)]"

definition buckets_ok :: "hash_map list \<Rightarrow> bool" where
  "buckets_ok bs \<longleftrightarrow> length bs = INDEX_BUCKETS_NUM"

definition buckets_empty :: "hash_map list" where
  "buckets_empty = replicate INDEX_BUCKETS_NUM Map.empty"

lemma buckets_empty_simps [simp]:
  "buckets_ok buckets_empty"
  "buckets_lookup buckets_empty = Map.empty"
  by (auto simp: buckets_ok_def buckets_empty_def buckets_lookup_def get_bucket_less)

interpretation bk: keydir buckets_lookup buckets_insert buckets_remove buckets_ok
proof
  fix i k v
  assume "buckets_ok i"
  then have b: "get_bucket k' < length i" for k'
    using get_bucket_less by (simp add: buckets_ok_def)
  show "buckets_lookup (buckets_insert k v i) = (buckets_lookup i)(k \<mapsto> v)"
    using b by (auto simp: fun_eq_iff buckets_lookup_def buckets_insert_def nth_list_update)
  show "buckets_lookup (buckets_remove k i) = (buckets_lookup i)(k := None)"
    using b by (auto simp: fun_eq_iff buckets_lookup_def buckets_remove_def nth_list_update)
qed (simp_all add: buckets_ok_def buckets_insert_def buckets_remove_def)

section \<open>The locked index of a running store\<close>

definition index_lookup :: "index \<Rightarrow> bytes \<Rightarrow> index_value option" where
  "index_lookup idx key = rw_data (idx ! get_bucket key) key"

definition index_insert :: "bytes \<Rightarrow> index_value \<Rightarrow> index \<Rightarrow> index" where
  "index_insert key v idx = write_back idx key ((rw_data (idx ! get_bucket key))(key \<mapsto> v))"

definition index_remove :: "bytes \<Rightarrow> index \<Rightarrow> index" where
  "index_remove key idx = write_back idx key ((rw_data (idx ! get_bucket key))(key := None))"

definition index_ok :: "index \<Rightarrow> bool" where
  "index_ok idx \<longleftrightarrow> length idx = INDEX_BUCKETS_NUM"

definition no_poison :: "index \<Rightarrow> bool" where
  "no_poison idx \<longleftrightarrow> list_all (\<lambda>l. \<not> rw_poisoned l) idx"

interpretation ix: keydir index_lookup index_insert index_remove index_ok
proof
  fix i k v
  assume "index_ok i"
  then have b: "get_bucket k' < length i" for k'
    using get_bucket_less by (simp add: index_ok_def)
  show "index_lookup (index_insert k v i) = (index_lookup i)(k \<mapsto> v)"
    using b by (auto simp: fun_eq_iff index_lookup_def index_insert_def write_back_def nth_list_update)
  show "index_lookup (index_remove k i) = (index_lookup i)(k := None)"
    using b by (auto simp: fun_eq_iff index_lookup_def index_remove_def write_back_def nth_list_update)
qed (simp_all add: index_ok_def index_insert_def index_remove_def write_back_def)

lemma index_ok_from [simp]: "index_ok (index_from bs) \<longleftrightarrow> buckets_ok bs"
  by (simp add: index_ok_def buckets_ok_def index_from_def)

lemma index_lookup_from: "buckets_ok bs \<Longrightarrow> index_lookup (index_from bs) = buckets_lookup bs"
  using get_bucket_less
  by (auto simp: fun_eq_iff index_lookup_def buckets_lookup_def index_from_def buckets_ok_def)

lemma no_poison_from [simp]: "no_poison (index_from bs)"
  by (simp add: no_poison_def index_from_def list_all_iff)

lemma access_Inr:
  assumes "index_ok idx" and "no_poison idx"
  shows "read_access idx key = Inr (rw_data (idx ! get_bucket key))"
    and "write_access idx key = Inr (rw_data (idx ! get_bucket key))"
  using assms get_bucket_less [of key]
  by (simp_all add: read_access_def write_access_def Let_def no_poison_def index_ok_def list_all_length)

lemma access_Inr_iff [res_iffs]:
  "read_access idx key = Inr m \<longleftrightarrow>
     \<not> rw_poisoned (idx ! get_bucket key) \<and> m = rw_data (idx ! get_bucket key)"
  "write_access idx key = Inr m \<longleftrightarrow>
     \<not> rw_poisoned (idx ! get_bucket key) \<and> m = rw_data (idx ! get_bucket key)"
  by (auto simp: read_access_def write_access_def Let_def)

lemma access_Inl_iff [res_iffs]:
  "read_access idx key = Inl e \<longleftrightarrow> rw_poisoned (idx ! get_bucket key) \<and> e = LockPoisoned"
  "write_access idx key = Inl e \<longleftrightarrow> rw_poisoned (idx ! get_bucket key) \<and> e = LockPoisoned"
  by (auto simp: read_access_def write_access_def Let_def)

lemma poisoned_update:
  "b < length idx \<Longrightarrow> rw_poisoned (write_back idx key m ! b) = rw_poisoned (idx ! b)"
  by (cases "get_bucket key = b") (simp_all add: write_back_def)

lemma length_write_back [simp]: "length (write_back idx key m) = length idx"
  by (simp add: write_back_def)

lemma no_poison_update [simp]:
  "no_poison (index_insert k v idx) = no_poison idx"
  "no_poison (index_remove k idx) = no_poison idx"
  by (simp_all add: no_poison_def index_insert_def index_remove_def list_all_length poisoned_update)

end
