(* ===== verification/Record_Reader.thy ===== *)
theory Record_Reader
  imports Command
begin

text \<open>
  The sequential reader of log and hint files, \<open>src/src/storage/record_reader.rs\<close>, over any
  \<open>std::io::Read\<close>: a source is the bytes it will still deliver and the error, if any, that
  follows them (None is end of file). The scratch buffer of the source struct only avoids
  allocations and is not part of the state here.
\<close>

record source =
  src_bytes :: bytes
  src_fail :: "io_error option"

text \<open>
  \<open>Read::read_exact\<close>: an exact read that hits the end consumes what was left and reports
  \<open>UnexpectedEof\<close>; one that hits an error reports the error.
\<close>

definition read_exact :: "nat \<Rightarrow> source \<Rightarrow> (io_error + bytes) \<times> source" where
  "read_exact n src =
     (if n \<le> length (src_bytes src)
      then (Inr (take n (src_bytes src)), src\<lparr>src_bytes := drop n (src_bytes src)\<rparr>)
      else
        (Inl (case src_fail src of
                Some e \<Rightarrow> e
              | None \<Rightarrow> Io_Error UnexpectedEof ''failed to fill whole buffer''),
         src\<lparr>src_bytes := []\<rparr>))"

datatype record_read =
    Record u64 bytes
  | CleanEof
  | TornTail u64

record record_reader =
  rr_reader :: source
  rr_position :: u64
  rr_file_len :: u64

definition record_reader_new :: "source \<Rightarrow> u64 \<Rightarrow> record_reader" where
  "record_reader_new src file_len = \<lparr>rr_reader = src, rr_position = 0, rr_file_len = file_len\<rparr>"

definition next_record :: "record_reader \<Rightarrow> (kvs_error + record_read) \<times> record_reader" where
  "next_record rr =
     (let start = rr_position rr in
      case read_exact HEADER_LEN (rr_reader rr) of
        (Inl e, src) \<Rightarrow>
          (if io_error_kind e = UnexpectedEof
           then (if start = rr_file_len rr then (Inr CleanEof, rr\<lparr>rr_reader := src\<rparr>)
                 else (Inr (TornTail start), rr\<lparr>rr_reader := src\<rparr>))
           else (Inl (Io e), rr\<lparr>rr_reader := src\<rparr>))
      | (Inr header, src) \<Rightarrow>
          (let blen = body_len header;
               remaining = rr_file_len rr - start - of_nat HEADER_LEN
           in
           if remaining < of_nat blen then (Inr (TornTail start), rr\<lparr>rr_reader := src\<rparr>)
           else
             (case read_exact blen src of
                (Inr body, src) \<Rightarrow>
                  (Inr (Record start (header @ body)),
                   rr\<lparr>rr_reader := src,
                      rr_position := start + of_nat HEADER_LEN + of_nat blen\<rparr>)
              | (Inl e, src) \<Rightarrow>
                  (if io_error_kind e = UnexpectedEof
                   then (Inr (TornTail start), rr\<lparr>rr_reader := src\<rparr>)
                   else (Inl (Io e), rr\<lparr>rr_reader := src\<rparr>)))))"

text \<open>Every record consumes at least its header, so the loops over a reader terminate.\<close>

lemma next_record_consumes:
  "next_record rr = (Inr (Record pos bs), rr') \<Longrightarrow>
     length (src_bytes (rr_reader rr')) < length (src_bytes (rr_reader rr))"
  by (auto simp: next_record_def read_exact_def Let_def HEADER_LEN_def
      split: prod.splits sum.splits if_splits)

section \<open>Reading a whole file\<close>

text \<open>
  A reader that has delivered the first \<open>pos\<close> bytes of a file \<open>data\<close> whose length the reader was
  given truthfully and whose remaining bytes can be read without an I/O error.
\<close>

definition reader_at :: "bytes \<Rightarrow> nat \<Rightarrow> record_reader \<Rightarrow> bool" where
  "reader_at data pos rr \<longleftrightarrow>
     rr_reader rr = \<lparr>src_bytes = drop pos data, src_fail = None\<rparr> \<and>
     rr_position rr = of_nat pos \<and> rr_file_len rr = of_nat (length data) \<and>
     pos \<le> length data \<and> length data < 2 ^ 64"

text \<open>The length of the record that the header at the front of the input announces.\<close>

definition frame_len :: "bytes \<Rightarrow> nat" where
  "frame_len bs = HEADER_LEN + body_len (take HEADER_LEN bs)"

definition has_frame :: "bytes \<Rightarrow> bool" where
  "has_frame bs \<longleftrightarrow> HEADER_LEN \<le> length bs \<and> frame_len bs \<le> length bs"

lemma frame_len_ge: "HEADER_LEN \<le> frame_len bs"
  by (simp add: frame_len_def)

lemma reader_at_new:
  "length data < 2 ^ 64 \<Longrightarrow>
     reader_at data 0 (record_reader_new \<lparr>src_bytes = data, src_fail = None\<rparr> (of_nat (length data)))"
  by (simp add: reader_at_def record_reader_new_def)

lemma of_nat_u64_eq_iff:
  "m < 2 ^ 64 \<Longrightarrow> n < 2 ^ 64 \<Longrightarrow> (of_nat m :: u64) = of_nat n \<longleftrightarrow> m = n"
  by (metis unat_u64_of_nat)

lemma of_nat_u64_less_iff:
  "m < 2 ^ 64 \<Longrightarrow> n < 2 ^ 64 \<Longrightarrow> (of_nat m :: u64) < of_nat n \<longleftrightarrow> m < n"
  by (simp add: word_less_nat_alt unat_u64_of_nat)

lemma body_len_bound: "body_len header < 2 ^ 32"
  unfolding body_len_def by (rule unat_u32_bound)

lemma remaining_nat:
  "pos + h \<le> n \<Longrightarrow> (of_nat n - of_nat pos - of_nat h :: u64) = of_nat (n - (pos + h))"
  by (simp add: of_nat_diff algebra_simps)

lemma next_record_end:
  assumes "reader_at data pos rr" and "pos = length data"
  shows "next_record rr = (Inr CleanEof, rr) \<and> reader_at data pos rr"
  using assms by (simp add: next_record_def reader_at_def read_exact_def HEADER_LEN_def Let_def)

lemma next_record_torn:
  assumes at: "reader_at data pos rr" and "pos < length data" and no: "\<not> has_frame (drop pos data)"
  shows "\<exists>rr'. next_record rr = (Inr (TornTail (of_nat pos)), rr')"
proof -
  from at have len: "length data < 2 ^ 64" by (simp add: reader_at_def)
  then have neq: "(of_nat pos :: u64) \<noteq> of_nat (length data)"
    using assms(2) of_nat_u64_eq_iff [of pos "length data"] by simp
  show ?thesis
  proof (cases "HEADER_LEN \<le> length (drop pos data)")
    case False
    with at neq show ?thesis
      by (simp add: next_record_def reader_at_def read_exact_def Let_def)
  next
    case True
    define bl where "bl = body_len (take HEADER_LEN (drop pos data))"
    from True assms(2) have rem: "(of_nat (length data) - of_nat pos - of_nat HEADER_LEN :: u64) =
        of_nat (length data - (pos + HEADER_LEN))"
      by (intro remaining_nat) simp
    from no True have "length data - (pos + HEADER_LEN) < bl"
      by (simp add: has_frame_def frame_len_def bl_def)
    moreover have "bl < 2 ^ 64" using body_len_bound [of "take HEADER_LEN (drop pos data)"]
      by (simp add: bl_def)
    ultimately have "(of_nat (length data - (pos + HEADER_LEN)) :: u64) < of_nat bl"
      using len by (subst of_nat_u64_less_iff) auto
    with at True rem show ?thesis
      by (simp add: next_record_def reader_at_def read_exact_def Let_def bl_def)
  qed
qed

lemma next_record_frame:
  assumes at: "reader_at data pos rr" and has: "has_frame (drop pos data)"
  shows "\<exists>rr'. next_record rr =
             (Inr (Record (of_nat pos) (take (frame_len (drop pos data)) (drop pos data))), rr') \<and>
           reader_at data (pos + frame_len (drop pos data)) rr'"
proof -
  define bl where "bl = body_len (take HEADER_LEN (drop pos data))"
  from at have len: "length data < 2 ^ 64" by (simp add: reader_at_def)
  from has have le: "pos + HEADER_LEN \<le> length data" "bl \<le> length data - (pos + HEADER_LEN)"
    by (auto simp: has_frame_def frame_len_def bl_def HEADER_LEN_def)
  have "\<not> (of_nat (length data - (pos + HEADER_LEN)) :: u64) < of_nat bl"
    using len le by (subst of_nat_u64_less_iff) auto
  then have fits: "\<not> (of_nat (length data) - of_nat pos - of_nat HEADER_LEN :: u64) < of_nat bl"
    by (simp only: remaining_nat [OF le(1)] not_False_eq_True)
  define rest where "rest = drop pos data"
  have fl: "frame_len rest = HEADER_LEN + bl" by (simp add: frame_len_def bl_def rest_def)
  let ?rr' = "rr\<lparr>rr_reader := \<lparr>src_bytes = drop (HEADER_LEN + bl) rest, src_fail = None\<rparr>,
                 rr_position := of_nat pos + of_nat HEADER_LEN + of_nat bl\<rparr>"
  have rest: "body_len (take HEADER_LEN rest) = bl" "HEADER_LEN \<le> length rest"
    "bl \<le> length rest - HEADER_LEN"
    using le by (simp_all add: rest_def bl_def)
  have rr: "rr_reader rr = \<lparr>src_bytes = rest, src_fail = None\<rparr>"
    "rr_position rr = of_nat pos" "rr_file_len rr = of_nat (length data)"
    using at by (simp_all add: reader_at_def rest_def)
  have split: "take HEADER_LEN rest @ take bl (drop HEADER_LEN rest) = take (HEADER_LEN + bl) rest"
    by (simp add: take_add)
  have "next_record rr = (Inr (Record (of_nat pos) (take (HEADER_LEN + bl) rest)), ?rr')"
    using rr rest fits split by (simp add: next_record_def read_exact_def Let_def add.commute)
  moreover have "reader_at data (pos + (HEADER_LEN + bl)) ?rr'"
    using at le by (simp add: reader_at_def rest_def ac_simps)
  ultimately show ?thesis
    unfolding rest_def [symmetric] fl by blast
qed

end
