(* ===== verification/Os.thy ===== *)
theory Os
  imports Record_Reader
begin

text \<open>
  The operating system as the sources use it through \<open>std::fs\<close>, \<open>std::io\<close> and \<open>std::time\<close>: one
  directory (the store directory), inodes, advisory locks and a clock. A file handle is an inode
  number, so a handle stays usable after its name was removed or renamed, as on Unix.

  Every call can fail. What the environment decides is fixed by two functions of the state:
  \<open>os_faults n\<close> is the error (if any) of the n-th call, with the number of bytes a failing write
  or sequential read got through before it; \<open>os_clock n\<close> is the time since the epoch in
  nanoseconds, or None for a clock before the epoch. \<open>os_ticks\<close> counts the calls. Nothing is
  assumed about the two functions in the definitions.

  \<open>synced\<close> is the length of the prefix of a file that \<open>sync_all\<close> made durable.
\<close>

record inode =
  content :: bytes
  synced :: nat

datatype dir_entry = File_Entry nat | Other_Entry

record os =
  os_dir :: "(string \<times> dir_entry) list"
  os_inodes :: "inode list"
  os_flocks :: "nat list"
  os_clock :: "nat \<Rightarrow> nat option"
  os_faults :: "nat \<Rightarrow> (nat \<times> io_error) option"
  os_ticks :: nat

definition tick :: "'a os_scheme \<Rightarrow> 'a os_scheme" where
  [simp]: "tick st = st\<lparr>os_ticks := os_ticks st + 1\<rparr>"

definition file_content :: "'a os_scheme \<Rightarrow> nat \<Rightarrow> bytes" where
  "file_content st fd = content (os_inodes st ! fd)"

text \<open>The largest file offset, \<open>off_t\<close> being a signed 64-bit integer.\<close>

definition MAX_FILE_LEN :: nat where
  "MAX_FILE_LEN = 2 ^ 63 - 1"

section \<open>Calls\<close>

definition syscall ::
  "('a os_scheme \<Rightarrow> (kvs_error + 'b) \<times> 'a os_scheme) \<Rightarrow> 'a os_scheme \<Rightarrow>
   (kvs_error + 'b) \<times> 'a os_scheme" where
  "syscall f st =
     (case os_faults st (os_ticks st) of
        Some (n, e) \<Rightarrow> (Inl (Io e), tick st)
      | None \<Rightarrow> f (tick st))"

definition not_found :: kvs_error where
  "not_found = Io (Io_Error NotFound ''No such file or directory'')"

definition create_dir_all :: "'a os_scheme \<Rightarrow> (kvs_error + unit) \<times> 'a os_scheme" where
  "create_dir_all = syscall (\<lambda>st. (Inr (), st))"

definition append_content :: "nat \<Rightarrow> bytes \<Rightarrow> 'a os_scheme \<Rightarrow> 'a os_scheme" where
  "append_content fd bs st =
     st\<lparr>os_inodes := (os_inodes st)[fd := (os_inodes st ! fd)\<lparr>content := file_content st fd @ bs\<rparr>]\<rparr>"

text \<open>
  \<open>OpenOptions::new().create(true).append(true).open(name)\<close>, and the same with read and write
  access and \<open>truncate(false)\<close> for the lock file: an existing file is opened as it is, a missing
  one is created empty.
\<close>

definition open_create :: "string \<Rightarrow> 'a os_scheme \<Rightarrow> (kvs_error + nat) \<times> 'a os_scheme" where
  "open_create name = syscall (\<lambda>st.
     case map_of (os_dir st) name of
       Some (File_Entry fd) \<Rightarrow> (Inr fd, st)
     | Some Other_Entry \<Rightarrow> (Inl (Io (Io_Error IsADirectory ''Is a directory'')), st)
     | None \<Rightarrow>
         (Inr (length (os_inodes st)),
          st\<lparr>os_dir := os_dir st @ [(name, File_Entry (length (os_inodes st)))],
             os_inodes := os_inodes st @ [\<lparr>content = [], synced = 0\<rparr>]\<rparr>))"

definition open_read :: "string \<Rightarrow> 'a os_scheme \<Rightarrow> (kvs_error + nat) \<times> 'a os_scheme" where
  "open_read name = syscall (\<lambda>st.
     case map_of (os_dir st) name of
       Some (File_Entry fd) \<Rightarrow> (Inr fd, st)
     | Some Other_Entry \<Rightarrow> (Inl (Io (Io_Error IsADirectory ''Is a directory'')), st)
     | None \<Rightarrow> (Inl not_found, st))"

text \<open>
  \<open>Write::write_all\<close> on a handle in append mode. A failing call may have appended a prefix.
\<close>

definition write_all :: "nat \<Rightarrow> bytes \<Rightarrow> 'a os_scheme \<Rightarrow> (kvs_error + unit) \<times> 'a os_scheme" where
  "write_all fd bs st =
     (case os_faults st (os_ticks st) of
        Some (n, e) \<Rightarrow> (Inl (Io e), append_content fd (take n bs) (tick st))
      | None \<Rightarrow>
          (let room = MAX_FILE_LEN - length (file_content st fd) in
           if length bs \<le> room then (Inr (), append_content fd bs (tick st))
           else (Inl (Io (Io_Error FileTooLarge ''File too large'')),
                 append_content fd (take room bs) (tick st))))"

definition sync_all :: "nat \<Rightarrow> 'a os_scheme \<Rightarrow> (kvs_error + unit) \<times> 'a os_scheme" where
  "sync_all fd = syscall (\<lambda>st.
     (Inr (), st\<lparr>os_inodes := (os_inodes st)
        [fd := (os_inodes st ! fd)\<lparr>synced := length (file_content st fd)\<rparr>]\<rparr>))"

definition set_len :: "nat \<Rightarrow> nat \<Rightarrow> 'a os_scheme \<Rightarrow> (kvs_error + unit) \<times> 'a os_scheme" where
  "set_len fd n = syscall (\<lambda>st.
     (let c = file_content st fd; i = os_inodes st ! fd
      in (Inr (), st\<lparr>os_inodes := (os_inodes st)
           [fd := i\<lparr>content := take n c @ replicate (n - length c) 0, synced := min n (synced i)\<rparr>]\<rparr>)))"

definition metadata_len :: "nat \<Rightarrow> 'a os_scheme \<Rightarrow> (kvs_error + u64) \<times> 'a os_scheme" where
  "metadata_len fd = syscall (\<lambda>st. (Inr (of_nat (length (file_content st fd))), st))"

definition read_exact_at ::
  "nat \<Rightarrow> nat \<Rightarrow> nat \<Rightarrow> 'a os_scheme \<Rightarrow> (kvs_error + bytes) \<times> 'a os_scheme" where
  "read_exact_at fd off len = syscall (\<lambda>st.
     if off + len \<le> length (file_content st fd)
     then (Inr (slice_of (file_content st fd) off (off + len)), st)
     else (Inl (Io (Io_Error UnexpectedEof ''failed to fill whole buffer'')), st))"

definition seek_start :: "nat \<Rightarrow> 'a os_scheme \<Rightarrow> (kvs_error + unit) \<times> 'a os_scheme" where
  "seek_start fd = syscall (\<lambda>st. (Inr (), st))"

text \<open>
  A \<open>BufReader\<close> over a file at its start, as the source of a \<open>record_reader\<close>: the bytes of the
  file, cut short where a read fails.
\<close>

definition buf_reader :: "nat \<Rightarrow> 'a os_scheme \<Rightarrow> source \<times> 'a os_scheme" where
  "buf_reader fd st =
     ((case os_faults st (os_ticks st) of
         Some (n, e) \<Rightarrow> \<lparr>src_bytes = take n (file_content st fd), src_fail = Some e\<rparr>
       | None \<Rightarrow> \<lparr>src_bytes = file_content st fd, src_fail = None\<rparr>),
      tick st)"

definition remove_file :: "string \<Rightarrow> 'a os_scheme \<Rightarrow> (kvs_error + unit) \<times> 'a os_scheme" where
  "remove_file name = syscall (\<lambda>st.
     case map_of (os_dir st) name of
       Some (File_Entry fd) \<Rightarrow> (Inr (), st\<lparr>os_dir := filter (\<lambda>(n, _). n \<noteq> name) (os_dir st)\<rparr>)
     | Some Other_Entry \<Rightarrow> (Inl (Io (Io_Error IsADirectory ''Is a directory'')), st)
     | None \<Rightarrow> (Inl not_found, st))"

definition rename :: "string \<Rightarrow> string \<Rightarrow> 'a os_scheme \<Rightarrow> (kvs_error + unit) \<times> 'a os_scheme" where
  "rename from to = syscall (\<lambda>st.
     case map_of (os_dir st) from of
       Some entry \<Rightarrow>
         (Inr (), st\<lparr>os_dir :=
            filter (\<lambda>(n, _). n \<noteq> from \<and> n \<noteq> to) (os_dir st) @ [(to, entry)]\<rparr>)
     | None \<Rightarrow> (Inl not_found, st))"

text \<open>\<open>fs::exists\<close> reports an I/O error; \<open>Path::exists\<close> turns it into False.\<close>

definition fs_exists :: "string \<Rightarrow> 'a os_scheme \<Rightarrow> (kvs_error + bool) \<times> 'a os_scheme" where
  "fs_exists name = syscall (\<lambda>st. (Inr (map_of (os_dir st) name \<noteq> None), st))"

definition path_exists :: "string \<Rightarrow> 'a os_scheme \<Rightarrow> bool \<times> 'a os_scheme" where
  "path_exists name st =
     (case fs_exists name st of (Inl e, st) \<Rightarrow> (False, st) | (Inr b, st) \<Rightarrow> (b, st))"

text \<open>\<open>Path::is_file\<close>: False when the entry is not a file or cannot be examined.\<close>

definition path_is_file :: "string \<Rightarrow> 'a os_scheme \<Rightarrow> bool \<times> 'a os_scheme" where
  "path_is_file name st =
     (os_faults st (os_ticks st) = None \<and>
        (case map_of (os_dir st) name of Some (File_Entry _) \<Rightarrow> True | _ \<Rightarrow> False),
      tick st)"

text \<open>Listing the directory: the names in some order, an error for the call or for one entry.\<close>

definition read_dir :: "'a os_scheme \<Rightarrow> (kvs_error + (string \<times> dir_entry) list) \<times> 'a os_scheme" where
  "read_dir = syscall (\<lambda>st. (Inr (os_dir st), st))"

definition next_entry :: "'a os_scheme \<Rightarrow> (kvs_error + unit) \<times> 'a os_scheme" where
  "next_entry = syscall (\<lambda>st. (Inr (), st))"

section \<open>Time\<close>

definition clock_now :: "'a os_scheme \<Rightarrow> (kvs_error + nat) \<times> 'a os_scheme" where
  "clock_now st =
     (case os_clock st (os_ticks st) of
        None \<Rightarrow> (Inl Clock, tick st)
      | Some ns \<Rightarrow> (Inr ns, tick st))"

definition as_secs :: "nat \<Rightarrow> u64" where
  "as_secs ns = of_nat (ns div 10 ^ 9)"

definition as_millis :: "nat \<Rightarrow> u64" where
  "as_millis ns = of_nat (ns div 10 ^ 6)"

section \<open>Buffered writers\<close>

record buf_writer =
  bw_file :: nat
  bw_buf :: bytes

definition BUF_CAPACITY :: nat where
  "BUF_CAPACITY = 8192"

definition buf_writer_new :: "nat \<Rightarrow> buf_writer" where
  "buf_writer_new fd = \<lparr>bw_file = fd, bw_buf = []\<rparr>"

text \<open>
  A failing flush keeps the bytes that were not written, and dropping a writer flushes what is left,
  ignoring errors.
\<close>

definition bw_flush :: "buf_writer \<Rightarrow> 'a os_scheme \<Rightarrow> (kvs_error + unit) \<times> buf_writer \<times> 'a os_scheme" where
  "bw_flush bw st =
     (if bw_buf bw = [] then (Inr (), bw, st) else
      (let (r, st') = write_all (bw_file bw) (bw_buf bw) st;
           n = length (file_content st' (bw_file bw)) - length (file_content st (bw_file bw))
       in (r, bw\<lparr>bw_buf := drop n (bw_buf bw)\<rparr>, st')))"

definition bw_write_all ::
  "bytes \<Rightarrow> buf_writer \<Rightarrow> 'a os_scheme \<Rightarrow> (kvs_error + unit) \<times> buf_writer \<times> 'a os_scheme" where
  "bw_write_all bs bw st =
     (if length (bw_buf bw) + length bs < BUF_CAPACITY
      then (Inr (), bw\<lparr>bw_buf := bw_buf bw @ bs\<rparr>, st)
      else
        st_bind (if BUF_CAPACITY < length (bw_buf bw) + length bs then bw_flush bw st else (Inr (), bw, st))
        (\<lambda>_ (bw, st).
          if BUF_CAPACITY \<le> length bs
          then (let (r, st) = write_all (bw_file bw) bs st in (r, bw, st))
          else (Inr (), bw\<lparr>bw_buf := bw_buf bw @ bs\<rparr>, st)))"

definition bw_sync_all :: "buf_writer \<Rightarrow> 'a os_scheme \<Rightarrow> (kvs_error + unit) \<times> buf_writer \<times> 'a os_scheme" where
  "bw_sync_all bw st = (let (r, st) = sync_all (bw_file bw) st in (r, bw, st))"

definition bw_drop :: "buf_writer \<Rightarrow> 'a os_scheme \<Rightarrow> 'a os_scheme" where
  "bw_drop bw st = snd (snd (bw_flush bw st))"

section \<open>Outcomes of calls\<close>

lemma syscall_Inr_iff [res_iffs]:
  "syscall f st = (Inr x, st') \<longleftrightarrow>
     os_faults st (os_ticks st) = None \<and> f (tick st) = (Inr x, st')"
  by (auto simp: syscall_def split: option.splits)

lemma syscall_Inl_cases:
  "syscall f st = (Inl e, st') \<Longrightarrow> st' = tick st \<or> f (tick st) = (Inl e, st')"
  by (auto simp: syscall_def split: option.splits)

lemma write_all_Inr_iff [res_iffs]:
  "write_all fd bs st = (Inr u, st') \<longleftrightarrow>
     os_faults st (os_ticks st) = None \<and>
     length bs \<le> MAX_FILE_LEN - length (file_content st fd) \<and>
     st' = append_content fd bs (tick st)"
  by (auto simp: write_all_def Let_def split: option.splits)

lemma clock_now_Inr_iff [res_iffs]:
  "clock_now st = (Inr ns, st') \<longleftrightarrow> os_clock st (os_ticks st) = Some ns \<and> st' = tick st"
  by (auto simp: clock_now_def split: option.splits)

text \<open>The environment of a run without I/O errors and with a clock after the epoch.\<close>

definition calm :: "'a os_scheme \<Rightarrow> bool" where
  "calm st \<longleftrightarrow> (\<forall>n. os_faults st n = None) \<and> (\<forall>n. os_clock st n \<noteq> None)"

lemma calm_faults: "calm st \<Longrightarrow> os_faults st n = None"
  by (simp add: calm_def)

lemma calm_syscall: "calm st \<Longrightarrow> syscall f st = f (tick st)"
  by (simp add: syscall_def calm_def)

lemma calm_clock: "calm st \<Longrightarrow> \<exists>ns. clock_now st = (Inr ns, tick st)"
  by (auto simp: calm_def clock_now_def split: option.splits)

lemma calm_cong:
  "os_faults st' = os_faults st \<Longrightarrow> os_clock st' = os_clock st \<Longrightarrow> calm st' = calm st"
  by (simp add: calm_def)

section \<open>Contents\<close>

lemma file_content_append:
  "fd < length (os_inodes st) \<Longrightarrow>
     file_content (append_content fd bs st) fd' =
       (if fd' = fd then file_content st fd @ bs else file_content st fd')"
  by (simp add: file_content_def append_content_def nth_list_update)

lemma append_content_frame [simp]:
  "os_dir (append_content fd bs st) = os_dir st"
  "os_flocks (append_content fd bs st) = os_flocks st"
  "os_clock (append_content fd bs st) = os_clock st"
  "os_faults (append_content fd bs st) = os_faults st"
  "os_ticks (append_content fd bs st) = os_ticks st"
  "length (os_inodes (append_content fd bs st)) = length (os_inodes st)"
  "os.more (append_content fd bs st) = os.more st"
  by (simp_all add: append_content_def)

lemma file_content_upd [simp]:
  "file_content (os_ticks_update f st) fd = file_content st fd"
  "file_content (os_dir_update g st) fd = file_content st fd"
  by (simp_all add: file_content_def)

lemma MAX_FILE_LEN_less: "MAX_FILE_LEN < 2 ^ 64"
  by (simp add: MAX_FILE_LEN_def)

end
