(* ===== verification/Config.thy ===== *)
theory Config
  imports Errors
begin

text \<open>
  Configuration: \<open>src/src/storage/config.rs\<close>, \<open>policy.rs\<close> and the \<open>StoreType\<close> of \<open>kvstore.rs\<close>.
\<close>

datatype durability_policy = SyncOnEveryPut | SyncOnInterval | OsDecides

datatype store_type = StoreType_Bitcask | StoreType_Sled

fun store_type_as_str :: "store_type \<Rightarrow> string" where
  "store_type_as_str StoreType_Bitcask = ''bitcask''"
| "store_type_as_str StoreType_Sled = ''sled''"

definition COMPACTION_THRESHOLD :: u64 where
  "COMPACTION_THRESHOLD = push_bit 20 1"

definition FILE_SIZE_THRESHOLD :: u64 where
  "FILE_SIZE_THRESHOLD = push_bit 20 1"

definition FLUSH_THRESHOLD_MILLIS :: u64 where
  "FLUSH_THRESHOLD_MILLIS = 1000"

record config =
  cfg_dir :: string
  cfg_durability_policy :: durability_policy
  cfg_file_size_threshold :: u64
  cfg_compaction_threshold :: u64
  cfg_flush_threshold_millis :: u64
  cfg_store_type :: store_type

definition config_new :: "string \<Rightarrow> store_type \<Rightarrow> config" where
  "config_new dir store_type =
     \<lparr>cfg_dir = dir,
      cfg_durability_policy = OsDecides,
      cfg_file_size_threshold = FILE_SIZE_THRESHOLD,
      cfg_compaction_threshold = COMPACTION_THRESHOLD,
      cfg_flush_threshold_millis = FLUSH_THRESHOLD_MILLIS,
      cfg_store_type = store_type\<rparr>"

end
