(* ===== verification/File_Names.thy ===== *)
theory File_Names
  imports Text
begin

text \<open>
  The names of data, hint and temporary compaction files (the functions at the end of
  \<open>src/src/storage/bitcask.rs\<close>) and the recognition of data and hint files by \<open>open\<close>.
\<close>

definition data_file_name :: "u64 \<Rightarrow> string" where
  "data_file_name i = pad_zeros 6 (show_nat (unat i)) @ ''.data''"

definition data_file_name_compaction :: "u64 \<Rightarrow> string" where
  "data_file_name_compaction i = data_file_name i @ ''.compact''"

definition hint_file_name :: "u64 \<Rightarrow> string" where
  "hint_file_name i = pad_zeros 6 (show_nat (unat i)) @ ''.hint''"

definition get_file_id :: "string \<Rightarrow> u64 option" where
  "get_file_id file_name = Option.bind (strip_suffix file_name ''.data'') parse_u64"

text \<open>The id of a hint file, from the match in \<open>open\<close>.\<close>

definition get_hint_id :: "string \<Rightarrow> u64 option" where
  "get_hint_id file_name = Option.bind (strip_suffix file_name ''.hint'') parse_u64"

lemma get_file_id_data [simp]: "get_file_id (data_file_name i) = Some i"
  by (simp add: get_file_id_def data_file_name_def parse_u64_pad_show)

lemma get_hint_id_hint [simp]: "get_hint_id (hint_file_name i) = Some i"
  by (simp add: get_hint_id_def hint_file_name_def parse_u64_pad_show)

lemma suffix_mismatch:
  assumes "a \<noteq> [] \<and> b \<noteq> [] \<and> last a \<noteq> last b"
  shows "strip_suffix (s @ a) b = None"
proof (rule ccontr)
  assume "strip_suffix (s @ a) b \<noteq> None"
  then obtain p where "s @ a = p @ b" by (auto simp: strip_suffix_Some_iff)
  then have "last (s @ a) = last (p @ b)" by simp
  with assms show False by simp
qed

lemma get_file_id_hint [simp]: "get_file_id (hint_file_name i) = None"
  by (simp add: get_file_id_def hint_file_name_def suffix_mismatch)

lemma get_file_id_compaction [simp]: "get_file_id (data_file_name_compaction i) = None"
  by (simp add: get_file_id_def data_file_name_compaction_def suffix_mismatch)

lemma get_hint_id_data [simp]: "get_hint_id (data_file_name i) = None"
  by (simp add: get_hint_id_def data_file_name_def suffix_mismatch)

lemma data_file_name_inject [simp]: "data_file_name i = data_file_name j \<longleftrightarrow> i = j"
  by (metis get_file_id_data option.inject)

lemma hint_file_name_inject [simp]: "hint_file_name i = hint_file_name j \<longleftrightarrow> i = j"
  by (metis get_hint_id_hint option.inject)

lemma data_file_name_compaction_inject [simp]:
  "data_file_name_compaction i = data_file_name_compaction j \<longleftrightarrow> i = j"
  by (simp add: data_file_name_compaction_def)

lemma file_names_distinct [simp]:
  "data_file_name i \<noteq> hint_file_name j"
  "hint_file_name j \<noteq> data_file_name i"
  "data_file_name i \<noteq> data_file_name_compaction j"
  "data_file_name_compaction j \<noteq> data_file_name i"
  "hint_file_name i \<noteq> data_file_name_compaction j"
  "data_file_name_compaction j \<noteq> hint_file_name i"
proof -
  show "data_file_name i \<noteq> hint_file_name j" "hint_file_name j \<noteq> data_file_name i"
    by (metis get_file_id_data get_file_id_hint option.distinct(1))+
  show "data_file_name i \<noteq> data_file_name_compaction j" "data_file_name_compaction j \<noteq> data_file_name i"
    by (metis get_file_id_data get_file_id_compaction option.distinct(1))+
  have "hint_file_name i ! (length (hint_file_name i) - 2) = CHR ''n''"
    "data_file_name_compaction j ! (length (data_file_name_compaction j) - 2) = CHR ''c''"
    by (simp_all add: hint_file_name_def data_file_name_compaction_def nth_append)
  then show "hint_file_name i \<noteq> data_file_name_compaction j"
    "data_file_name_compaction j \<noteq> hint_file_name i"
    by auto
qed

end
