(* ===== verification/Lock_File.thy ===== *)
theory Lock_File
  imports Os Config
begin

text \<open>
  The lock file of a store directory, \<open>src/src/storage/lock_file.rs\<close>: an exclusive advisory lock
  keeps the directory to one process, and the text inside says which engine owns the data.
\<close>

definition LOCK_FILE_NAME :: string where
  "LOCK_FILE_NAME = ''kvs.lock''"

text \<open>\<open>File::try_lock\<close>: taken by another handle (\<open>WouldBlock\<close>), an error, or acquired.\<close>

datatype try_lock_error = WouldBlock | TryLock_Error kvs_error

definition try_lock :: "nat \<Rightarrow> 'a os_scheme \<Rightarrow> (try_lock_error + unit) \<times> 'a os_scheme" where
  "try_lock fd st =
     (case os_faults st (os_ticks st) of
        Some (n, e) \<Rightarrow> (Inl (TryLock_Error (Io e)), tick st)
      | None \<Rightarrow>
          if fd \<in> set (os_flocks st) then (Inl WouldBlock, tick st)
          else (Inr (), (tick st)\<lparr>os_flocks := fd # os_flocks st\<rparr>))"

text \<open>Dropping a handle releases its lock.\<close>

definition unlock :: "nat \<Rightarrow> 'a os_scheme \<Rightarrow> 'a os_scheme" where
  "unlock fd st = st\<lparr>os_flocks := remove1 fd (os_flocks st)\<rparr>"

text \<open>\<open>Read::read_to_string\<close> at the start of the file.\<close>

definition read_to_string :: "nat \<Rightarrow> 'a os_scheme \<Rightarrow> (kvs_error + bytes) \<times> 'a os_scheme" where
  "read_to_string fd = syscall (\<lambda>st.
     if utf8_valid (file_content st fd) then (Inr (file_content st fd), st)
     else (Inl (Io (Io_Error InvalidDataKind ''stream did not contain valid UTF-8'')), st))"

text \<open>The part of \<open>acquire\<close> that follows the lock: the marker is written, or compared.\<close>

definition check_marker :: "store_type \<Rightarrow> nat \<Rightarrow> 'a os_scheme \<Rightarrow> (kvs_error + unit) \<times> 'a os_scheme" where
  "check_marker engine fd st =
     st_bind (read_to_string fd st) (\<lambda>marker st.
     let marker = trim marker in
     if marker = []
     then
       st_bind (write_all fd (to_bytes (store_type_as_str engine)) st) (\<lambda>_ st.
       sync_all fd st)
     else if marker \<noteq> to_bytes (store_type_as_str engine)
     then (Inl (EngineMismatch (of_bytes marker) (store_type_as_str engine)), st)
     else (Inr (), st))"

text \<open>
  \<open>acquire\<close>. Every early return after the lock was taken drops the handle, which releases the
  lock again.
\<close>

definition lock_acquire :: "store_type \<Rightarrow> 'a os_scheme \<Rightarrow> (kvs_error + nat) \<times> 'a os_scheme" where
  "lock_acquire engine st =
     st_bind (open_create LOCK_FILE_NAME st) (\<lambda>fd st.
     case try_lock fd st of
       (Inl WouldBlock, st) \<Rightarrow> (Inl StoreLocked, st)
     | (Inl (TryLock_Error e), st) \<Rightarrow> (Inl e, st)
     | (Inr _, st) \<Rightarrow>
         (case check_marker engine fd st of
            (Inl e, st) \<Rightarrow> (Inl e, unlock fd st)
          | (Inr _, st) \<Rightarrow> (Inr fd, st)))"

end
