(* ===== verification/Store.thy ===== *)
theory Store
  imports Index Os Btree Config File_Names Lock_File
begin

text \<open>
  The running Bitcask store of \<open>src/src/storage/bitcask.rs\<close>: its shared state, the single writer
  and the operations \<open>set\<close>, \<open>remove\<close> and \<open>get\<close> with everything they trigger (index update,
  compaction signal, durability policy, rotation).

  The state \<open>store\<close> extends the operating system state with the fields of \<open>Shared\<close> and \<open>Handle\<close>.
  Unsigned arithmetic on the counters is that of release builds: it wraps.
\<close>

record writer_state =
  ws_current_file_id :: u64
  ws_file :: nat
  ws_offset :: u64
  ws_flushed_offset :: u64
  ws_last_ts_flushed :: u64
  ws_stale_bytes_count :: u64

text \<open>
  \<open>st_writer_poisoned\<close> is the poison flag of the writer mutex, \<open>st_tx\<close> whether the sender of the
  compaction channel is still there, \<open>st_worker\<close> whether its thread still receives, and
  \<open>st_signal\<close> the one slot of the channel.
\<close>

record store = os +
  st_index :: index
  st_readers :: "(u64 \<times> nat) list"
  st_writer :: writer_state
  st_writer_poisoned :: bool
  st_config :: config
  st_lock_file :: nat
  st_tx :: bool
  st_worker :: bool
  st_signal :: bool

definition unix_now :: "'a os_scheme \<Rightarrow> (kvs_error + nat) \<times> 'a os_scheme" where
  "unix_now st = clock_now st"

section \<open>Shared\<close>

definition upd_writer :: "(writer_state \<Rightarrow> writer_state) \<Rightarrow> store \<Rightarrow> store" where
  "upd_writer f st = st\<lparr>st_writer := f (st_writer st)\<rparr>"

definition shared_sync :: "store \<Rightarrow> (kvs_error + unit) \<times> store" where
  "shared_sync st =
     st_bind (sync_all (ws_file (st_writer st)) st) (\<lambda>_ st.
     (Inr (), upd_writer (\<lambda>w. w\<lparr>ws_flushed_offset := ws_offset w\<rparr>) st))"

definition readers_update :: "((u64 \<times> nat) list \<Rightarrow> (u64 \<times> nat) list) \<Rightarrow> store \<Rightarrow> store" where
  "readers_update mutate st = st\<lparr>st_readers := mutate (st_readers st)\<rparr>"

definition writer_lock :: "store \<Rightarrow> (kvs_error + unit) \<times> store" where
  "writer_lock st = (if st_writer_poisoned st then (Inl LockPoisoned, st) else (Inr (), st))"

definition rotate_to :: "u64 \<Rightarrow> store \<Rightarrow> (kvs_error + unit) \<times> store" where
  "rotate_to next_file_id st =
     st_bind (shared_sync st) (\<lambda>_ st.
     let next_file = data_file_name next_file_id in
     st_bind (open_create next_file st) (\<lambda>next_file_writer st.
     let st = upd_writer (\<lambda>w. w\<lparr>ws_file := next_file_writer, ws_current_file_id := next_file_id,
                                ws_flushed_offset := 0, ws_offset := 0\<rparr>) st in
     st_bind (unix_now st) (\<lambda>now st.
     let st = upd_writer (\<lambda>w. w\<lparr>ws_last_ts_flushed := as_millis now\<rparr>) st in
     st_bind (open_read next_file st) (\<lambda>reader st.
     (Inr (), readers_update (bt_insert next_file_id reader) st)))))"

definition rotate_if_full :: "store \<Rightarrow> (kvs_error + unit) \<times> store" where
  "rotate_if_full st =
     (if ws_offset (st_writer st) < cfg_file_size_threshold (st_config st) then (Inr (), st)
      else rotate_to (ws_current_file_id (st_writer st) + 1) st)"

section \<open>Writes\<close>

definition handle_policy :: "store \<Rightarrow> (kvs_error + unit) \<times> store" where
  "handle_policy st =
     (case cfg_durability_policy (st_config st) of
        SyncOnEveryPut \<Rightarrow> shared_sync st
      | SyncOnInterval \<Rightarrow>
          st_bind (unix_now st) (\<lambda>ns st.
          let now = as_millis ns in
          if cfg_flush_threshold_millis (st_config st) \<le> now - ws_last_ts_flushed (st_writer st)
          then
            st_bind (shared_sync st) (\<lambda>_ st.
            (Inr (), upd_writer (\<lambda>w. w\<lparr>ws_last_ts_flushed := now\<rparr>) st))
          else (Inr (), st))
      | OsDecides \<Rightarrow> (Inr (), st))"

definition compaction_trigger :: "store \<Rightarrow> (kvs_error + unit) \<times> store" where
  "compaction_trigger st =
     (if cfg_compaction_threshold (st_config st) \<le> ws_stale_bytes_count (st_writer st)
      then (if st_tx st \<and> st_worker st \<and> \<not> st_signal st then (Inr (), st\<lparr>st_signal := True\<rparr>)
            else (Inr (), st))
      else (Inr (), st))"

definition post_write_ops :: "store \<Rightarrow> (kvs_error + unit) \<times> store" where
  "post_write_ops st =
     st_bind (compaction_trigger st) (\<lambda>_ st.
     st_bind (handle_policy st) (\<lambda>_ st.
     rotate_if_full st))"

text \<open>
  The index update of \<open>append\<close>, under the write lock of the key's bucket: the length of a replaced
  or removed entry is added to the count of stale bytes.
\<close>

fun append_index :: "command \<Rightarrow> u64 \<Rightarrow> nat \<Rightarrow> store \<Rightarrow> (kvs_error + unit) \<times> store" where
  "append_index (Command_Set ts key value) offset len st =
     (let index_value = \<lparr>iv_file_id = ws_current_file_id (st_writer st), iv_ts = ts,
                         iv_offset = offset, iv_len = of_nat len\<rparr>
      in
      st_bind (write_access (st_index st) key, st) (\<lambda>index_writer st.
      case index_writer key of
        Some old \<Rightarrow>
          (Inr (),
           upd_writer (\<lambda>w. w\<lparr>ws_stale_bytes_count := ws_stale_bytes_count w + iv_len old\<rparr>)
             (st\<lparr>st_index := index_insert key index_value (st_index st)\<rparr>))
      | None \<Rightarrow> (Inr (), st\<lparr>st_index := index_insert key index_value (st_index st)\<rparr>)))"
| "append_index (Command_Rm ts key) offset len st =
     st_bind (write_access (st_index st) key, st) (\<lambda>index_writer st.
     case index_writer key of
       Some old \<Rightarrow>
         (Inr (),
          upd_writer (\<lambda>w. w\<lparr>ws_stale_bytes_count := ws_stale_bytes_count w + iv_len old\<rparr>)
            (st\<lparr>st_index := index_remove key (st_index st)\<rparr>))
     | None \<Rightarrow> (Inr (), st))"

text \<open>\<open>append\<close> up to the update of the writer's offset, and then the post-write operations.\<close>

definition append_record :: "(bytes \<Rightarrow> u32) \<Rightarrow> command \<Rightarrow> store \<Rightarrow> (kvs_error + unit) \<times> store" where
  "append_record crc command st =
     (let serialized_command = command_serialize crc command in
      st_bind (writer_lock st) (\<lambda>_ st.
      let offset = ws_offset (st_writer st) in
      st_bind (write_all (ws_file (st_writer st)) serialized_command st) (\<lambda>_ st.
      st_bind (append_index command offset (length serialized_command) st) (\<lambda>_ st.
      (Inr (),
       upd_writer (\<lambda>w. w\<lparr>ws_offset := ws_offset w + of_nat (length serialized_command)\<rparr>) st)))))"

definition store_append :: "(bytes \<Rightarrow> u32) \<Rightarrow> command \<Rightarrow> store \<Rightarrow> (kvs_error + unit) \<times> store" where
  "store_append crc command st =
     st_bind (append_record crc command st) (\<lambda>_ st.
     post_write_ops st)"

definition bitcask_set :: "(bytes \<Rightarrow> u32) \<Rightarrow> bytes \<Rightarrow> bytes \<Rightarrow> store \<Rightarrow> (kvs_error + unit) \<times> store" where
  "bitcask_set crc key value st =
     st_bind (unix_now st) (\<lambda>now st.
     store_append crc (Command_Set (as_secs now) key value) st)"

definition bitcask_remove :: "(bytes \<Rightarrow> u32) \<Rightarrow> bytes \<Rightarrow> store \<Rightarrow> (kvs_error + unit) \<times> store" where
  "bitcask_remove crc key st =
     st_bind (read_access (st_index st) key, st) (\<lambda>m st.
     if m key = None then (Inl KeyNotFound, st)
     else
       st_bind (unix_now st) (\<lambda>now st.
       store_append crc (Command_Rm (as_secs now) key) st))"

section \<open>Reads\<close>

text \<open>
  One pass of the loop of \<open>get\<close>: None when the entry's file has no reader and the loop tries again.
\<close>

definition get_attempt ::
  "(bytes \<Rightarrow> u32) \<Rightarrow> bytes \<Rightarrow> store \<Rightarrow> ((kvs_error + bytes option) \<times> store) option" where
  "get_attempt crc key st =
     (case read_access (st_index st) key of
        Inl e \<Rightarrow> Some (Inl e, st)
      | Inr m \<Rightarrow>
          (case m key of
             None \<Rightarrow> Some (Inr None, st)
           | Some entry \<Rightarrow>
               (case bt_get (st_readers st) (iv_file_id entry) of
                  None \<Rightarrow> None
                | Some file \<Rightarrow>
                    Some (
                      st_bind (read_exact_at file (unat (iv_offset entry)) (unat (iv_len entry)) st)
                      (\<lambda>buf st.
                      st_bind (command_deserialize crc buf, st) (\<lambda>(deserialized, _) st.
                      case map_option length (get_value deserialized) of
                        None \<Rightarrow> (Inr None, st)
                      | Some value_len \<Rightarrow>
                          (case from_utf8 (drop (length buf - value_len) buf) of
                             Inl e \<Rightarrow> (Inl (Utf8 e), st)
                           | Inr s \<Rightarrow> (Inr (Some s), st))))))))"

partial_function (option) bitcask_get ::
  "(bytes \<Rightarrow> u32) \<Rightarrow> bytes \<Rightarrow> store \<Rightarrow> ((kvs_error + bytes option) \<times> store) option" where
  "bitcask_get crc key st =
     (case get_attempt crc key st of
        Some r \<Rightarrow> Some r
      | None \<Rightarrow> bitcask_get crc key st)"

end
