(* ===== verification/Store_Inv.thy ===== *)
theory Store_Inv
  imports Store
begin

text \<open>
  The invariant of a running store and what every write does to it. \<open>store_view\<close> is the abstract
  store, the finite map from keys to values that the index and the files together represent;
  \<open>set\<close> and \<open>remove\<close> are shown to be the update and the deletion on it, and \<open>get\<close> the lookup.
\<close>

section \<open>The abstract store\<close>

text \<open>The bytes an index entry points at, if a reader has them.\<close>

definition entry_bytes :: "store \<Rightarrow> index_value \<Rightarrow> bytes option" where
  "entry_bytes st e =
     (case bt_get (st_readers st) (iv_file_id e) of
        None \<Rightarrow> None
      | Some fd \<Rightarrow>
          (let a = unat (iv_offset e); b = a + unat (iv_len e)
           in if b \<le> length (file_content st fd) then Some (slice_of (file_content st fd) a b)
              else None))"

definition entry_value :: "(bytes \<Rightarrow> u32) \<Rightarrow> store \<Rightarrow> index_value \<Rightarrow> bytes option" where
  "entry_value crc st e =
     (case entry_bytes st e of
        None \<Rightarrow> None
      | Some bs \<Rightarrow>
          (case command_deserialize crc bs of Inl _ \<Rightarrow> None | Inr (cmd, _) \<Rightarrow> get_value cmd))"

definition store_view :: "(bytes \<Rightarrow> u32) \<Rightarrow> store \<Rightarrow> bytes \<Rightarrow> bytes option" where
  "store_view crc st key = Option.bind (index_lookup (st_index st) key) (entry_value crc st)"

section \<open>The invariant\<close>

text \<open>An entry of a key points at exactly one record, and that record sets this key.\<close>

definition entry_holds :: "(bytes \<Rightarrow> u32) \<Rightarrow> store \<Rightarrow> bytes \<Rightarrow> index_value \<Rightarrow> bytes \<Rightarrow> bool" where
  "entry_holds crc st key e v \<longleftrightarrow>
     entry_bytes st e = Some (command_serialize crc (Command_Set (iv_ts e) key v)) \<and>
     command_fits (Command_Set (iv_ts e) key v) \<and> utf8_valid v"

definition entries_ok :: "(bytes \<Rightarrow> u32) \<Rightarrow> store \<Rightarrow> bool" where
  "entries_ok crc st \<longleftrightarrow>
     (\<forall>key e. index_lookup (st_index st) key = Some e \<longrightarrow> (\<exists>v. entry_holds crc st key e v))"

definition readers_ok :: "store \<Rightarrow> bool" where
  "readers_ok st \<longleftrightarrow> bt_ok (st_readers st) \<and> (\<forall>(i, fd) \<in> set (st_readers st). fd < length (os_inodes st))"

text \<open>
  The writer appends at the end of the file with the highest id, which has a reader, and no data
  file of a higher id exists.
\<close>

definition writer_ok :: "store \<Rightarrow> bool" where
  "writer_ok st \<longleftrightarrow>
     (let w = st_writer st; len = length (file_content st (ws_file w)) in
      bt_get (st_readers st) (ws_current_file_id w) = Some (ws_file w) \<and>
      unat (ws_offset w) = len \<and> len \<le> MAX_FILE_LEN \<and>
      (\<forall>i \<in> fst ` set (st_readers st). i \<le> ws_current_file_id w) \<and>
      (\<forall>i > ws_current_file_id w. map_of (os_dir st) (data_file_name i) = None))"

definition store_inv :: "(bytes \<Rightarrow> u32) \<Rightarrow> store \<Rightarrow> bool" where
  "store_inv crc st \<longleftrightarrow>
     index_ok (st_index st) \<and> readers_ok st \<and> writer_ok st \<and> entries_ok crc st"

lemma entry_holds_value: "entry_holds crc st key e v \<Longrightarrow> entry_value crc st e = Some v"
  using command_deserialize_serialize [of "Command_Set (iv_ts e) key v" crc "[]"]
  by (simp add: entry_holds_def entry_value_def)

lemma store_inv_view:
  assumes "store_inv crc st"
  shows "store_view crc st key = Some v \<longleftrightarrow>
           (\<exists>e. index_lookup (st_index st) key = Some e \<and> entry_holds crc st key e v)"
  using assms entry_holds_value
  by (force simp: store_view_def store_inv_def entries_ok_def bind_eq_Some_conv)

lemma store_view_None_iff:
  assumes "store_inv crc st"
  shows "store_view crc st key = None \<longleftrightarrow> index_lookup (st_index st) key = None"
proof (cases "index_lookup (st_index st) key")
  case None
  then show ?thesis by (simp add: store_view_def)
next
  case (Some e)
  with assms obtain v where "entry_holds crc st key e v"
    by (auto simp: store_inv_def entries_ok_def)
  with Some show ?thesis by (simp add: store_view_def entry_holds_value)
qed

section \<open>States that agree on the data\<close>

text \<open>Everything except durability marks, flush bookkeeping, the compaction signal and the call count.\<close>

definition same_store :: "store \<Rightarrow> store \<Rightarrow> bool" where
  "same_store st st' \<longleftrightarrow>
     st_index st' = st_index st \<and> st_readers st' = st_readers st \<and> st_config st' = st_config st \<and>
     os_dir st' = os_dir st \<and> length (os_inodes st') = length (os_inodes st) \<and>
     file_content st' = file_content st \<and>
     ws_current_file_id (st_writer st') = ws_current_file_id (st_writer st) \<and>
     ws_file (st_writer st') = ws_file (st_writer st) \<and>
     ws_offset (st_writer st') = ws_offset (st_writer st) \<and>
     ws_stale_bytes_count (st_writer st') = ws_stale_bytes_count (st_writer st) \<and>
     st_writer_poisoned st' = st_writer_poisoned st \<and>
     st_tx st' = st_tx st \<and> st_worker st' = st_worker st \<and> st_lock_file st' = st_lock_file st \<and>
     os_faults st' = os_faults st \<and> os_clock st' = os_clock st \<and> os_flocks st' = os_flocks st"

lemma same_store_refl [simp]: "same_store st st"
  by (simp add: same_store_def)

lemma same_store_trans: "same_store a b \<Longrightarrow> same_store b c \<Longrightarrow> same_store a c"
  by (simp add: same_store_def)

lemma same_store_tick [simp]: "same_store st (st\<lparr>os_ticks := n\<rparr>)"
  by (simp add: same_store_def fun_eq_iff)

lemma same_store_entry_bytes: "same_store st st' \<Longrightarrow> entry_bytes st' e = entry_bytes st e"
  by (auto simp: entry_bytes_def same_store_def Let_def split: option.splits)

lemma same_store_inv: "same_store st st' \<Longrightarrow> store_inv crc st' = store_inv crc st"
  using same_store_entry_bytes [of st st']
  by (simp add: store_inv_def readers_ok_def writer_ok_def entries_ok_def entry_holds_def Let_def)
     (simp add: same_store_def)

lemma same_store_view: "same_store st st' \<Longrightarrow> store_view crc st' = store_view crc st"
proof -
  assume same: "same_store st st'"
  then have "entry_value crc st' = entry_value crc st"
    by (simp add: fun_eq_iff entry_value_def same_store_entry_bytes)
  with same show ?thesis by (intro ext) (simp add: store_view_def same_store_def)
qed

lemma content_synced_update: "content (xs[i := (xs ! i)\<lparr>synced := n\<rparr>] ! j) = content (xs ! j)"
  by (cases "i < length xs"; cases "i = j") (simp_all add: list_update_beyond)

lemma shared_sync_same: "shared_sync st = (r, st') \<Longrightarrow> same_store st st'"
  by (auto simp: shared_sync_def sync_all_def syscall_def same_store_def upd_writer_def
      file_content_def content_synced_update fun_eq_iff split: option.splits)

lemma upd_flush_time_same: "same_store st (upd_writer (\<lambda>w. w\<lparr>ws_last_ts_flushed := n\<rparr>) st)"
  by (simp add: same_store_def upd_writer_def file_content_def fun_eq_iff)

lemma unix_now_same: "unix_now st = (r, st') \<Longrightarrow> same_store st st'"
  by (auto simp: unix_now_def clock_now_def split: option.splits)

lemma handle_policy_same:
  assumes "handle_policy st = (r, st')"
  shows "same_store st st'"
proof (cases "cfg_durability_policy (st_config st)")
  case SyncOnInterval
  obtain r1 st1 where now: "unix_now st = (r1, st1)" by fastforce
  obtain r2 st2 where sync: "shared_sync st1 = (r2, st2)" by fastforce
  have "same_store st st1" "same_store st st2"
    using unix_now_same [OF now] shared_sync_same [OF sync] same_store_trans by blast+
  moreover from assms SyncOnInterval now sync
  have "st' = st1 \<or> st' = st2 \<or> (\<exists>n. st' = upd_writer (\<lambda>w. w\<lparr>ws_last_ts_flushed := n\<rparr>) st2)"
    by (cases r1; cases r2) (auto simp: handle_policy_def Let_def split: if_splits)
  ultimately show ?thesis
    using upd_flush_time_same same_store_trans by blast
qed (use assms in \<open>auto simp: handle_policy_def dest: shared_sync_same\<close>)

lemma compaction_trigger_same: "compaction_trigger st = (r, st') \<Longrightarrow> same_store st st'"
  by (auto simp: compaction_trigger_def same_store_def file_content_def split: if_splits)


section \<open>States that only add data\<close>

text \<open>Every reader of the old state is kept and its file only grew.\<close>

definition extends :: "store \<Rightarrow> store \<Rightarrow> bool" where
  "extends st st' \<longleftrightarrow>
     (\<forall>i fd. bt_get (st_readers st) i = Some fd \<longrightarrow>
        bt_get (st_readers st') i = Some fd \<and>
        take (length (file_content st fd)) (file_content st' fd) = file_content st fd)"

lemma extends_entry_bytes:
  assumes ext: "extends st st'" and e: "entry_bytes st e = Some bs"
  shows "entry_bytes st' e = Some bs"
proof -
  define a where "a = unat (iv_offset e)"
  define b where "b = a + unat (iv_len e)"
  from e obtain fd where fd: "bt_get (st_readers st) (iv_file_id e) = Some fd"
    and b: "b \<le> length (file_content st fd)" and bs: "bs = slice_of (file_content st fd) a b"
    by (auto simp: entry_bytes_def Let_def a_def b_def split: option.splits if_splits)
  from ext fd have fd': "bt_get (st_readers st') (iv_file_id e) = Some fd"
    and pre: "take (length (file_content st fd)) (file_content st' fd) = file_content st fd"
    by (auto simp: extends_def)
  from pre have "length (file_content st fd) \<le> length (file_content st' fd)"
    by (metis length_take min.cobounded1)
  moreover have "slice_of (file_content st' fd) a b = bs"
    using pre b bs by (metis slice_take)
  ultimately show ?thesis
    using fd' b by (simp add: entry_bytes_def Let_def a_def b_def)
qed

lemma extends_entry_holds:
  "extends st st' \<Longrightarrow> entry_holds crc st key e v \<Longrightarrow> entry_holds crc st' key e v"
  by (auto simp: entry_holds_def intro: extends_entry_bytes)

lemma extends_view:
  assumes ok: "entries_ok crc st" and ext: "extends st st'" and ix: "st_index st' = st_index st"
  shows "entries_ok crc st' \<and> store_view crc st' = store_view crc st"
proof -
  have e: "\<exists>v. entry_holds crc st' k e v \<and> entry_value crc st e = Some v"
    if "index_lookup (st_index st) k = Some e" for k e
    using that ok extends_entry_holds [OF ext] entry_holds_value
    by (fastforce simp: entries_ok_def)
  then have "entries_ok crc st'" using ix by (fastforce simp: entries_ok_def)
  moreover have "store_view crc st' k = store_view crc st k" for k
    using e [of k] ix entry_holds_value
    by (cases "index_lookup (st_index st) k") (force simp: store_view_def)+
  ultimately show ?thesis by auto
qed

section \<open>Appending a record\<close>

fun view_apply :: "command \<Rightarrow> (bytes \<rightharpoonup> bytes) \<Rightarrow> (bytes \<rightharpoonup> bytes)" where
  "view_apply (Command_Set ts key v) m = m(key \<mapsto> v)"
| "view_apply (Command_Rm ts key) m = m(key := None)"

text \<open>A command the typed interface can produce: it fits its length fields and its value is a string.\<close>

definition command_ok :: "command \<Rightarrow> bool" where
  "command_ok cmd \<longleftrightarrow> command_fits cmd \<and> (\<forall>v. get_value cmd = Some v \<longrightarrow> utf8_valid v)"

definition new_entry :: "store \<Rightarrow> u64 \<Rightarrow> nat \<Rightarrow> index_value" where
  "new_entry st ts len =
     \<lparr>iv_file_id = ws_current_file_id (st_writer st), iv_ts = ts,
      iv_offset = ws_offset (st_writer st), iv_len = of_nat len\<rparr>"

fun index_apply :: "command \<Rightarrow> index_value \<Rightarrow> (bytes \<rightharpoonup> index_value) \<Rightarrow> (bytes \<rightharpoonup> index_value)" where
  "index_apply (Command_Set ts key v) e m = m(key \<mapsto> e)"
| "index_apply (Command_Rm ts key) e m = m(key := None)"

lemma append_index_Inr:
  assumes "append_index cmd (ws_offset (st_writer st)) len st = (Inr u, st')"
    and "index_ok (st_index st)"
  shows "index_ok (st_index st') \<and>
         index_lookup (st_index st') =
           index_apply cmd (new_entry st (get_timestamp cmd) len) (index_lookup (st_index st)) \<and>
         (\<exists>n. st' = st\<lparr>st_index := st_index st',
                     st_writer := (st_writer st)\<lparr>ws_stale_bytes_count := n\<rparr>\<rparr>)"
proof (cases cmd)
  case (Command_Set ts key v)
  with assms show ?thesis
    by (auto simp: res_iffs Let_def upd_writer_def new_entry_def ix.lookup_insert ix.invar_insert
        split: option.splits intro: exI [of _ "ws_stale_bytes_count (st_writer st)"])
next
  case (Command_Rm ts key)
  with assms show ?thesis
    by (auto simp: res_iffs Let_def upd_writer_def ix.lookup_delete ix.invar_delete index_lookup_def
        split: option.splits intro: exI [of _ "ws_stale_bytes_count (st_writer st)"])
qed

text \<open>
  What a successful append has done to the state before the post-write operations run.
\<close>

definition appended :: "(bytes \<Rightarrow> u32) \<Rightarrow> command \<Rightarrow> store \<Rightarrow> store \<Rightarrow> bool" where
  "appended crc cmd st st' \<longleftrightarrow>
     (let w = st_writer st; ser = command_serialize crc cmd in
      st_readers st' = st_readers st \<and> st_config st' = st_config st \<and> os_dir st' = os_dir st \<and>
      st_writer_poisoned st' = st_writer_poisoned st \<and>
      length (os_inodes st') = length (os_inodes st) \<and>
      os_faults st' = os_faults st \<and> os_clock st' = os_clock st \<and>
      ws_current_file_id (st_writer st') = ws_current_file_id w \<and>
      ws_file (st_writer st') = ws_file w \<and>
      ws_offset (st_writer st') = ws_offset w + of_nat (length ser) \<and>
      file_content st' = (file_content st)(ws_file w := file_content st (ws_file w) @ ser) \<and>
      length (file_content st (ws_file w)) + length ser \<le> MAX_FILE_LEN \<and>
      index_ok (st_index st') \<and>
      index_lookup (st_index st') =
        index_apply cmd (new_entry st (get_timestamp cmd) (length ser)) (index_lookup (st_index st)))"

lemma readers_ok_fd: "readers_ok st \<Longrightarrow> bt_get (st_readers st) i = Some fd \<Longrightarrow> fd < length (os_inodes st)"
  by (auto simp: readers_ok_def bt_get_def dest!: map_of_SomeD)

lemma serialize_nonempty: "0 < length (command_serialize crc cmd)"
  by (simp add: HEADER_LEN_def)

lemma append_record_appended:
  assumes inv: "store_inv crc st" and ok: "append_record crc cmd st = (Inr u, st')"
  shows "appended crc cmd st st'"
proof -
  let ?ser = "command_serialize crc cmd" and ?w = "st_writer st"
  from ok obtain st1 st2 where
    w: "write_all (ws_file ?w) ?ser st = (Inr (), st1)"
    and i: "append_index cmd (ws_offset ?w) (length ?ser) st1 = (Inr (), st2)"
    and p: "st' = upd_writer (\<lambda>w. w\<lparr>ws_offset := ws_offset w + of_nat (length ?ser)\<rparr>) st2"
    by (auto simp: append_record_def Let_def res_iffs writer_lock_def split: if_splits)
  from w have st1: "st1 = append_content (ws_file ?w) ?ser (tick st)"
    and room: "length ?ser \<le> MAX_FILE_LEN - length (file_content st (ws_file ?w))"
    by (simp_all add: write_all_Inr_iff)
  have same1: "st_writer st1 = ?w" "st_index st1 = st_index st" "st_readers st1 = st_readers st"
    "st_config st1 = st_config st" "st_writer_poisoned st1 = st_writer_poisoned st"
    by (simp_all add: st1 append_content_def)
  have fd: "ws_file ?w < length (os_inodes st)"
    using inv by (auto simp: store_inv_def writer_ok_def Let_def intro: readers_ok_fd)
  have c1: "file_content st1 = (file_content st)(ws_file ?w := file_content st (ws_file ?w) @ ?ser)"
    using fd by (simp add: st1 fun_eq_iff file_content_append)
  from inv same1 have "index_ok (st_index st1)" by (simp add: store_inv_def)
  from append_index_Inr [OF i [folded same1(1)] this]
  obtain n where ix: "index_ok (st_index st2)" "index_lookup (st_index st2) =
      index_apply cmd (new_entry st1 (get_timestamp cmd) (length ?ser)) (index_lookup (st_index st1))"
    and st2: "st2 = st1\<lparr>st_index := st_index st2,
                     st_writer := (st_writer st1)\<lparr>ws_stale_bytes_count := n\<rparr>\<rparr>"
    by blast
  from inv have "length (file_content st (ws_file ?w)) \<le> MAX_FILE_LEN"
    by (simp add: store_inv_def writer_ok_def Let_def)
  then show ?thesis
    using ix room c1 same1 unfolding p
    by (subst st2) (simp add: appended_def Let_def upd_writer_def new_entry_def st1 file_content_def fun_eq_iff)
qed

lemma appended_extends:
  assumes "appended crc cmd st st'"
  shows "extends st st'"
  using assms by (simp add: appended_def extends_def Let_def)

lemma appended_new_entry:
  assumes inv: "store_inv crc st" and app: "appended crc cmd st st'"
    and ok: "command_ok cmd" and cmd: "cmd = Command_Set ts key v"
  shows "entry_holds crc st' key (new_entry st ts (length (command_serialize crc cmd))) v"
proof -
  let ?ser = "command_serialize crc cmd" and ?w = "st_writer st"
  from inv have "unat (ws_offset ?w) = length (file_content st (ws_file ?w))"
    and "bt_get (st_readers st) (ws_current_file_id ?w) = Some (ws_file ?w)"
    by (simp_all add: store_inv_def writer_ok_def Let_def)
  moreover have "unat (of_nat (length ?ser) :: u64) = length ?ser"
    using app MAX_FILE_LEN_less by (intro unat_u64_of_nat) (simp add: appended_def Let_def)
  ultimately have "entry_bytes st' (new_entry st ts (length ?ser)) = Some ?ser"
    using app by (simp add: appended_def Let_def entry_bytes_def new_entry_def slice_of_def)
  with ok cmd show ?thesis
    by (simp add: entry_holds_def command_ok_def new_entry_def)
qed

lemma appended_entries:
  assumes inv: "store_inv crc st" and app: "appended crc cmd st st'" and ok: "command_ok cmd"
    and k: "index_lookup (st_index st') k = Some e"
  shows "\<exists>v. entry_holds crc st' k e v \<and> view_apply cmd (store_view crc st) k = Some v"
proof -
  have old: "\<exists>v. entry_holds crc st' k e v \<and> store_view crc st k = Some v"
    if "index_lookup (st_index st) k = Some e"
  proof -
    from that inv obtain v where "entry_holds crc st k e v"
      by (auto simp: store_inv_def entries_ok_def)
    with that show ?thesis
      using extends_entry_holds [OF appended_extends [OF app]] entry_holds_value
      by (auto simp: store_view_def)
  qed
  show ?thesis
  proof (cases cmd)
    case (Command_Set ts key v)
    then show ?thesis
      using appended_new_entry [OF inv app ok Command_Set] k old app
      by (cases "k = key") (auto simp: appended_def Let_def)
  next
    case (Command_Rm ts key)
    then show ?thesis
      using k old app by (cases "k = key") (auto simp: appended_def Let_def)
  qed
qed

lemma appended_lookup_None:
  assumes inv: "store_inv crc st" and app: "appended crc cmd st st'"
    and k: "index_lookup (st_index st') k = None"
  shows "view_apply cmd (store_view crc st) k = None"
  using k app by (cases cmd) (auto simp: appended_def Let_def store_view_def split: if_splits)

lemma appended_inv:
  assumes inv: "store_inv crc st" and app: "appended crc cmd st st'" and ok: "command_ok cmd"
  shows "store_inv crc st' \<and> store_view crc st' = view_apply cmd (store_view crc st)"
proof
  let ?len = "length (command_serialize crc cmd)" and ?w = "st_writer st"
  have off: "unat (ws_offset ?w) = length (file_content st (ws_file ?w))"
    using inv by (simp add: store_inv_def writer_ok_def Let_def)
  have total: "length (file_content st (ws_file ?w)) + ?len \<le> MAX_FILE_LEN"
    using app by (simp add: appended_def Let_def)
  then have "unat (ws_offset ?w + of_nat ?len :: u64) = length (file_content st (ws_file ?w)) + ?len"
    using off MAX_FILE_LEN_less by (simp add: unat_word_ariths unat_u64_of_nat)
  with inv app total have "writer_ok st'"
    by (simp add: store_inv_def writer_ok_def appended_def Let_def)
  moreover have "readers_ok st'" "index_ok (st_index st')"
    using inv app by (simp_all add: store_inv_def readers_ok_def appended_def Let_def)
  moreover have "entries_ok crc st'"
    using appended_entries [OF inv app ok] by (auto simp: entries_ok_def)
  ultimately show "store_inv crc st'" by (simp add: store_inv_def)
  show "store_view crc st' = view_apply cmd (store_view crc st)"
  proof
    fix k
    show "store_view crc st' k = view_apply cmd (store_view crc st) k"
      using appended_entries [OF inv app ok, of k] appended_lookup_None [OF inv app, of k]
        entry_holds_value
      by (cases "index_lookup (st_index st') k") (auto simp: store_view_def)
  qed
qed

section \<open>Rotation\<close>

definition rotated :: "u64 \<Rightarrow> store \<Rightarrow> store \<Rightarrow> bool" where
  "rotated next_id st st' \<longleftrightarrow>
     (let fd = length (os_inodes st) in
      st_index st' = st_index st \<and> st_config st' = st_config st \<and>
      st_readers st' = bt_insert next_id fd (st_readers st) \<and>
      st_writer_poisoned st' = st_writer_poisoned st \<and>
      os_dir st' = os_dir st @ [(data_file_name next_id, File_Entry fd)] \<and>
      length (os_inodes st') = Suc (length (os_inodes st)) \<and>
      os_faults st' = os_faults st \<and> os_clock st' = os_clock st \<and>
      (\<forall>i < length (os_inodes st). file_content st' i = file_content st i) \<and>
      file_content st' fd = [] \<and>
      ws_current_file_id (st_writer st') = next_id \<and> ws_file (st_writer st') = fd \<and>
      ws_offset (st_writer st') = 0 \<and>
      ws_stale_bytes_count (st_writer st') = ws_stale_bytes_count (st_writer st))"

lemma rotate_to_rotated:
  assumes ok: "rotate_to next_id st = (Inr u, st')"
    and fresh: "map_of (os_dir st) (data_file_name next_id) = None"
  shows "rotated next_id st st'"
proof -
  from ok obtain st1 where sync: "shared_sync st = (Inr (), st1)"
    by (auto simp: rotate_to_def res_iffs)
  note same = shared_sync_same [OF sync]
  have "map_of (os_dir st1) (data_file_name next_id) = None"
    using same fresh by (simp add: same_store_def)
  with ok sync have "rotated next_id st1 st'"
    by (auto simp: rotate_to_def Let_def open_create_def open_read_def unix_now_def
        res_iffs upd_writer_def readers_update_def rotated_def file_content_def nth_append map_add_def)
  with same show ?thesis by (simp add: rotated_def same_store_def Let_def)
qed

lemma rotated_inv:
  assumes inv: "store_inv crc st" and rot: "rotated next_id st st'"
    and above: "ws_current_file_id (st_writer st) < next_id"
  shows "store_inv crc st' \<and> store_view crc st' = store_view crc st"
proof
  have bt: "bt_ok (st_readers st)" using inv by (simp add: store_inv_def readers_ok_def)
  have fd: "i \<in> fst ` set (st_readers st) \<Longrightarrow> i \<le> ws_current_file_id (st_writer st)" for i
    using inv by (auto simp: store_inv_def writer_ok_def Let_def)
  have not_in: "next_id \<notin> fst ` set (st_readers st)"
    using fd [of next_id] above by (meson leD)
  have new: "bt_get (st_readers st') = (bt_get (st_readers st))(next_id \<mapsto> length (os_inodes st))"
    using bt rot by (simp add: rotated_def Let_def bt_get_insert)
  have ext: "extends st st'"
  proof -
    have "bt_get (st_readers st) next_id = None"
      using not_in by (simp add: bt_get_def map_of_eq_None_iff)
    moreover have "bt_get (st_readers st) i = Some x \<Longrightarrow> x < length (os_inodes st)" for i x
      using inv by (auto simp: store_inv_def intro: readers_ok_fd)
    ultimately show ?thesis
      using rot new by (auto simp: extends_def rotated_def Let_def)
  qed
  have ix: "st_index st' = st_index st" using rot by (simp add: rotated_def Let_def)
  have en: "entries_ok crc st" using inv by (simp add: store_inv_def)
  have "readers_ok st'"
    using inv rot bt_ok_insert [OF bt] set_bt_insert [of next_id "length (os_inodes st)" "st_readers st"]
    by (fastforce simp: store_inv_def readers_ok_def rotated_def Let_def)
  moreover have "writer_ok st'"
  proof -
    have "\<forall>i \<in> fst ` set (st_readers st'). i \<le> next_id"
    proof
      fix i assume "i \<in> fst ` set (st_readers st')"
      then have "i = next_id \<or> i \<in> fst ` set (st_readers st)"
        using rot by (simp add: rotated_def Let_def keys_bt_insert)
      then show "i \<le> next_id" using fd [of i] above by (meson less_imp_le order.trans order.refl)
    qed
    moreover have "map_of (os_dir st') (data_file_name i) = None" if "next_id < i" for i
      using inv rot that above
      by (auto simp: store_inv_def writer_ok_def rotated_def Let_def map_add_def)
    ultimately show ?thesis
      using rot new by (simp add: writer_ok_def rotated_def Let_def)
  qed
  ultimately show "store_inv crc st'"
    using inv ix extends_view [OF en ext ix] by (simp add: store_inv_def)
  show "store_view crc st' = store_view crc st"
    using extends_view [OF en ext ix] by simp
qed

lemma rotate_if_full_inv:
  assumes inv: "store_inv crc st" and ok: "rotate_if_full st = (Inr u, st')"
    and ids: "ws_current_file_id (st_writer st) \<noteq> - 1"
  shows "store_inv crc st' \<and> store_view crc st' = store_view crc st"
proof (cases "ws_offset (st_writer st) < cfg_file_size_threshold (st_config st)")
  case True
  with ok inv show ?thesis by (simp add: rotate_if_full_def)
next
  case False
  let ?cur = "ws_current_file_id (st_writer st)"
  have above: "?cur < ?cur + 1"
    using ids by (rule u64_less_inc)
  have "map_of (os_dir st) (data_file_name (?cur + 1)) = None"
    using inv above by (simp add: store_inv_def writer_ok_def Let_def)
  then have "rotated (?cur + 1) st st'"
    using False ok by (intro rotate_to_rotated [of _ _ u]) (simp_all add: rotate_if_full_def)
  then show ?thesis using inv above by (intro rotated_inv)
qed

lemma post_write_ops_inv:
  assumes inv: "store_inv crc st" and ok: "post_write_ops st = (Inr u, st')"
    and ids: "ws_current_file_id (st_writer st) \<noteq> - 1"
  shows "store_inv crc st' \<and> store_view crc st' = store_view crc st"
proof -
  from ok obtain st1 st2 where t: "compaction_trigger st = (Inr (), st1)"
    and h: "handle_policy st1 = (Inr (), st2)" and r: "rotate_if_full st2 = (Inr u, st')"
    by (auto simp: post_write_ops_def res_iffs)
  have same: "same_store st st2"
    using compaction_trigger_same [OF t] handle_policy_same [OF h] by (rule same_store_trans)
  then have "store_inv crc st2" "store_view crc st2 = store_view crc st"
    and "ws_current_file_id (st_writer st2) \<noteq> - 1"
    using inv ids by (simp_all add: same_store_inv same_store_view) (simp add: same_store_def)
  with rotate_if_full_inv [OF _ r] show ?thesis by simp
qed

section \<open>The operations on the abstract store\<close>

lemma store_append_inv:
  assumes inv: "store_inv crc st" and ok: "store_append crc cmd st = (Inr u, st')"
    and cmd: "command_ok cmd" and ids: "ws_current_file_id (st_writer st) \<noteq> - 1"
  shows "store_inv crc st' \<and> store_view crc st' = view_apply cmd (store_view crc st)"
proof -
  from ok obtain st1 where rec: "append_record crc cmd st = (Inr (), st1)"
    and post: "post_write_ops st1 = (Inr u, st')"
    by (auto simp: store_append_def res_iffs)
  note app = append_record_appended [OF inv rec]
  have "ws_current_file_id (st_writer st1) \<noteq> - 1"
    using app ids by (simp add: appended_def Let_def)
  with appended_inv [OF inv app cmd] post_write_ops_inv [OF _ post] show ?thesis by simp
qed

text \<open>The size limits under which a key and a value can be stored.\<close>

definition pair_fits :: "bytes \<Rightarrow> bytes \<Rightarrow> bool" where
  "pair_fits key value \<longleftrightarrow> 17 + length key + length value < 2 ^ 32"

lemma bitcask_set_inv:
  assumes inv: "store_inv crc st" and ok: "bitcask_set crc key v st = (Inr u, st')"
    and fits: "pair_fits key v" and str: "utf8_valid v"
    and ids: "ws_current_file_id (st_writer st) \<noteq> - 1"
  shows "store_inv crc st' \<and> store_view crc st' = (store_view crc st)(key \<mapsto> v)"
proof -
  from ok obtain ns st1 where now: "unix_now st = (Inr ns, st1)"
    and app: "store_append crc (Command_Set (as_secs ns) key v) st1 = (Inr u, st')"
    by (auto simp: bitcask_set_def res_iffs)
  note same = unix_now_same [OF now]
  have "command_ok (Command_Set (as_secs ns) key v)"
    using fits str by (simp add: command_ok_def command_fits_def pair_fits_def)
  moreover have "store_inv crc st1" "ws_current_file_id (st_writer st1) \<noteq> - 1"
    using same inv ids by (simp_all add: same_store_inv) (simp add: same_store_def)
  ultimately show ?thesis
    using store_append_inv [OF _ app] same_store_view [OF same] by simp
qed

lemma bitcask_remove_absent:
  assumes inv: "store_inv crc st" and np: "no_poison (st_index st)"
    and absent: "store_view crc st key = None"
  shows "bitcask_remove crc key st = (Inl KeyNotFound, st)"
  using assms store_view_None_iff [OF inv, of key]
  by (simp add: bitcask_remove_def access_Inr store_inv_def index_lookup_def)

lemma bitcask_remove_inv:
  assumes inv: "store_inv crc st" and ok: "bitcask_remove crc key st = (Inr u, st')"
    and ids: "ws_current_file_id (st_writer st) \<noteq> - 1"
  shows "store_inv crc st' \<and> store_view crc st' = (store_view crc st)(key := None) \<and>
         store_view crc st key \<noteq> None"
proof -
  from ok obtain ns st1 where present: "index_lookup (st_index st) key \<noteq> None"
    and now: "unix_now st = (Inr ns, st1)"
    and app: "store_append crc (Command_Rm (as_secs ns) key) st1 = (Inr u, st')"
    by (auto simp: bitcask_remove_def res_iffs index_lookup_def split: if_splits)
  note same = unix_now_same [OF now]
  from present obtain e where e: "index_lookup (st_index st) key = Some e" by auto
  moreover from e inv obtain v where "entry_holds crc st key e v"
    by (auto simp: store_inv_def entries_ok_def)
  ultimately have "command_fits (Command_Rm (as_secs ns) key)" and "store_view crc st key \<noteq> None"
    using entry_holds_value by (auto simp: entry_holds_def command_fits_def store_view_def)
  moreover have "store_inv crc st1" "ws_current_file_id (st_writer st1) \<noteq> - 1"
    using same inv ids by (simp_all add: same_store_inv) (simp add: same_store_def)
  ultimately show ?thesis
    using store_append_inv [OF _ app] same_store_view [OF same] by (simp add: command_ok_def)
qed

end
