(* ===== verification/Store_Ops.thy ===== *)
theory Store_Ops
  imports Store_Inv
begin

text \<open>
  Reads of a running store, progress of the operations when the operating system does not fail,
  and the states that failures in the middle of an operation leave behind.
\<close>

section \<open>Reads\<close>

lemma get_attempt_hit:
  assumes inv: "store_inv crc st" and np: "no_poison (st_index st)"
    and v: "store_view crc st key = Some v" and ok: "os_faults st (os_ticks st) = None"
  shows "get_attempt crc key st = Some (Inr (Some v), tick st)"
proof -
  from v inv obtain e where e: "index_lookup (st_index st) key = Some e"
    and h: "entry_holds crc st key e v"
    by (auto simp: store_inv_view)
  let ?cmd = "Command_Set (iv_ts e) key v"
  from h obtain fd where fd: "bt_get (st_readers st) (iv_file_id e) = Some fd"
    and len: "unat (iv_offset e) + unat (iv_len e) \<le> length (file_content st fd)"
    and bs: "slice_of (file_content st fd) (unat (iv_offset e)) (unat (iv_offset e) + unat (iv_len e)) =
      command_serialize crc ?cmd"
    by (auto simp: entry_holds_def entry_bytes_def Let_def split: option.splits if_splits)
  have read: "read_exact_at fd (unat (iv_offset e)) (unat (iv_len e)) st =
      (Inr (command_serialize crc ?cmd), tick st)"
    using ok len bs by (simp add: read_exact_at_def syscall_def)
  have dec: "command_deserialize crc (command_serialize crc ?cmd) =
      Inr (?cmd, length (command_serialize crc ?cmd))"
    using h command_deserialize_serialize [of ?cmd crc "[]"] by (simp add: entry_holds_def)
  have "drop (length (command_serialize crc ?cmd) - length v) (command_serialize crc ?cmd) = v"
    by (simp add: command_serialize_layout record_tail_def record_body_def HEADER_LEN_def drop_Cons')
  then show ?thesis
    using inv np e h fd read dec
    by (simp add: get_attempt_def access_Inr store_inv_def index_lookup_def entry_holds_def from_utf8_valid)
qed

lemma get_attempt_miss:
  assumes inv: "store_inv crc st" and np: "no_poison (st_index st)"
    and v: "store_view crc st key = None"
  shows "get_attempt crc key st = Some (Inr None, st)"
  using assms store_view_None_iff [OF inv, of key]
  by (simp add: get_attempt_def access_Inr store_inv_def index_lookup_def)

lemma bitcask_get_attempt: "get_attempt crc key st = Some r \<Longrightarrow> bitcask_get crc key st = Some r"
  by (subst bitcask_get.simps) simp

text \<open>
  The loop of \<open>get\<close> runs on the same state until an attempt succeeds, so without another thread
  it returns exactly when the first attempt does.
\<close>

lemma bitcask_get_returns:
  assumes "bitcask_get crc key st = Some r"
  shows "get_attempt crc key st = Some r"
proof (rule bitcask_get.raw_induct [where P = "\<lambda>crc key st r. get_attempt crc key st = Some r", OF _ assms])
  fix f :: "(bytes \<Rightarrow> u32) \<Rightarrow> bytes \<Rightarrow> store \<Rightarrow> ((kvs_error + bytes option) \<times> store) option"
    and crc key st r
  assume "\<And>crc key st r. f crc key st = Some r \<Longrightarrow> get_attempt crc key st = Some r"
    and "(case get_attempt crc key st of None \<Rightarrow> f crc key st | Some r \<Rightarrow> Some r) = Some r"
  then show "get_attempt crc key st = Some r"
    by (cases "get_attempt crc key st") auto
qed

lemma bitcask_get_eq_attempt: "bitcask_get crc key st = get_attempt crc key st"
proof (cases "get_attempt crc key st")
  case None
  then show ?thesis using bitcask_get_returns [of crc key st] by (cases "bitcask_get crc key st") auto
next
  case (Some r)
  then show ?thesis by (simp only: bitcask_get_attempt)
qed

lemma bitcask_get_view:
  assumes inv: "store_inv crc st" and np: "no_poison (st_index st)"
    and ok: "os_faults st (os_ticks st) = None"
  shows "\<exists>st'. bitcask_get crc key st = Some (Inr (store_view crc st key), st') \<and> same_store st st'"
  using get_attempt_hit [OF inv np _ ok] get_attempt_miss [OF inv np]
  by (cases "store_view crc st key") (auto simp: bitcask_get_eq_attempt)

section \<open>Progress\<close>

lemma same_store_calm: "same_store st st' \<Longrightarrow> calm st' = calm st"
  by (rule calm_cong) (simp_all add: same_store_def)

lemma calm_shared_sync: "calm st \<Longrightarrow> \<exists>st'. shared_sync st = (Inr (), st')"
  by (simp add: shared_sync_def sync_all_def calm_syscall)

lemma calm_unix_now: "calm st \<Longrightarrow> \<exists>ns. unix_now st = (Inr ns, tick st)"
  unfolding unix_now_def by (rule calm_clock)

lemma calm_handle_policy: "calm st \<Longrightarrow> \<exists>st'. handle_policy st = (Inr (), st')"
proof -
  assume calm: "calm st"
  then obtain ns where now: "unix_now st = (Inr ns, tick st)" using calm_unix_now by blast
  from calm have "calm (tick st)" by (simp add: calm_def)
  then obtain st2 where "shared_sync (tick st) = (Inr (), st2)" using calm_shared_sync by blast
  with now calm_shared_sync [OF calm] show ?thesis
    by (auto simp: handle_policy_def Let_def split: durability_policy.splits)
qed

lemma compaction_trigger_Inr: "\<exists>st'. compaction_trigger st = (Inr (), st')"
  by (simp add: compaction_trigger_def)

lemma calm_rotate_to:
  assumes calm: "calm st" and fresh: "map_of (os_dir st) (data_file_name next_id) = None"
  shows "\<exists>st'. rotate_to next_id st = (Inr (), st')"
proof -
  obtain st1 where sync: "shared_sync st = (Inr (), st1)" using calm_shared_sync [OF calm] by blast
  note same = shared_sync_same [OF sync]
  have c1: "calm st1" using same calm by (simp add: same_store_calm)
  have f1: "map_of (os_dir st1) (data_file_name next_id) = None"
    using same fresh by (simp add: same_store_def)
  obtain ns where ns: "os_clock st1 (Suc (os_ticks st1)) = Some ns"
    using c1 by (auto simp: calm_def)
  show ?thesis
    using sync f1 ns calm_faults [OF c1]
    by (simp add: rotate_to_def Let_def open_create_def open_read_def unix_now_def clock_now_def
        syscall_def upd_writer_def map_add_def)
qed

lemma calm_post_write_ops:
  assumes inv: "store_inv crc st" and calm: "calm st"
    and ids: "ws_current_file_id (st_writer st) \<noteq> - 1"
  shows "\<exists>st'. post_write_ops st = (Inr (), st')"
proof -
  obtain st1 where t: "compaction_trigger st = (Inr (), st1)" using compaction_trigger_Inr by blast
  have c1: "calm st1" using compaction_trigger_same [OF t] calm by (simp add: same_store_calm)
  obtain st2 where h: "handle_policy st1 = (Inr (), st2)" using calm_handle_policy [OF c1] by blast
  have same: "same_store st st2"
    using compaction_trigger_same [OF t] handle_policy_same [OF h] by (rule same_store_trans)
  then have c2: "calm st2" and i2: "store_inv crc st2"
    and ids2: "ws_current_file_id (st_writer st2) \<noteq> - 1"
    using calm inv ids by (simp_all add: same_store_calm same_store_inv) (simp add: same_store_def)
  have "map_of (os_dir st2) (data_file_name (ws_current_file_id (st_writer st2) + 1)) = None"
    using i2 u64_less_inc [OF ids2] by (simp add: store_inv_def writer_ok_def Let_def)
  then have "\<exists>st'. rotate_if_full st2 = (Inr (), st')"
    using calm_rotate_to [OF c2] by (simp add: rotate_if_full_def)
  with t h show ?thesis by (simp add: post_write_ops_def)
qed

text \<open>Nothing in the program's own state stands in the way of a write.\<close>

definition writable :: "nat \<Rightarrow> store \<Rightarrow> bool" where
  "writable n st \<longleftrightarrow>
     \<not> st_writer_poisoned st \<and> no_poison (st_index st) \<and>
     ws_current_file_id (st_writer st) \<noteq> - 1 \<and>
     length (file_content st (ws_file (st_writer st))) + n \<le> MAX_FILE_LEN"

lemma append_index_progress:
  assumes "index_ok (st_index st)" and "no_poison (st_index st)"
  shows "\<exists>st'. append_index cmd off len st = (Inr (), st')"
  using assms by (cases cmd) (auto simp: access_Inr Let_def split: option.splits)

lemma append_record_progress:
  assumes inv: "store_inv crc st" and calm: "calm st"
    and w: "writable (length (command_serialize crc cmd)) st"
  shows "\<exists>st'. append_record crc cmd st = (Inr (), st')"
proof -
  let ?ser = "command_serialize crc cmd" and ?w = "st_writer st"
  let ?st1 = "append_content (ws_file ?w) ?ser (tick st)"
  have "length ?ser \<le> MAX_FILE_LEN - length (file_content st (ws_file ?w))"
    using w unfolding writable_def by linarith
  then have wr: "write_all (ws_file ?w) ?ser st = (Inr (), ?st1)"
    using calm_faults [OF calm] by (simp add: write_all_Inr_iff)
  have "index_ok (st_index ?st1)" "no_poison (st_index ?st1)"
    using inv w by (simp_all add: append_content_def store_inv_def writable_def)
  then obtain st2 where "append_index cmd (ws_offset ?w) (length ?ser) ?st1 = (Inr (), st2)"
    using append_index_progress by blast
  with wr w show ?thesis by (simp add: append_record_def Let_def writer_lock_def writable_def)
qed

lemma store_append_progress:
  assumes inv: "store_inv crc st" and calm: "calm st" and cmd: "command_ok cmd"
    and w: "writable (length (command_serialize crc cmd)) st"
  shows "\<exists>st'. store_append crc cmd st = (Inr (), st')"
proof -
  obtain st1 where rec: "append_record crc cmd st = (Inr (), st1)"
    using append_record_progress [OF inv calm w] by blast
  note app = append_record_appended [OF inv rec]
  have "calm st1" by (subst calm_cong [of _ st]) (use app calm in \<open>simp_all add: appended_def Let_def\<close>)
  moreover have "ws_current_file_id (st_writer st1) \<noteq> - 1"
    using app w by (simp add: appended_def Let_def writable_def)
  ultimately have "\<exists>st'. post_write_ops st1 = (Inr (), st')"
    using appended_inv [OF inv app cmd] calm_post_write_ops by blast
  with rec show ?thesis by (simp add: store_append_def)
qed

lemma bitcask_set_progress:
  assumes inv: "store_inv crc st" and calm: "calm st" and fits: "pair_fits key v"
    and str: "utf8_valid v" and w: "writable (HEADER_LEN + 17 + length key + length v) st"
  shows "\<exists>st'. bitcask_set crc key v st = (Inr (), st')"
proof -
  obtain ns where now: "unix_now st = (Inr ns, tick st)" using calm_unix_now [OF calm] by blast
  note same = unix_now_same [OF now]
  have "command_ok (Command_Set (as_secs ns) key v)"
    using fits str by (simp add: command_ok_def command_fits_def pair_fits_def)
  moreover have "writable (length (command_serialize crc (Command_Set (as_secs ns) key v))) (tick st)"
    using w by (simp add: writable_def)
  moreover have "store_inv crc (tick st)" "calm (tick st)"
    using same inv calm by (simp_all only: same_store_inv same_store_calm)
  ultimately show ?thesis
    using store_append_progress now by (simp add: bitcask_set_def del: tick_def)
qed

lemma bitcask_remove_progress:
  assumes inv: "store_inv crc st" and calm: "calm st" and present: "store_view crc st key \<noteq> None"
    and w: "writable (HEADER_LEN + 13 + length key) st"
  shows "\<exists>st'. bitcask_remove crc key st = (Inr (), st')"
proof -
  obtain ns where now: "unix_now st = (Inr ns, tick st)" using calm_unix_now [OF calm] by blast
  note same = unix_now_same [OF now]
  obtain v where "store_view crc st key = Some v" using present by auto
  then obtain e where e: "index_lookup (st_index st) key = Some e" "entry_holds crc st key e v"
    using store_inv_view [OF inv] by auto
  then have "command_ok (Command_Rm (as_secs ns) key)"
    by (simp add: command_ok_def command_fits_def entry_holds_def)
  moreover have "writable (length (command_serialize crc (Command_Rm (as_secs ns) key))) (tick st)"
    using w by (simp add: writable_def)
  moreover have "store_inv crc (tick st)" "calm (tick st)"
    using same inv calm by (simp_all only: same_store_inv same_store_calm)
  ultimately have "\<exists>st'. store_append crc (Command_Rm (as_secs ns) key) (tick st) = (Inr (), st')"
    using store_append_progress by blast
  with now e w inv show ?thesis
    by (simp add: bitcask_remove_def access_Inr writable_def store_inv_def index_lookup_def del: tick_def)
qed

section \<open>Failing writes\<close>

text \<open>
  What reads rely on: the invariant without the part about the writer. A write that fails keeps it,
  wherever it fails, and its own key holds the old or the new value.
\<close>

definition reads_ok :: "(bytes \<Rightarrow> u32) \<Rightarrow> store \<Rightarrow> bool" where
  "reads_ok crc st \<longleftrightarrow> index_ok (st_index st) \<and> readers_ok st \<and> entries_ok crc st"

lemma store_inv_reads: "store_inv crc st \<Longrightarrow> reads_ok crc st"
  by (simp add: store_inv_def reads_ok_def)

text \<open>The index and the readers as they were; files grew or were added.\<close>

definition data_kept :: "store \<Rightarrow> store \<Rightarrow> bool" where
  "data_kept st st' \<longleftrightarrow>
     st_index st' = st_index st \<and> st_readers st' = st_readers st \<and>
     length (os_inodes st) \<le> length (os_inodes st') \<and>
     (\<forall>fd < length (os_inodes st).
        take (length (file_content st fd)) (file_content st' fd) = file_content st fd)"

lemma data_kept_refl [simp]: "data_kept st st"
  by (simp add: data_kept_def)

lemma data_kept_trans:
  assumes ab: "data_kept a b" and bc: "data_kept b c"
  shows "data_kept a c"
proof -
  have "take (length (file_content a fd)) (file_content c fd) = file_content a fd"
    if fd: "fd < length (os_inodes a)" for fd
  proof -
    have a: "take (length (file_content a fd)) (file_content b fd) = file_content a fd"
      using ab fd by (simp add: data_kept_def)
    then have "length (file_content a fd) \<le> length (file_content b fd)"
      by (metis length_take min.cobounded1)
    moreover have "take (length (file_content b fd)) (file_content c fd) = file_content b fd"
      using ab bc fd by (auto simp: data_kept_def)
    ultimately show ?thesis using a by (metis min.absorb1 take_take)
  qed
  with ab bc show ?thesis by (simp add: data_kept_def)
qed

lemma same_store_kept: "same_store st st' \<Longrightarrow> data_kept st st'"
  by (simp add: same_store_def data_kept_def)

lemma data_kept_reads:
  assumes ok: "reads_ok crc st" and kept: "data_kept st st'"
  shows "reads_ok crc st' \<and> store_view crc st' = store_view crc st"
proof -
  have rd: "readers_ok st" using ok by (simp add: reads_ok_def)
  have "extends st st'"
    using kept readers_ok_fd [OF rd] by (auto simp: extends_def data_kept_def)
  moreover have "readers_ok st'"
    using rd kept by (fastforce simp: readers_ok_def data_kept_def)
  ultimately show ?thesis
    using ok kept extends_view [of crc st st'] by (simp add: reads_ok_def data_kept_def)
qed

lemma append_content_kept: "data_kept st (append_content fd bs (st\<lparr>os_ticks := n\<rparr>))"
proof -
  have "take (length (file_content st i)) (file_content (append_content fd bs (st\<lparr>os_ticks := n\<rparr>)) i) = file_content st i"
    if "i < length (os_inodes st)" for i
    using that
    by (cases "i = fd") (simp_all add: append_content_def file_content_def)
  then show ?thesis by (simp add: data_kept_def) (simp add: append_content_def)
qed

lemma write_all_kept: "write_all fd bs st = (r, st') \<Longrightarrow> data_kept st st'"
  by (auto simp: write_all_def Let_def append_content_kept split: option.splits if_splits)

lemma append_index_Inl: "append_index cmd off len st = (Inl e, st') \<Longrightarrow> st' = st"
  by (cases cmd) (auto simp: res_iffs Let_def split: option.splits)

lemma append_record_kept:
  assumes "append_record crc cmd st = (Inl e, st')"
  shows "data_kept st st'"
  using assms write_all_kept
  by (auto simp: append_record_def writer_lock_def Let_def res_iffs append_content_kept
      split: if_splits dest!: append_index_Inl)

lemma rotate_to_kept:
  assumes "rotate_to n st = (Inl e, st')"
  shows "data_kept st st'"
proof -
  obtain r1 st1 where sync: "shared_sync st = (r1, st1)" by fastforce
  note same = shared_sync_same [OF sync]
  have "data_kept st1 st'"
    using assms sync
    by (cases r1) (auto simp: rotate_to_def Let_def open_create_def open_read_def syscall_def unix_now_def
        clock_now_def upd_writer_def data_kept_def file_content_def nth_append
        split: option.splits dir_entry.splits)
  with same_store_kept [OF same] show ?thesis by (rule data_kept_trans)
qed

lemma post_write_ops_kept:
  assumes "post_write_ops st = (Inl e, st')"
  shows "data_kept st st'"
proof -
  obtain st1 where t: "compaction_trigger st = (Inr (), st1)" using compaction_trigger_Inr by blast
  obtain r2 st2 where h: "handle_policy st1 = (r2, st2)" by fastforce
  have same: "same_store st st2"
    using compaction_trigger_same [OF t] handle_policy_same [OF h] by (rule same_store_trans)
  show ?thesis
  proof (cases r2)
    case (Inl e2)
    with assms t h have "st' = st2" by (simp add: post_write_ops_def)
    with same show ?thesis by (simp add: same_store_kept)
  next
    case (Inr u)
    with assms t h have "rotate_to (ws_current_file_id (st_writer st2) + 1) st2 = (Inl e, st')"
      by (simp add: post_write_ops_def rotate_if_full_def split: if_splits)
    then show ?thesis using same_store_kept [OF same] rotate_to_kept data_kept_trans by blast
  qed
qed

lemma store_append_failure:
  assumes inv: "store_inv crc st" and cmd: "command_ok cmd"
    and err: "store_append crc cmd st = (Inl e, st')"
  shows "reads_ok crc st' \<and>
         (store_view crc st' = store_view crc st \<or>
          store_view crc st' = view_apply cmd (store_view crc st))"
proof (cases "fst (append_record crc cmd st)")
  case (Inl e1)
  with err have "append_record crc cmd st = (Inl e, st')"
    by (cases "append_record crc cmd st") (simp add: store_append_def)
  then show ?thesis
    using data_kept_reads [OF store_inv_reads [OF inv]] append_record_kept by blast
next
  case (Inr u)
  then obtain st1 where rec: "append_record crc cmd st = (Inr (), st1)"
    by (cases "append_record crc cmd st") simp
  note app = appended_inv [OF inv append_record_appended [OF inv rec] cmd]
  have "data_kept st1 st'"
    using err rec by (intro post_write_ops_kept) (simp add: store_append_def)
  then show ?thesis
    using app data_kept_reads [OF store_inv_reads] by metis
qed

lemma bitcask_set_failure:
  assumes inv: "store_inv crc st" and fits: "pair_fits key v" and str: "utf8_valid v"
    and err: "bitcask_set crc key v st = (Inl e, st')"
  shows "reads_ok crc st' \<and>
         (store_view crc st' = store_view crc st \<or>
          store_view crc st' = (store_view crc st)(key \<mapsto> v))"
proof -
  obtain r1 st1 where now: "unix_now st = (r1, st1)" by fastforce
  note same = unix_now_same [OF now]
  have inv1: "store_inv crc st1" and view1: "store_view crc st1 = store_view crc st"
    using same inv by (simp_all add: same_store_inv same_store_view)
  show ?thesis
  proof (cases r1)
    case (Inl e1)
    with err now have "st' = st1" by (simp add: bitcask_set_def)
    with inv1 view1 show ?thesis by (simp add: store_inv_reads)
  next
    case (Inr ns)
    let ?cmd = "Command_Set (as_secs ns) key v"
    have "command_ok ?cmd"
      using fits str by (simp add: command_ok_def command_fits_def pair_fits_def)
    moreover have "store_append crc ?cmd st1 = (Inl e, st')"
      using err now Inr by (simp add: bitcask_set_def)
    ultimately show ?thesis using store_append_failure [OF inv1] view1 by fastforce
  qed
qed

section \<open>The steps of a write\<close>

lemma append_record_no_poison:
  assumes "append_record crc cmd st = (Inr u, st')"
  shows "no_poison (st_index st') = no_poison (st_index st)"
proof -
  have "no_poison (st_index s') = no_poison (st_index s)"
    if "append_index cmd off len s = (Inr u', s')" for off len s s' u'
    using that by (cases cmd) (auto simp: res_iffs Let_def upd_writer_def split: option.splits)
  with assms show ?thesis
    by (auto simp: append_record_def Let_def res_iffs writer_lock_def upd_writer_def append_content_def
        split: if_splits)
qed

lemma post_write_ops_steps:
  assumes inv: "store_inv crc st" and ids: "ws_current_file_id (st_writer st) \<noteq> - 1"
    and ok: "post_write_ops st = (Inr u, st')"
  obtains st1 where "same_store st st1" "st' = st1"
    | st1 where "same_store st st1" "rotated (ws_current_file_id (st_writer st) + 1) st1 st'"
proof -
  from ok obtain st1 st2 where t: "compaction_trigger st = (Inr (), st1)"
    and h: "handle_policy st1 = (Inr (), st2)" and r: "rotate_if_full st2 = (Inr u, st')"
    by (auto simp: post_write_ops_def res_iffs)
  have same: "same_store st st2"
    using compaction_trigger_same [OF t] handle_policy_same [OF h] by (rule same_store_trans)
  then have id2: "ws_current_file_id (st_writer st2) = ws_current_file_id (st_writer st)"
    by (simp add: same_store_def)
  have "map_of (os_dir st2) (data_file_name (ws_current_file_id (st_writer st) + 1)) = None"
    using inv same u64_less_inc [OF ids]
    by (simp add: store_inv_def writer_ok_def Let_def same_store_def)
  with r id2 same that rotate_to_rotated show ?thesis
    by (fastforce simp: rotate_if_full_def split: if_splits)
qed

end
