(* ===== verification/Bitcask_Correct.thy ===== *)
theory Bitcask_Correct
  imports Store_Ops
begin

text \<open>
  The correctness of \<open>set\<close>, \<open>get\<close> and \<open>remove\<close> of a running Bitcask store: they are the update,
  the lookup and the deletion on the finite map \<open>store_view\<close>, and they return when the operating
  system does not fail. The last part shows what two failures in the middle of a write lead to.
\<close>

section \<open>A store on an empty directory\<close>

text \<open>A store with one empty data file, the environment of which is given by a clock and the faults.\<close>

definition new_store ::
  "(nat \<Rightarrow> nat option) \<Rightarrow> (nat \<Rightarrow> (nat \<times> io_error) option) \<Rightarrow> config \<Rightarrow> store" where
  "new_store clock faults cfg =
     \<lparr>os_dir = [(LOCK_FILE_NAME, File_Entry 0), (data_file_name 1, File_Entry 1)],
      os_inodes = [\<lparr>content = to_bytes ''bitcask'', synced = 7\<rparr>, \<lparr>content = [], synced = 0\<rparr>],
      os_flocks = [0], os_clock = clock, os_faults = faults, os_ticks = 0,
      st_index = index_from buckets_empty, st_readers = [(1, 1)],
      st_writer = \<lparr>ws_current_file_id = 1, ws_file = 1, ws_offset = 0, ws_flushed_offset = 0,
                   ws_last_ts_flushed = 0, ws_stale_bytes_count = 0\<rparr>,
      st_writer_poisoned = False, st_config = cfg, st_lock_file = 0,
      st_tx = True, st_worker = True, st_signal = False\<rparr>"

definition calm_store :: store where
  "calm_store = new_store (\<lambda>_. Some 0) (\<lambda>_. None) (config_new ''/data'' StoreType_Bitcask)"

text \<open>A checksum for concrete runs.\<close>

definition sum_crc :: "bytes \<Rightarrow> u32" where
  "sum_crc bs = foldl (\<lambda>h b. h * 31 + ucast b) 7 bs"

lemma lock_file_name_data [simp]:
  "LOCK_FILE_NAME \<noteq> data_file_name i" "data_file_name i \<noteq> LOCK_FILE_NAME"
proof -
  have "get_file_id LOCK_FILE_NAME = None" by (simp add: LOCK_FILE_NAME_def get_file_id_def strip_suffix_def ends_with_def)
  then show "LOCK_FILE_NAME \<noteq> data_file_name i" "data_file_name i \<noteq> LOCK_FILE_NAME"
    using get_file_id_data [of i] by (metis option.distinct(1))+
qed

lemma new_store_inv: "store_inv crc (new_store clock faults cfg)"
proof -
  let ?st = "new_store clock faults cfg"
  have ix: "index_lookup (st_index ?st) = Map.empty"
    by (simp add: new_store_def index_lookup_from)
  then have "entries_ok crc ?st" by (simp add: entries_ok_def)
  moreover have "writer_ok ?st"
    by (auto simp: writer_ok_def new_store_def bt_get_def file_content_def)
  ultimately show ?thesis
    by (simp add: store_inv_def readers_ok_def new_store_def bt_ok_def)
qed

lemma new_store_view: "store_view crc (new_store clock faults cfg) = Map.empty"
  by (simp add: fun_eq_iff store_view_def new_store_def index_lookup_from)

lemma calm_store_facts:
  "store_inv crc calm_store" "store_view crc calm_store = Map.empty" "calm calm_store"
  "no_poison (st_index calm_store)"
  "n \<le> MAX_FILE_LEN \<Longrightarrow> writable n calm_store"
  "ws_current_file_id (st_writer calm_store) \<noteq> - 1"
  unfolding calm_store_def new_store_view
  by (simp_all add: new_store_inv)
     (simp_all add: new_store_def calm_def writable_def file_content_def)

section \<open>The operations refine the finite map\<close>

text \<open>
  C1. A \<open>set\<close> that returns \<open>Ok\<close> keeps the store invariant and is the update of the key on the
  abstract store: every other key keeps its value. The hypotheses bound the key and the value to
  what the 32-bit length fields hold, and say that the 64-bit file ids are not used up.
\<close>

theorem set_refines:
  assumes "store_inv crc st" and "pair_fits key v" and "utf8_valid v"
    and "ws_current_file_id (st_writer st) \<noteq> - 1"
    and "bitcask_set crc key v st = (Inr (), st')"
  shows "store_inv crc st' \<and> store_view crc st' = (store_view crc st)(key \<mapsto> v)"
  using assms bitcask_set_inv by blast

lemma small_pair: "pair_fits [107] [118]" "utf8_valid [118 :: byte]"
  by (simp add: pair_fits_def) (rule utf8_valid_ascii, simp)

lemma calm_store_set: "\<exists>st'. bitcask_set crc [107] [118] calm_store = (Inr (), st')"
  using calm_store_facts
  by (intro bitcask_set_progress small_pair) (simp_all add: HEADER_LEN_def MAX_FILE_LEN_def)

theorem set_refines_witness:
  "\<exists>st'. bitcask_set sum_crc [107] [118] calm_store = (Inr (), st') \<and> store_inv sum_crc st' \<and>
         store_view sum_crc st' = [[107] \<mapsto> [118]]"
proof -
  obtain st' where ok: "bitcask_set sum_crc [107] [118] calm_store = (Inr (), st')"
    using calm_store_set by blast
  have "store_inv sum_crc st' \<and> store_view sum_crc st' = (store_view sum_crc calm_store)([107] \<mapsto> [118])"
    by (rule set_refines [OF calm_store_facts(1) small_pair calm_store_facts(6) ok])
  with ok show ?thesis using calm_store_facts(2) by auto
qed

text \<open>
  C2. \<open>get\<close> returns, and it returns what the abstract store has for the key: the value, or \<open>None\<close>
  for an absent key. It changes nothing but the number of calls made. The hypotheses are that the
  bucket locks are not poisoned and that the one read of the data file does not fail.
\<close>

theorem get_refines:
  assumes "store_inv crc st" and "no_poison (st_index st)" and "os_faults st (os_ticks st) = None"
  shows "\<exists>st'. bitcask_get crc key st = Some (Inr (store_view crc st key), st') \<and> same_store st st'"
  using assms by (rule bitcask_get_view)

text \<open>
  C3. \<open>remove\<close> of an absent key is \<open>KeyNotFound\<close> and leaves the state as it was; a \<open>remove\<close> that
  returns \<open>Ok\<close> had a value to remove, keeps the invariant and is the deletion of the key on the
  abstract store.
\<close>

theorem remove_refines:
  assumes "store_inv crc st" and "no_poison (st_index st)"
    and "ws_current_file_id (st_writer st) \<noteq> - 1"
  shows "(store_view crc st key = None \<longrightarrow> bitcask_remove crc key st = (Inl KeyNotFound, st)) \<and>
         (\<forall>st'. bitcask_remove crc key st = (Inr (), st') \<longrightarrow>
            store_view crc st key \<noteq> None \<and> store_inv crc st' \<and>
            store_view crc st' = (store_view crc st)(key := None))"
  using assms bitcask_remove_absent bitcask_remove_inv by blast

text \<open>
  C8. Writes make progress: without I/O errors, with an unpoisoned store and room in the active
  file, \<open>set\<close> returns \<open>Ok\<close>, and so does \<open>remove\<close> of a key that has a value.
\<close>

theorem writes_succeed:
  assumes "store_inv crc st" and "calm st"
    and "pair_fits key v" and "utf8_valid v"
    and "writable (HEADER_LEN + 17 + length key + length v) st"
  shows "(\<exists>st'. bitcask_set crc key v st = (Inr (), st')) \<and>
         (store_view crc st key \<noteq> None \<longrightarrow> (\<exists>st'. bitcask_remove crc key st = (Inr (), st')))"
proof -
  have "writable (HEADER_LEN + 13 + length key) st" using assms(5) by (simp add: writable_def)
  with assms show ?thesis using bitcask_set_progress bitcask_remove_progress by blast
qed

theorem writes_succeed_witness:
  "\<exists>st'. bitcask_set sum_crc [107] [118] calm_store = (Inr (), st')"
  using writes_succeed [OF calm_store_facts(1,3) small_pair, of sum_crc] calm_store_facts(5)
  by (simp add: HEADER_LEN_def MAX_FILE_LEN_def)

text \<open>
  C11. A \<open>set\<close> that returns an error, wherever it failed, loses no data: what reads rely on still
  holds, and the abstract store is the old one or the one with the key set.
\<close>

theorem set_failure_keeps_data:
  assumes "store_inv crc st" and "pair_fits key v" and "utf8_valid v"
    and "bitcask_set crc key v st = (Inl e, st')"
  shows "reads_ok crc st' \<and>
         (store_view crc st' = store_view crc st \<or>
          store_view crc st' = (store_view crc st)(key \<mapsto> v))"
  using assms by (rule bitcask_set_failure)

definition full_disk_store :: store where
  "full_disk_store =
     new_store (\<lambda>_. Some 0) (\<lambda>n. if n = 1 then Some (1, Io_Error StorageFull ''disk full'') else None)
       (config_new ''/data'' StoreType_Bitcask)"

lemma full_disk_set:
  "\<exists>st'. bitcask_set crc key v full_disk_store =
     (Inl (Io (Io_Error StorageFull ''disk full'')), st')"
  by (simp add: full_disk_store_def new_store_def bitcask_set_def unix_now_def clock_now_def
      store_append_def append_record_def writer_lock_def write_all_def Let_def)

theorem set_failure_keeps_data_witness:
  "\<exists>e st'. bitcask_set sum_crc [107] [118] full_disk_store = (Inl e, st') \<and> reads_ok sum_crc st'"
proof -
  have "store_inv sum_crc full_disk_store" by (simp add: full_disk_store_def new_store_inv)
  then show ?thesis
    using set_failure_keeps_data [OF _ small_pair] full_disk_set [of sum_crc "[107]" "[118]"] by blast
qed

section \<open>Failures that later writes inherit\<close>

lemma append_record_steps:
  assumes "append_record crc cmd st = (Inr u, st')"
  obtains st2 where
    "append_index cmd (ws_offset (st_writer st)) (length (command_serialize crc cmd))
       (append_content (ws_file (st_writer st)) (command_serialize crc cmd) (tick st)) = (Inr (), st2)"
    and "st' = upd_writer (\<lambda>w. w\<lparr>ws_offset := ws_offset w + of_nat (length (command_serialize crc cmd))\<rparr>) st2"
    and "length (command_serialize crc cmd) \<le> MAX_FILE_LEN"
  using assms by (auto simp: append_record_def writer_lock_def Let_def res_iffs split: if_splits)

lemma append_record_set_effect:
  assumes ok: "append_record crc (Command_Set ts key v) st = (Inr u, st')"
    and ix: "index_ok (st_index st)" and fd: "ws_file (st_writer st) < length (os_inodes st)"
  shows "st_readers st' = st_readers st \<and>
         \<not> rw_poisoned (st_index st' ! get_bucket key) \<and>
         index_lookup (st_index st') key =
           Some (new_entry st ts (length (command_serialize crc (Command_Set ts key v)))) \<and>
         file_content st' (ws_file (st_writer st)) =
           file_content st (ws_file (st_writer st)) @ command_serialize crc (Command_Set ts key v)"
proof -
  let ?ser = "command_serialize crc (Command_Set ts key v)" and ?fd = "ws_file (st_writer st)"
  have b: "get_bucket key < length (st_index st)"
    using ix get_bucket_less by (simp add: index_ok_def)
  obtain st2 where
    i: "append_index (Command_Set ts key v) (ws_offset (st_writer st)) (length ?ser)
          (append_content ?fd ?ser (tick st)) = (Inr (), st2)"
    and st': "st' = upd_writer (\<lambda>w. w\<lparr>ws_offset := ws_offset w + of_nat (length ?ser)\<rparr>) st2"
    using append_record_steps [OF ok] by blast
  have c: "file_content (append_content ?fd ?ser (tick st)) ?fd = file_content st ?fd @ ?ser"
    using fd by (simp add: file_content_append)
  show ?thesis
    using i c b unfolding st'
    by (auto simp: Let_def res_iffs upd_writer_def append_content_def index_lookup_def index_insert_def
        write_back_def new_entry_def file_content_def split: option.splits)
qed

text \<open>
  \<open>append\<close> does not put the writer's offset back to the end of the file, nor the file back to the
  offset, when \<open>write_all\<close> fails after some bytes.

  C12. If the write of one record stops after \<open>n\<close> bytes, the next \<open>set\<close> that succeeds indexes its key
  at the position where those bytes start: what its entry points at is the torn prefix followed by
  the beginning of its own record. In the run of the witness \<open>get\<close> of a key that was set with
  success returns an error.
\<close>

theorem torn_write_misplaces_next_record:
  assumes "store_inv crc st" and "\<not> st_writer_poisoned st"
    and "os_faults st (os_ticks st) = Some (n, e)"
    and "append_record crc cmd st = (r, st1)"
    and "append_record crc (Command_Set ts key v) st1 = (Inr (), st2)"
  shows "r = Inl (Io e) \<and>
         (\<exists>entry. index_lookup (st_index st2) key = Some entry \<and>
            entry_bytes st2 entry =
              Some (let ser = command_serialize crc (Command_Set ts key v)
                    in take (length ser) (take n (command_serialize crc cmd) @ ser)))"
proof -
  let ?w = "st_writer st" and ?torn = "take n (command_serialize crc cmd)"
  let ?ser = "command_serialize crc (Command_Set ts key v)"
  have wr: "bt_get (st_readers st) (ws_current_file_id ?w) = Some (ws_file ?w)"
    "unat (ws_offset ?w) = length (file_content st (ws_file ?w))"
    and fd: "ws_file ?w < length (os_inodes st)"
    using assms(1) by (auto simp: store_inv_def writer_ok_def Let_def intro: readers_ok_fd)
  have st1: "r = Inl (Io e)" "st1 = append_content (ws_file ?w) ?torn (tick st)"
    using assms(2-4) by (auto simp: append_record_def writer_lock_def write_all_def Let_def)
  then have same: "st_writer st1 = ?w" "st_index st1 = st_index st" "st_readers st1 = st_readers st"
    by (simp_all add: append_content_def)
  have c1: "file_content st1 (ws_file ?w) = file_content st (ws_file ?w) @ ?torn"
    using fd by (simp add: st1 file_content_append)
  have "length ?ser < 2 ^ 64"
    using append_record_steps [OF assms(5)] MAX_FILE_LEN_less by (metis le_less_trans)
  then have len: "unat (of_nat (length ?ser) :: u64) = length ?ser" by (rule unat_u64_of_nat)
  have ix1: "index_ok (st_index st1)" and fd1: "ws_file (st_writer st1) < length (os_inodes st1)"
    using assms(1) fd same by (simp_all add: store_inv_def st1)
  note eff = append_record_set_effect [OF assms(5) ix1 fd1]
  then show ?thesis
    using wr len c1 same st1(1)
    by (simp add: entry_bytes_def new_entry_def Let_def slice_of_def)
qed

definition torn_store :: store where
  "torn_store =
     new_store (\<lambda>_. Some 0) (\<lambda>n. if n = 0 then Some (1, Io_Error StorageFull ''disk full'') else None)
       (config_new ''/data'' StoreType_Bitcask)"

lemma torn_store_run:
  "let run1 = append_record (\<lambda>_. 0) (Command_Set 0 [107] [118]) torn_store;
       run2 = append_record (\<lambda>_. 0) (Command_Set 0 [] []) (snd run1)
   in fst run1 = Inl (Io (Io_Error StorageFull ''disk full'')) \<and> fst run2 = Inr () \<and>
      map_option fst (get_attempt (\<lambda>_. 0) [] (snd run2)) =
        Some (Inl (Io (Io_Error UnexpectedEof ''incomplete command'')))"
  by code_simp

theorem torn_write_misplaces_next_record_witness:
  "\<exists>st1 st2 entry.
     append_record (\<lambda>_. 0) (Command_Set 0 [107] [118]) torn_store =
       (Inl (Io (Io_Error StorageFull ''disk full'')), st1) \<and>
     append_record (\<lambda>_. 0) (Command_Set 0 [] []) st1 = (Inr (), st2) \<and>
     index_lookup (st_index st2) [] = Some entry \<and>
     entry_bytes st2 entry \<noteq> Some (command_serialize (\<lambda>_. 0) (Command_Set 0 [] [])) \<and>
     map_option fst (bitcask_get (\<lambda>_. 0) [] st2) =
       Some (Inl (Io (Io_Error UnexpectedEof ''incomplete command'')))"
proof -
  let ?crc = "\<lambda>_ :: bytes. 0 :: u32"
  obtain st1 where r1: "append_record ?crc (Command_Set 0 [107] [118]) torn_store =
      (Inl (Io (Io_Error StorageFull ''disk full'')), st1)"
    using torn_store_run by (metis prod.collapse)
  then obtain st2 where r2: "append_record ?crc (Command_Set 0 [] []) st1 = (Inr (), st2)"
    using torn_store_run by (metis prod.collapse snd_conv)
  have get: "map_option fst (bitcask_get ?crc [] st2) =
       Some (Inl (Io (Io_Error UnexpectedEof ''incomplete command'')))"
    using torn_store_run r1 r2 by (simp add: Let_def bitcask_get_eq_attempt)
  have inv: "store_inv ?crc torn_store" "\<not> st_writer_poisoned torn_store"
    "os_faults torn_store (os_ticks torn_store) = Some (1, Io_Error StorageFull ''disk full'')"
    by (simp_all add: torn_store_def new_store_inv) (simp_all add: new_store_def)
  have bytes: "(let ser = command_serialize ?crc (Command_Set 0 [] [])
      in take (length ser) (take 1 (command_serialize ?crc (Command_Set 0 [107] [118])) @ ser)) \<noteq>
      command_serialize ?crc (Command_Set 0 [] [])"
    by code_simp
  from torn_write_misplaces_next_record [OF inv r1 r2] bytes r1 r2 get show ?thesis by auto
qed

text \<open>
  \<open>rotate_to\<close> switches the writer to the new file before the file has a reader.

  C13. If a rotation fails after it has switched the writer, a \<open>set\<close> that succeeds afterwards makes
  \<open>get\<close> of its key loop forever: the index names a file that no reader has.
\<close>

theorem failed_rotation_blocks_get:
  assumes "store_inv crc st" and "ws_current_file_id (st_writer st) < next_id"
    and "rotate_to next_id st = (Inl e, st1)"
    and "ws_current_file_id (st_writer st1) = next_id"
    and "ws_file (st_writer st1) < length (os_inodes st1)"
    and "append_record crc (Command_Set ts key v) st1 = (Inr (), st2)"
  shows "bitcask_get crc key st2 = None"
proof -
  have kept: "st_readers st1 = st_readers st" "st_index st1 = st_index st"
    using rotate_to_kept [OF assms(3)] by (simp_all add: data_kept_def)
  have "next_id \<notin> fst ` set (st_readers st)"
    using assms(1,2) by (auto simp: store_inv_def writer_ok_def Let_def dest: leD)
  then have none: "bt_get (st_readers st) next_id = None"
    by (simp add: bt_get_def map_of_eq_None_iff)
  have ix1: "index_ok (st_index st1)" using assms(1) kept by (simp add: store_inv_def)
  show ?thesis
    using append_record_set_effect [OF assms(6) ix1 assms(5)] none kept assms(4)
    by (simp add: bitcask_get_eq_attempt get_attempt_def read_access_def Let_def index_lookup_def new_entry_def)
qed

definition unopened_store :: store where
  "unopened_store =
     new_store (\<lambda>_. Some 0)
       (\<lambda>n. if n = 3 then Some (0, Io_Error OtherKind ''too many open files'') else None)
       (config_new ''/data'' StoreType_Bitcask)"

lemma unopened_store_run:
  "let run1 = rotate_to 2 unopened_store;
       run2 = append_record (\<lambda>_. 0) (Command_Set 0 [] []) (snd run1)
   in fst run1 = Inl (Io (Io_Error OtherKind ''too many open files'')) \<and>
      ws_current_file_id (st_writer (snd run1)) = 2 \<and>
      ws_file (st_writer (snd run1)) < length (os_inodes (snd run1)) \<and> fst run2 = Inr ()"
  by code_simp

theorem failed_rotation_blocks_get_witness:
  "\<exists>st1 st2. rotate_to 2 unopened_store = (Inl (Io (Io_Error OtherKind ''too many open files'')), st1) \<and>
     append_record (\<lambda>_. 0) (Command_Set 0 [] []) st1 = (Inr (), st2) \<and>
     bitcask_get (\<lambda>_. 0) [] st2 = None"
proof -
  let ?crc = "\<lambda>_ :: bytes. 0 :: u32"
  obtain st1 where r1: "rotate_to 2 unopened_store =
      (Inl (Io (Io_Error OtherKind ''too many open files'')), st1)"
    using unopened_store_run by (metis prod.collapse)
  then obtain st2 where r2: "append_record ?crc (Command_Set 0 [] []) st1 = (Inr (), st2)"
    using unopened_store_run by (metis prod.collapse snd_conv)
  have "store_inv ?crc unopened_store" "ws_current_file_id (st_writer unopened_store) < 2"
    by (simp_all add: unopened_store_def new_store_inv) (simp add: new_store_def)
  moreover have "ws_current_file_id (st_writer st1) = 2"
    "ws_file (st_writer st1) < length (os_inodes st1)"
    using unopened_store_run r1 by (simp_all add: Let_def)
  ultimately have "bitcask_get ?crc [] st2 = None"
    using failed_rotation_blocks_get [OF _ _ r1 _ _ r2] by simp
  with r1 r2 show ?thesis by blast
qed

end
