(* ===== verification/Loader.thy ===== *)
theory Loader
  imports Store
begin

text \<open>
  Opening a store: the \<open>Loader\<close> and \<open>KvStore::open\<close> of \<open>src/src/storage/bitcask.rs\<close>. The
  directory is scanned, leftovers of an interrupted compaction are removed, the file with the
  highest id becomes the active one, and the index is rebuilt by replaying the data files, or
  their hint files where there are any, in the order of their ids.
\<close>

record loader =
  ld_readers :: "(u64 \<times> nat) list"
  ld_index :: "hash_map list"
  ld_writer :: writer_state

definition ld_upd_writer :: "(writer_state \<Rightarrow> writer_state) \<Rightarrow> loader \<Rightarrow> loader" where
  "ld_upd_writer f ld = ld\<lparr>ld_writer := f (ld_writer ld)\<rparr>"

section \<open>Replay\<close>

text \<open>
  The loop over a hint file: True when the whole file was processed, False when it is damaged. The
  entries inserted before the damage was found stay in the index.
\<close>

function hint_loop ::
  "(bytes \<Rightarrow> u32) \<Rightarrow> u64 \<Rightarrow> record_reader \<Rightarrow> hash_map list \<Rightarrow> (kvs_error + bool) \<times> hash_map list" where
  "hint_loop crc file_id rr idx =
     (case next_record rr of
        (Inl e, rr) \<Rightarrow> (Inl e, idx)
      | (Inr (Record position bs), rr) \<Rightarrow>
          (case iv_deserialize crc bs file_id of
             Inr (key, v, _) \<Rightarrow> hint_loop crc file_id rr (buckets_insert key v idx)
           | Inl _ \<Rightarrow> (Inr False, idx))
      | (Inr CleanEof, rr) \<Rightarrow> (Inr True, idx)
      | (Inr (TornTail position), rr) \<Rightarrow> (Inr False, idx))"
  by pat_completeness auto
termination
  by (relation "measure (\<lambda>(_, _, rr, _). length (src_bytes (rr_reader rr)))")
     (auto dest: next_record_consumes [OF sym])

declare hint_loop.simps [simp del]

text \<open>One record of a data file.\<close>

fun replay_command :: "u64 \<Rightarrow> u64 \<Rightarrow> nat \<Rightarrow> command \<Rightarrow> loader \<Rightarrow> loader" where
  "replay_command file_id position len (Command_Set ts key value) ld =
     (let v = \<lparr>iv_file_id = file_id, iv_ts = ts, iv_offset = position, iv_len = of_nat len\<rparr>;
          ld = ld\<lparr>ld_index := buckets_insert key v (ld_index ld)\<rparr>
      in ld_upd_writer (\<lambda>w. w\<lparr>ws_offset := ws_offset w + of_nat len\<rparr>) ld)"
| "replay_command file_id position len (Command_Rm ts key) ld =
     (let ld = ld_upd_writer (\<lambda>w. w\<lparr>ws_stale_bytes_count := ws_stale_bytes_count w + of_nat len\<rparr>) ld;
          ld = ld\<lparr>ld_index := buckets_remove key (ld_index ld)\<rparr>
      in ld_upd_writer (\<lambda>w. w\<lparr>ws_offset := ws_offset w + of_nat len\<rparr>) ld)"

text \<open>
  The loop over a data file. It ends at the end of the file (True: go on with the next file), or at
  a torn tail, where \<open>replay\<close> returns (False): the active file is cut there, any other file is
  corrupt.
\<close>

function data_loop ::
  "(bytes \<Rightarrow> u32) \<Rightarrow> u64 \<Rightarrow> record_reader \<Rightarrow> loader \<Rightarrow> 'a os_scheme \<Rightarrow>
   (kvs_error + bool \<times> loader) \<times> 'a os_scheme" where
  "data_loop crc file_id rr ld st =
     (case next_record rr of
        (Inl e, rr) \<Rightarrow> (Inl e, st)
      | (Inr (Record position bs), rr) \<Rightarrow>
          (case command_deserialize crc bs of
             Inl e \<Rightarrow> (Inl e, st)
           | Inr (deserialized, _) \<Rightarrow>
               data_loop crc file_id rr (replay_command file_id position (length bs) deserialized ld) st)
      | (Inr CleanEof, rr) \<Rightarrow> (Inr (True, ld), st)
      | (Inr (TornTail position), rr) \<Rightarrow>
          (if file_id = ws_current_file_id (ld_writer ld)
           then
             st_bind (set_len (ws_file (ld_writer ld)) (unat position) st) (\<lambda>_ st.
             (Inr (False, ld_upd_writer (\<lambda>w. w\<lparr>ws_offset := position\<rparr>) ld), st))
           else (Inl Corruption, st)))"
  by pat_completeness auto
termination
  by (relation "measure (\<lambda>(_, _, rr, _, _). length (src_bytes (rr_reader rr)))")
     (auto dest: next_record_consumes [OF sym])

declare data_loop.simps [simp del]

text \<open>
  The part of \<open>replay\<close> for one hint file: True when the file was loaded from its hint.
\<close>

definition replay_hint ::
  "(bytes \<Rightarrow> u32) \<Rightarrow> u64 \<Rightarrow> loader \<Rightarrow> 'a os_scheme \<Rightarrow> (kvs_error + bool \<times> loader) \<times> 'a os_scheme" where
  "replay_hint crc file_id ld st =
     (let hint_file_path = hint_file_name file_id in
      st_bind (open_read hint_file_path st) (\<lambda>hint_file st.
      st_bind (metadata_len hint_file st) (\<lambda>hint_file_len st.
      let (hint_reader, st) = buf_reader hint_file st;
          (r, idx) = hint_loop crc file_id (record_reader_new hint_reader hint_file_len) (ld_index ld)
      in
      st_bind (r, st) (\<lambda>hint_processed st.
      if hint_processed then (Inr (True, ld\<lparr>ld_index := idx\<rparr>), st)
      else
        st_bind (remove_file hint_file_path st) (\<lambda>_ st.
        (Inr (False, ld\<lparr>ld_index := idx\<rparr>), st))))))"

definition replay_data ::
  "(bytes \<Rightarrow> u32) \<Rightarrow> u64 \<Rightarrow> nat \<Rightarrow> loader \<Rightarrow> 'a os_scheme \<Rightarrow> (kvs_error + bool \<times> loader) \<times> 'a os_scheme" where
  "replay_data crc file_id reader_file ld st =
     st_bind (seek_start reader_file st) (\<lambda>_ st.
     st_bind (metadata_len reader_file st) (\<lambda>data_file_len st.
     let ld = ld_upd_writer (\<lambda>w. w\<lparr>ws_offset := 0\<rparr>) ld;
         (src, st) = buf_reader reader_file st
     in data_loop crc file_id (record_reader_new src data_file_len) ld st))"

definition replay_file ::
  "(bytes \<Rightarrow> u32) \<Rightarrow> u64 \<Rightarrow> nat \<Rightarrow> loader \<Rightarrow> 'a os_scheme \<Rightarrow> (kvs_error + bool \<times> loader) \<times> 'a os_scheme" where
  "replay_file crc file_id reader_file ld st =
     st_bind
       (if file_id \<noteq> ws_current_file_id (ld_writer ld) then fs_exists (hint_file_name file_id) st
        else (Inr False, st))
     (\<lambda>has_hint st.
     st_bind (if has_hint then replay_hint crc file_id ld st else (Inr (False, ld), st)) (\<lambda>(done, ld) st.
     if done then (Inr (True, ld), st) else replay_data crc file_id reader_file ld st))"

fun replay_files ::
  "(bytes \<Rightarrow> u32) \<Rightarrow> (u64 \<times> nat) list \<Rightarrow> loader \<Rightarrow> 'a os_scheme \<Rightarrow> (kvs_error + loader) \<times> 'a os_scheme" where
  "replay_files crc [] ld st = (Inr ld, st)"
| "replay_files crc ((file_id, reader_file) # files) ld st =
     st_bind (replay_file crc file_id reader_file ld st) (\<lambda>(go_on, ld) st.
     if go_on then replay_files crc files ld st else (Inr ld, st))"

definition replay :: "(bytes \<Rightarrow> u32) \<Rightarrow> loader \<Rightarrow> 'a os_scheme \<Rightarrow> (kvs_error + loader) \<times> 'a os_scheme" where
  "replay crc ld st = replay_files crc (ld_readers ld) ld st"

section \<open>Opening\<close>

definition max_opt :: "u64 option \<Rightarrow> u64 \<Rightarrow> u64 option" where
  "max_opt max_id i = Some (case max_id of None \<Rightarrow> i | Some m \<Rightarrow> max m i)"

text \<open>
  The loop over the directory entries, with the read handles and the highest id found so far.
\<close>

fun scan ::
  "(string \<times> dir_entry) list \<Rightarrow> (u64 \<times> nat) list \<Rightarrow> u64 option \<Rightarrow> 'a os_scheme \<Rightarrow>
   (kvs_error + (u64 \<times> nat) list \<times> u64 option) \<times> 'a os_scheme" where
  "scan [] read_handlers max_id st = (Inr (read_handlers, max_id), st)"
| "scan ((file_name, entry) # entries) read_handlers max_id st =
     st_bind (next_entry st) (\<lambda>_ st.
     let (is_file, st) = path_is_file file_name st in
     if \<not> is_file then scan entries read_handlers max_id st
     else if \<not> utf8_valid (to_bytes file_name) then scan entries read_handlers max_id st
     else
       (case get_file_id file_name of
          None \<Rightarrow>
            (if ends_with file_name ''.data.compact''
             then
               st_bind (remove_file file_name st) (\<lambda>_ st.
               scan entries read_handlers max_id st)
             else
               (case get_hint_id file_name of
                  Some i \<Rightarrow>
                    st_bind (fs_exists (data_file_name i) st) (\<lambda>data_exists st.
                    if \<not> data_exists
                    then
                      st_bind (remove_file file_name st) (\<lambda>_ st.
                      scan entries read_handlers max_id st)
                    else scan entries read_handlers max_id st)
                | None \<Rightarrow> scan entries read_handlers max_id st))
        | Some i \<Rightarrow>
            st_bind (open_read file_name st) (\<lambda>file st.
            scan entries (bt_insert i file read_handlers) (max_opt max_id i) st)))"

text \<open>\<open>open\<close> between taking the lock and starting the compaction thread.\<close>

definition load :: "(bytes \<Rightarrow> u32) \<Rightarrow> 'a os_scheme \<Rightarrow> (kvs_error + loader) \<times> 'a os_scheme" where
  "load crc st =
     st_bind (read_dir st) (\<lambda>entries st.
     st_bind (scan entries [] None st) (\<lambda>(read_handlers, max_id) st.
     let current_file_id = (case max_id of None \<Rightarrow> 1 | Some m \<Rightarrow> m);
         current_path = data_file_name current_file_id
     in
     st_bind (open_create current_path st) (\<lambda>file st.
     st_bind (unix_now st) (\<lambda>now st.
     let writer = \<lparr>ws_current_file_id = current_file_id, ws_file = file, ws_offset = 0,
                   ws_flushed_offset = 0, ws_last_ts_flushed = as_millis now,
                   ws_stale_bytes_count = 0\<rparr>
     in
     st_bind (open_read current_path st) (\<lambda>r_file st.
     replay crc
       \<lparr>ld_readers = bt_insert current_file_id r_file read_handlers, ld_index = buckets_empty,
        ld_writer = writer\<rparr> st)))))"

definition make_store :: "config \<Rightarrow> nat \<Rightarrow> loader \<Rightarrow> os \<Rightarrow> store" where
  "make_store config lock_file ld st =
     os.extend st
       (store.fields (index_from (ld_index ld)) (ld_readers ld) (ld_writer ld) False config lock_file
          True True False)"

text \<open>
  An error leaves the operating system as the steps up to it did, with the lock released: dropping
  the handle of the lock file unlocks it.
\<close>

definition bitcask_open :: "(bytes \<Rightarrow> u32) \<Rightarrow> config \<Rightarrow> os \<Rightarrow> (kvs_error \<times> os) + store" where
  "bitcask_open crc config st =
     (case st_bind (create_dir_all st) (\<lambda>_ st. lock_acquire StoreType_Bitcask st) of
        (Inl e, st) \<Rightarrow> Inl (e, st)
      | (Inr lock_file, st) \<Rightarrow>
          (case load crc st of
             (Inl e, st) \<Rightarrow> Inl (e, unlock lock_file st)
           | (Inr ld, st) \<Rightarrow> Inr (make_store config lock_file ld st)))"

end
