(* ===== verification/Log.thy ===== *)
theory Log
  imports Loader Store_Inv
begin

text \<open>
  The specification of a log: a data file is the concatenation of its records, and what it means
  for the index is the list of insertions and deletions its records stand for. The loops of the
  loader are shown to carry out exactly these operations.
\<close>

section \<open>Frames\<close>

text \<open>Bytes that the record reader takes as one record.\<close>

definition framed :: "bytes \<Rightarrow> bool" where
  "framed bs \<longleftrightarrow> HEADER_LEN \<le> length bs \<and> frame_len bs = length bs"

lemma frame_len_append: "HEADER_LEN \<le> length bs \<Longrightarrow> frame_len (bs @ rest) = frame_len bs"
  by (simp add: frame_len_def)

lemma framed_append: "framed bs \<Longrightarrow> has_frame (bs @ rest) \<and> frame_len (bs @ rest) = length bs"
  by (simp add: framed_def has_frame_def frame_len_append)

lemma framed_nonempty: "framed bs \<Longrightarrow> bs \<noteq> []"
  by (auto simp: framed_def HEADER_LEN_def)

lemma framed_torn:
  assumes "framed bs" and "n < length bs"
  shows "\<not> has_frame (take n bs)"
proof (cases "HEADER_LEN \<le> n")
  case True
  with assms have "frame_len (take n bs) = frame_len bs"
    by (simp add: frame_len_def framed_def min_def)
  with assms show ?thesis by (simp add: has_frame_def framed_def)
qed (simp add: has_frame_def)

lemma body_len_header:
  "length a = 4 \<Longrightarrow> body_len (take HEADER_LEN (a @ u32_to_le_bytes n @ rest)) = unat n"
  by (simp add: body_len_def slice_of_def command_consts)

lemma framed_serialize:
  assumes "command_fits cmd"
  shows "framed (command_serialize crc cmd)"
proof -
  have "body_len (take HEADER_LEN (command_serialize crc cmd)) =
      unat (of_nat (encoded_body_len cmd) :: u32)"
    unfolding command_serialize_layout record_tail_def by (rule body_len_header) simp
  also have "\<dots> = encoded_body_len cmd" using assms by (intro unat_u32_of_nat) (simp add: command_fits_def)
  finally show ?thesis by (simp add: framed_def frame_len_def)
qed

lemma framed_hint:
  assumes "hint_fits key"
  shows "framed (iv_serialize crc iv key)"
proof -
  have "body_len (take HEADER_LEN (iv_serialize crc iv key)) = unat (of_nat (28 + length key) :: u32)"
    unfolding iv_serialize_layout hint_tail_def by (rule body_len_header) simp
  also have "\<dots> = 28 + length key" using assms by (intro unat_u32_of_nat) (simp add: hint_fits_def)
  finally show ?thesis by (simp add: framed_def frame_len_def HEADER_LEN_def)
qed

section \<open>The reader over a file\<close>

definition reader_on :: "bytes \<Rightarrow> nat \<Rightarrow> record_reader" where
  "reader_on data pos =
     \<lparr>rr_reader = \<lparr>src_bytes = drop pos data, src_fail = None\<rparr>, rr_position = of_nat pos,
      rr_file_len = of_nat (length data)\<rparr>"

lemma reader_at_iff:
  "reader_at data pos rr \<longleftrightarrow> rr = reader_on data pos \<and> pos \<le> length data \<and> length data < 2 ^ 64"
  by (cases rr) (auto simp: reader_at_def reader_on_def)

lemma reader_new: "record_reader_new \<lparr>src_bytes = data, src_fail = None\<rparr> (of_nat (length data)) = reader_on data 0"
  by (simp add: record_reader_new_def reader_on_def)

lemma next_record_framed:
  assumes "data = pre @ bs @ rest" and "framed bs" and "length data < 2 ^ 64"
  shows "next_record (reader_on data (length pre)) =
           (Inr (Record (of_nat (length pre)) bs), reader_on data (length pre + length bs))"
proof -
  have at: "reader_at data (length pre) (reader_on data (length pre))"
    using assms by (simp add: reader_at_iff)
  have "drop (length pre) data = bs @ rest" using assms by simp
  then show ?thesis
    using next_record_frame [OF at] framed_append [OF assms(2), of rest] by (auto simp: reader_at_iff)
qed

lemma next_record_at_end:
  "length data < 2 ^ 64 \<Longrightarrow>
     next_record (reader_on data (length data)) = (Inr CleanEof, reader_on data (length data))"
  using next_record_end [of data "length data"] by (simp add: reader_at_iff)

lemma next_record_at_torn:
  assumes "length (pre @ tail) < 2 ^ 64" and "tail \<noteq> []" and "\<not> has_frame tail"
  shows "\<exists>rr'. next_record (reader_on (pre @ tail) (length pre)) =
                 (Inr (TornTail (of_nat (length pre))), rr')"
  using assms by (intro next_record_torn [where data = "pre @ tail"]) (simp_all add: reader_at_iff)

section \<open>Data files\<close>

definition record_len :: "command \<Rightarrow> nat" where
  "record_len cmd = HEADER_LEN + encoded_body_len cmd"

definition log_bytes :: "(bytes \<Rightarrow> u32) \<Rightarrow> command list \<Rightarrow> bytes" where
  "log_bytes crc cs = concat (map (command_serialize crc) cs)"

fun record_op :: "u64 \<Rightarrow> nat \<Rightarrow> command \<Rightarrow> keydir_op" where
  "record_op i pos (Command_Set ts key v) =
     Keydir_Put key \<lparr>iv_file_id = i, iv_ts = ts, iv_offset = of_nat pos,
                     iv_len = of_nat (record_len (Command_Set ts key v))\<rparr>"
| "record_op i pos (Command_Rm ts key) = Keydir_Drop key"

fun data_ops :: "u64 \<Rightarrow> nat \<Rightarrow> command list \<Rightarrow> keydir_op list" where
  "data_ops i pos [] = []"
| "data_ops i pos (c # cs) = record_op i pos c # data_ops i (pos + record_len c) cs"

fun replay_commands :: "u64 \<Rightarrow> nat \<Rightarrow> command list \<Rightarrow> loader \<Rightarrow> loader" where
  "replay_commands i pos [] ld = ld"
| "replay_commands i pos (c # cs) ld =
     replay_commands i (pos + record_len c) cs (replay_command i (of_nat pos) (record_len c) c ld)"

lemma log_bytes_simps [simp]:
  "log_bytes crc [] = []"
  "log_bytes crc (c # cs) = command_serialize crc c @ log_bytes crc cs"
  "log_bytes crc (cs @ ds) = log_bytes crc cs @ log_bytes crc ds"
  by (simp_all add: log_bytes_def)

lemma length_serialize_record: "length (command_serialize crc c) = record_len c"
  by (simp add: record_len_def)

lemma length_log_bytes: "length (log_bytes crc cs) = sum_list (map record_len cs)"
  by (induction cs) (simp_all add: record_len_def)

lemma data_ops_append:
  "data_ops i pos (cs @ ds) = data_ops i pos cs @ data_ops i (pos + sum_list (map record_len cs)) ds"
  by (induction cs arbitrary: pos) (simp_all add: add.assoc)

lemma replay_command_fields [simp]:
  "ld_readers (replay_command i p n c ld) = ld_readers ld"
  "ws_current_file_id (ld_writer (replay_command i p n c ld)) = ws_current_file_id (ld_writer ld)"
  "ws_file (ld_writer (replay_command i p n c ld)) = ws_file (ld_writer ld)"
  "ws_offset (ld_writer (replay_command i p n c ld)) = ws_offset (ld_writer ld) + of_nat n"
  by (cases c; simp add: Let_def ld_upd_writer_def)+

lemma replay_command_index:
  "ld_index (replay_command i (of_nat pos) (record_len c) c ld) = bk.run_op (ld_index ld) (record_op i pos c)"
  by (cases c) (simp_all add: Let_def ld_upd_writer_def bk.run_op_def)

lemma replay_commands_fields [simp]:
  "ld_readers (replay_commands i pos cs ld) = ld_readers ld"
  "ws_current_file_id (ld_writer (replay_commands i pos cs ld)) = ws_current_file_id (ld_writer ld)"
  "ws_file (ld_writer (replay_commands i pos cs ld)) = ws_file (ld_writer ld)"
  "ws_offset (ld_writer (replay_commands i pos cs ld)) =
     ws_offset (ld_writer ld) + of_nat (sum_list (map record_len cs))"
  by (induction i pos cs ld rule: replay_commands.induct) simp_all

lemma replay_commands_index:
  "ld_index (replay_commands i pos cs ld) = foldl bk.run_op (ld_index ld) (data_ops i pos cs)"
  by (induction i pos cs ld rule: replay_commands.induct) (simp_all add: replay_command_index)

lemma data_loop_records:
  assumes "data = pre @ log_bytes crc cs @ tail" and "list_all command_fits cs"
    and "length data < 2 ^ 64"
  shows "data_loop crc i (reader_on data (length pre)) ld st =
           data_loop crc i (reader_on data (length (pre @ log_bytes crc cs)))
             (replay_commands i (length pre) cs ld) st"
  using assms
proof (induction cs arbitrary: pre ld)
  case (Cons c cs)
  let ?ser = "command_serialize crc c"
  from Cons.prems have fits: "command_fits c" by simp
  have next_rec: "next_record (reader_on data (length pre)) =
      (Inr (Record (of_nat (length pre)) ?ser), reader_on data (length pre + length ?ser))"
    using Cons.prems framed_serialize [OF fits]
    by (intro next_record_framed [where rest = "log_bytes crc cs @ tail"]) simp_all
  have dec: "command_deserialize crc ?ser = Inr (c, length ?ser)"
    using command_deserialize_serialize [OF fits, of crc "[]"] by simp
  have IH: "data_loop crc i (reader_on data (length (pre @ ?ser))) ld' st =
      data_loop crc i (reader_on data (length ((pre @ ?ser) @ log_bytes crc cs)))
        (replay_commands i (length (pre @ ?ser)) cs ld') st" for ld'
    using Cons.prems by (intro Cons.IH) simp_all
  show ?case
    using IH by (subst data_loop.simps) (simp add: next_rec dec length_serialize_record add.assoc record_len_def)
qed simp

text \<open>A data file without a torn tail.\<close>

lemma data_loop_clean:
  assumes "data = log_bytes crc cs" and "list_all command_fits cs" and "length data < 2 ^ 64"
  shows "data_loop crc i (reader_on data 0) ld st = (Inr (True, replay_commands i 0 cs ld), st)"
proof -
  have "data_loop crc i (reader_on data 0) ld st =
      data_loop crc i (reader_on data (length data)) (replay_commands i 0 cs ld) st"
    using data_loop_records [of data "[]" crc cs "[]"] assms by simp
  then show ?thesis
    using next_record_at_end [OF assms(3)] by (subst (asm) (2) data_loop.simps) simp
qed

text \<open>A data file whose last record is torn.\<close>

lemma data_loop_torn:
  assumes "data = log_bytes crc cs @ tail" and "list_all command_fits cs" and "length data < 2 ^ 64"
    and "tail \<noteq> []" and "\<not> has_frame tail"
  shows "data_loop crc i (reader_on data 0) ld st =
     (if i = ws_current_file_id (ld_writer ld)
      then st_bind (set_len (ws_file (ld_writer ld)) (length (log_bytes crc cs)) st) (\<lambda>_ st.
        (Inr (False, ld_upd_writer (\<lambda>w. w\<lparr>ws_offset := of_nat (length (log_bytes crc cs))\<rparr>)
           (replay_commands i 0 cs ld)), st))
      else (Inl Corruption, st))"
proof -
  let ?n = "length (log_bytes crc cs)"
  have eq: "data_loop crc i (reader_on data 0) ld st =
      data_loop crc i (reader_on data ?n) (replay_commands i 0 cs ld) st"
    using data_loop_records [of data "[]" crc cs tail] assms by simp
  obtain rr' where "next_record (reader_on data ?n) = (Inr (TornTail (of_nat ?n)), rr')"
    using next_record_at_torn [of "log_bytes crc cs" tail] assms by blast
  moreover have "unat (of_nat ?n :: u64) = ?n" using assms by (intro unat_u64_of_nat) simp
  ultimately show ?thesis
    unfolding eq by (subst data_loop.simps) simp
qed

section \<open>Hint files\<close>

definition hint_bytes :: "(bytes \<Rightarrow> u32) \<Rightarrow> (bytes \<times> index_value) list \<Rightarrow> bytes" where
  "hint_bytes crc es = concat (map (\<lambda>(key, iv). iv_serialize crc iv key) es)"

definition hint_ops :: "u64 \<Rightarrow> (bytes \<times> index_value) list \<Rightarrow> keydir_op list" where
  "hint_ops i es = map (\<lambda>(key, iv). Keydir_Put key (iv\<lparr>iv_file_id := i\<rparr>)) es"

lemma hint_loop_records:
  assumes "data = pre @ hint_bytes crc es" and "list_all (\<lambda>(key, _). hint_fits key) es"
    and "length data < 2 ^ 64"
  shows "hint_loop crc i (reader_on data (length pre)) idx =
           (Inr True, foldl bk.run_op idx (hint_ops i es))"
  using assms
proof (induction es arbitrary: pre idx)
  case Nil
  then show ?case
    using next_record_at_end [of data] by (subst hint_loop.simps) (simp add: hint_bytes_def hint_ops_def)
next
  case (Cons e es)
  obtain key iv where e: "e = (key, iv)" by (cases e)
  let ?ser = "iv_serialize crc iv key"
  from Cons.prems e have fits: "hint_fits key" by simp
  have next_rec: "next_record (reader_on data (length pre)) =
      (Inr (Record (of_nat (length pre)) ?ser), reader_on data (length pre + length ?ser))"
    using Cons.prems e framed_hint [OF fits]
    by (intro next_record_framed [where rest = "hint_bytes crc es"]) (simp_all add: hint_bytes_def)
  have dec: "iv_deserialize crc ?ser i = Inr (key, iv\<lparr>iv_file_id := i\<rparr>, length ?ser)"
    using iv_deserialize_serialize [OF fits, of crc iv "[]" i] by simp
  have IH: "hint_loop crc i (reader_on data (length (pre @ ?ser))) idx' =
      (Inr True, foldl bk.run_op idx' (hint_ops i es))" for idx'
    using Cons.prems e by (intro Cons.IH) (simp_all add: hint_bytes_def)
  show ?case
    using IH by (subst hint_loop.simps) (simp add: next_rec dec e hint_ops_def bk.run_op_def)
qed

section \<open>What a log stands for\<close>

text \<open>
  A log is a list of data files, each an id with its commands. It stands for an index (the last
  insertion or deletion of a key decides) and for a key-value map.
\<close>

type_synonym log = "(u64 \<times> command list) list"

definition log_ops :: "log \<Rightarrow> keydir_op list" where
  "log_ops log = concat (map (\<lambda>(i, cs). data_ops i 0 cs) log)"

definition log_index :: "log \<Rightarrow> hash_map" where
  "log_index log = foldl apply_op Map.empty (log_ops log)"

definition log_view :: "log \<Rightarrow> (bytes \<rightharpoonup> bytes)" where
  "log_view log = foldl (\<lambda>m c. view_apply c m) Map.empty (concat (map snd log))"

text \<open>An entry that points at a record of the log which sets the key to the value.\<close>

definition entry_in_log :: "log \<Rightarrow> bytes \<Rightarrow> index_value \<Rightarrow> bytes \<Rightarrow> bool" where
  "entry_in_log log key e v \<longleftrightarrow>
     (\<exists>i pre ts post. (i, pre @ Command_Set ts key v # post) \<in> set log \<and>
        e = \<lparr>iv_file_id = i, iv_ts = ts, iv_offset = of_nat (sum_list (map record_len pre)),
             iv_len = of_nat (record_len (Command_Set ts key v))\<rparr>)"

definition index_matches :: "log \<Rightarrow> hash_map \<Rightarrow> (bytes \<rightharpoonup> bytes) \<Rightarrow> bool" where
  "index_matches log m view \<longleftrightarrow> (\<forall>key. rel_option (entry_in_log log key) (m key) (view key))"

lemma index_matches_step:
  assumes "(i, pre @ c # post) \<in> set log" and "index_matches log m view"
  shows "index_matches log (apply_op m (record_op i (sum_list (map record_len pre)) c)) (view_apply c view)"
  using assms by (cases c) (auto simp: index_matches_def entry_in_log_def)

lemma index_matches_file:
  assumes "(i, pre @ cs) \<in> set log" and "index_matches log m view"
  shows "index_matches log (foldl apply_op m (data_ops i (sum_list (map record_len pre)) cs))
           (foldl (\<lambda>m c. view_apply c m) view cs)"
  using assms
proof (induction cs arbitrary: pre m view)
  case (Cons c cs)
  have "index_matches log (apply_op m (record_op i (sum_list (map record_len pre)) c)) (view_apply c view)"
    using Cons.prems by (rule index_matches_step)
  with Cons.IH [of "pre @ [c]"] Cons.prems(1) show ?case by simp
qed simp

lemma index_matches_files:
  assumes "set files \<subseteq> set log" and "index_matches log m view"
  shows "index_matches log (foldl apply_op m (log_ops files))
           (foldl (\<lambda>m c. view_apply c m) view (concat (map snd files)))"
  using assms
proof (induction files arbitrary: m view)
  case (Cons f files)
  obtain i cs where f: "f = (i, cs)" by (cases f)
  have "index_matches log (foldl apply_op m (data_ops i 0 cs)) (foldl (\<lambda>m c. view_apply c m) view cs)"
    using index_matches_file [of i "[]" cs log] Cons.prems f by simp
  with Cons.IH Cons.prems f show ?case by (simp add: log_ops_def)
qed (simp add: log_ops_def)

lemma log_index_matches: "index_matches log (log_index log) (log_view log)"
  using index_matches_files [of log log Map.empty Map.empty]
  by (simp add: log_index_def log_view_def index_matches_def)

lemma log_index_append_command:
  "log_index (sealed @ [(cur, cs @ [c])]) =
     apply_op (log_index (sealed @ [(cur, cs)])) (record_op cur (sum_list (map record_len cs)) c)"
  by (simp add: log_index_def log_ops_def data_ops_append)

lemma log_view_append_command:
  "log_view (sealed @ [(cur, cs @ [c])]) = view_apply c (log_view (sealed @ [(cur, cs)]))"
  by (simp add: log_view_def)

lemma log_index_append_file: "log_index (log @ [(i, [])]) = log_index log"
  by (simp add: log_index_def log_ops_def)

lemma log_view_append_file: "log_view (log @ [(i, [])]) = log_view log"
  by (simp add: log_view_def)

end
