(* ===== verification/Recovery.thy ===== *)
theory Recovery
  imports Log Store_Ops
begin

text \<open>
  Opening a directory that holds a log: the scan finds the data files and removes leftovers, and
  the replay rebuilds the index that the log stands for.
\<close>

section \<open>Calls that succeed\<close>

lemma calm_upd [simp]:
  "calm (st\<lparr>os_ticks := n\<rparr>) = calm st"
  "calm (st\<lparr>os_dir := d\<rparr>) = calm st"
  "calm (st\<lparr>os_inodes := i\<rparr>) = calm st"
  "calm (st\<lparr>os_flocks := l\<rparr>) = calm st"
  by (simp_all add: calm_def)

lemma calm_calls:
  assumes "calm st"
  shows "fs_exists name st = (Inr (map_of (os_dir st) name \<noteq> None), tick st)"
    and "map_of (os_dir st) name = Some (File_Entry fd) \<Longrightarrow> open_read name st = (Inr fd, tick st)"
    and "map_of (os_dir st) name = Some (File_Entry fd) \<Longrightarrow> open_create name st = (Inr fd, tick st)"
    and "metadata_len fd st = (Inr (of_nat (length (file_content st fd))), tick st)"
    and "seek_start fd st = (Inr (), tick st)"
    and "next_entry st = (Inr (), tick st)"
    and "read_dir st = (Inr (os_dir st), tick st)"
    and "create_dir_all st = (Inr (), tick st)"
    and "buf_reader fd st = (\<lparr>src_bytes = file_content st fd, src_fail = None\<rparr>, tick st)"
    and "path_is_file name st =
      ((case map_of (os_dir st) name of Some (File_Entry _) \<Rightarrow> True | _ \<Rightarrow> False), tick st)"
    and "map_of (os_dir st) name = Some (File_Entry fd) \<Longrightarrow>
      remove_file name st = (Inr (), (tick st)\<lparr>os_dir := filter (\<lambda>(n, _). n \<noteq> name) (os_dir st)\<rparr>)"
    and "n \<le> length (file_content st fd) \<Longrightarrow>
      set_len fd n st = (Inr (), (tick st)\<lparr>os_inodes := (os_inodes st)
        [fd := (os_inodes st ! fd)\<lparr>content := take n (file_content st fd),
                 synced := min n (synced (os_inodes st ! fd))\<rparr>]\<rparr>)"
  using assms
  by (simp_all add: fs_exists_def open_read_def open_create_def metadata_len_def seek_start_def
      next_entry_def read_dir_def create_dir_all_def buf_reader_def path_is_file_def remove_file_def
      set_len_def Let_def calm_syscall calm_faults)

section \<open>The scan of the directory\<close>

text \<open>The data files among the entries, and the entries that the scan removes.\<close>

definition scan_file :: "string \<Rightarrow> dir_entry \<Rightarrow> (u64 \<times> nat) option" where
  "scan_file name entry =
     (case entry of
        File_Entry fd \<Rightarrow>
          (if utf8_valid (to_bytes name) then map_option (\<lambda>i. (i, fd)) (get_file_id name) else None)
      | Other_Entry \<Rightarrow> None)"

fun scan_files :: "(string \<times> dir_entry) list \<Rightarrow> (u64 \<times> nat) list" where
  "scan_files [] = []"
| "scan_files ((name, entry) # es) =
     (case scan_file name entry of None \<Rightarrow> scan_files es | Some f \<Rightarrow> f # scan_files es)"

definition leftover :: "(string \<times> dir_entry) list \<Rightarrow> string \<Rightarrow> bool" where
  "leftover dir name \<longleftrightarrow>
     (\<exists>fd. map_of dir name = Some (File_Entry fd)) \<and> utf8_valid (to_bytes name) \<and>
     get_file_id name = None \<and>
     (ends_with name ''.data.compact'' \<or>
      (\<exists>i. get_hint_id name = Some i \<and> map_of dir (data_file_name i) = None))"

lemma map_of_remove: "map_of (filter (\<lambda>(n, _). n \<noteq> name) d) = (map_of d)(name := None)"
  by (induction d) (auto simp: fun_eq_iff)

lemma leftover_not_data: "leftover dir name \<Longrightarrow> name \<noteq> data_file_name i"
  by (auto simp: leftover_def)

text \<open>What a scan has done to the file system.\<close>

definition scanned :: "string set \<Rightarrow> 'a os_scheme \<Rightarrow> 'a os_scheme \<Rightarrow> bool" where
  "scanned names st st' \<longleftrightarrow>
     os_inodes st' = os_inodes st \<and> os_flocks st' = os_flocks st \<and> os_clock st' = os_clock st \<and>
     os_faults st' = os_faults st \<and> os.more st' = os.more st \<and>
     (distinct (map fst (os_dir st)) \<longrightarrow> distinct (map fst (os_dir st'))) \<and>
     map_of (os_dir st') = (\<lambda>name. if name \<in> names \<and> leftover (os_dir st) name then None
                                  else map_of (os_dir st) name)"

lemma scanned_keep: "(\<forall>name \<in> names. \<not> leftover (os_dir st) name) \<Longrightarrow> scanned names st (st\<lparr>os_ticks := n\<rparr>)"
  by (auto simp: scanned_def fun_eq_iff)

lemma distinct_fst_filter: "distinct (map fst d) \<Longrightarrow> distinct (map fst (filter P d))"
  by (induction d) auto

lemma leftover_cong:
  assumes "map_of dir' = (\<lambda>name. if name \<in> names \<and> leftover dir name then None else map_of dir name)"
    and "x \<notin> names"
  shows "leftover dir' x = leftover dir x"
proof -
  have "map_of dir' x = map_of dir x" using assms by simp
  moreover have "map_of dir' (data_file_name i) = map_of dir (data_file_name i)" for i
    using assms(1) leftover_not_data by auto
  ultimately show ?thesis by (simp add: leftover_def)
qed

lemma scanned_trans:
  assumes "scanned a st st1" and "scanned b st1 st2" and "a \<inter> b = {}"
  shows "scanned (a \<union> b) st st2"
proof -
  have m1: "map_of (os_dir st1) =
      (\<lambda>name. if name \<in> a \<and> leftover (os_dir st) name then None else map_of (os_dir st) name)"
    using assms(1) by (simp add: scanned_def)
  have "map_of (os_dir st2) =
      (\<lambda>name. if name \<in> a \<union> b \<and> leftover (os_dir st) name then None else map_of (os_dir st) name)"
    using m1 assms leftover_cong [OF m1] by (auto simp: scanned_def fun_eq_iff)
  then show ?thesis using assms(1,2) by (simp add: scanned_def)
qed

lemma scanned_remove:
  "leftover (os_dir st) name \<Longrightarrow>
     scanned {name} st (st\<lparr>os_ticks := n, os_dir := filter (\<lambda>(x, _). x \<noteq> name) (os_dir st)\<rparr>)"
  by (auto simp: scanned_def fun_eq_iff map_of_remove distinct_fst_filter)

lemma scan_step:
  assumes calm: "calm st" and e: "map_of (os_dir st) name = Some entry"
  shows "\<exists>st1. scanned {name} st st1 \<and>
     (\<forall>es rh mx. scan ((name, entry) # es) rh mx st =
        (case scan_file name entry of
           None \<Rightarrow> scan es rh mx st1
         | Some (i, fd) \<Rightarrow> scan es (bt_insert i fd rh) (max_opt mx i) st1))"
proof (cases entry)
  case Other_Entry
  then show ?thesis
    using calm e by (intro exI [of _ "tick (tick st)"]) (simp add: calm_calls scanned_keep leftover_def scan_file_def)
next
  case (File_Entry fd)
  show ?thesis
  proof (cases "leftover (os_dir st) name")
    case True
    let ?rm = "\<lambda>n. st\<lparr>os_ticks := n, os_dir := filter (\<lambda>(x, _). x \<noteq> name) (os_dir st)\<rparr>"
    obtain k where "\<And>es rh mx. scan ((name, entry) # es) rh mx st = scan es rh mx (?rm k)"
    proof (cases "ends_with name ''.data.compact''")
      case c: True
      have "scan ((name, entry) # es) rh mx st = scan es rh mx (?rm (Suc (Suc (Suc (os_ticks st)))))" for es rh mx
        using calm e File_Entry True c by (simp add: calm_calls leftover_def scan_file_def)
      then show thesis by (rule that)
    next
      case False
      have "scan ((name, entry) # es) rh mx st = scan es rh mx (?rm (Suc (Suc (Suc (Suc (os_ticks st))))))" for es rh mx
        using calm e File_Entry True False by (auto simp: calm_calls leftover_def scan_file_def)
      then show thesis by (rule that)
    qed
    moreover have "scan_file name entry = None"
      using True File_Entry by (simp add: leftover_def scan_file_def)
    ultimately show ?thesis
      using scanned_remove [OF True, of k] by (intro exI [of _ "?rm k"]) (simp del: scan.simps)
  next
    case False
    obtain k where "\<And>es rh mx. scan ((name, entry) # es) rh mx st =
        (case scan_file name entry of
           None \<Rightarrow> scan es rh mx (st\<lparr>os_ticks := k\<rparr>)
         | Some (i, fd) \<Rightarrow> scan es (bt_insert i fd rh) (max_opt mx i) (st\<lparr>os_ticks := k\<rparr>))"
    proof (cases "utf8_valid (to_bytes name) \<and> (get_file_id name \<noteq> None \<or> get_hint_id name \<noteq> None)")
      case True
      have "scan ((name, entry) # es) rh mx st =
        (case scan_file name entry of
           None \<Rightarrow> scan es rh mx (st\<lparr>os_ticks := Suc (Suc (Suc (os_ticks st)))\<rparr>)
         | Some (i, fd) \<Rightarrow> scan es (bt_insert i fd rh) (max_opt mx i) (st\<lparr>os_ticks := Suc (Suc (Suc (os_ticks st)))\<rparr>))"
        for es rh mx
        using calm e File_Entry False True
        by (cases "get_file_id name") (auto simp: calm_calls leftover_def scan_file_def)
      then show thesis by (rule that)
    next
      case no: False
      have "scan ((name, entry) # es) rh mx st =
        (case scan_file name entry of
           None \<Rightarrow> scan es rh mx (st\<lparr>os_ticks := Suc (Suc (os_ticks st))\<rparr>)
         | Some (i, fd) \<Rightarrow> scan es (bt_insert i fd rh) (max_opt mx i) (st\<lparr>os_ticks := Suc (Suc (os_ticks st))\<rparr>))"
        for es rh mx
        using calm e File_Entry False no by (auto simp: calm_calls leftover_def scan_file_def)
      then show thesis by (rule that)
    qed
    then show ?thesis
      using scanned_keep [of "{name}" st k] False
      by (intro exI [of _ "st\<lparr>os_ticks := k\<rparr>"]) (simp del: scan.simps)
  qed
qed

lemma scan_calm:
  assumes "calm st" and "distinct (map fst es)" and "\<forall>(name, entry) \<in> set es. map_of (os_dir st) name = Some entry"
  shows "\<exists>st'. scan es rh mx st =
      (Inr (foldl (\<lambda>m (i, fd). bt_insert i fd m) rh (scan_files es),
            foldl max_opt mx (map fst (scan_files es))), st') \<and>
      scanned (fst ` set es) st st'"
  using assms
proof (induction es arbitrary: rh mx st)
  case Nil
  then show ?case using scanned_keep [of "{}" st "os_ticks st"] by simp
next
  case (Cons e es)
  obtain name entry where e: "e = (name, entry)" by (cases e)
  obtain st1 where st1: "scanned {name} st st1"
    and step: "\<And>es rh mx. scan ((name, entry) # es) rh mx st =
        (case scan_file name entry of
           None \<Rightarrow> scan es rh mx st1
         | Some (i, fd) \<Rightarrow> scan es (bt_insert i fd rh) (max_opt mx i) st1)"
    using scan_step [of st name entry] Cons.prems e by auto
  have c1: "calm st1" using st1 Cons.prems(1) by (simp add: scanned_def calm_def)
  have m1: "\<forall>(n, ent) \<in> set es. map_of (os_dir st1) n = Some ent"
    using st1 Cons.prems(2,3) e by (fastforce simp: scanned_def image_iff)
  note IH = Cons.IH [OF c1 _ m1]
  from Cons.prems(2) e have d: "distinct (map fst es)" "{name} \<inter> fst ` set es = {}" by auto
  have "\<exists>st'. scan (e # es) rh mx st =
      (Inr (foldl (\<lambda>m (i, fd). bt_insert i fd m) rh (scan_files (e # es)),
            foldl max_opt mx (map fst (scan_files (e # es)))), st') \<and> scanned (fst ` set es) st1 st'"
    using IH [OF d(1)] unfolding e step by (cases "scan_file name entry") auto
  then show ?case
    using scanned_trans [OF st1 _ d(2)] e by (metis (no_types, lifting) image_insert fst_conv insert_is_Un list.simps(15))
qed

end
