(* ===== verification/Disk_Log.thy ===== *)
theory Disk_Log
  imports Recovery
begin

text \<open>
  A directory that holds a log, and what opening it gives: the index of the log, the active file cut
  behind its last complete record, and nothing else changed in the data.
\<close>

section \<open>A log on disk\<close>

definition file_ok :: "'a os_scheme \<Rightarrow> u64 \<Rightarrow> bytes \<Rightarrow> bool" where
  "file_ok st i bs \<longleftrightarrow>
     (\<exists>fd. map_of (os_dir st) (data_file_name i) = Some (File_Entry fd) \<and>
           fd < length (os_inodes st) \<and> file_content st fd = bs \<and> length bs \<le> MAX_FILE_LEN)"

text \<open>A hint file, if there is one, lists the entries of the records of its data file.\<close>

definition hint_ok :: "(bytes \<Rightarrow> u32) \<Rightarrow> 'a os_scheme \<Rightarrow> u64 \<Rightarrow> command list \<Rightarrow> bool" where
  "hint_ok crc st i cs \<longleftrightarrow>
     (case map_of (os_dir st) (hint_file_name i) of
        None \<Rightarrow> True
      | Some Other_Entry \<Rightarrow> False
      | Some (File_Entry fd) \<Rightarrow>
          (\<exists>es. file_content st fd = hint_bytes crc es \<and> length (file_content st fd) < 2 ^ 64 \<and>
                list_all (\<lambda>(key, _). hint_fits key) es \<and> hint_ops i es = data_ops i 0 cs))"

text \<open>
  The directory holds the sealed files and, with the highest id, the active file \<open>cur\<close>, which may
  end in a torn record; no other name is that of a data file.
\<close>

definition disk_log ::
  "(bytes \<Rightarrow> u32) \<Rightarrow> 'a os_scheme \<Rightarrow> log \<Rightarrow> u64 \<Rightarrow> command list \<Rightarrow> bytes \<Rightarrow> bool" where
  "disk_log crc st sealed cur cs tail \<longleftrightarrow>
     distinct (map fst (os_dir st)) \<and> sorted_wrt (<) (map fst sealed @ [cur]) \<and>
     (\<forall>(i, ds) \<in> set sealed.
        list_all command_ok ds \<and> file_ok st i (log_bytes crc ds) \<and> hint_ok crc st i ds) \<and>
     list_all command_ok cs \<and> file_ok st cur (log_bytes crc cs @ tail) \<and>
     (\<forall>i. map_of (os_dir st) (data_file_name i) \<noteq> None \<longrightarrow> i \<in> set (map fst sealed @ [cur])) \<and>
     (\<forall>(name, entry) \<in> set (os_dir st). \<forall>i fd.
        scan_file name entry = Some (i, fd) \<longrightarrow> name = data_file_name i)"

lemma disk_logD:
  assumes "disk_log crc st sealed cur cs tail"
  shows "distinct (map fst (os_dir st))" and "sorted_wrt (<) (map fst sealed @ [cur])"
    and "(i, ds) \<in> set sealed \<Longrightarrow> list_all command_ok ds"
    and "(i, ds) \<in> set sealed \<Longrightarrow> file_ok st i (log_bytes crc ds)"
    and "(i, ds) \<in> set sealed \<Longrightarrow> hint_ok crc st i ds"
    and "list_all command_ok cs" and "file_ok st cur (log_bytes crc cs @ tail)"
    and "map_of (os_dir st) (data_file_name i) \<noteq> None \<Longrightarrow> i \<in> set (map fst sealed @ [cur])"
    and "(name, entry) \<in> set (os_dir st) \<Longrightarrow> scan_file name entry = Some (i, fd) \<Longrightarrow>
      name = data_file_name i"
  using assms unfolding disk_log_def by blast+

lemma disk_logI:
  assumes "distinct (map fst (os_dir st))" and "sorted_wrt (<) (map fst sealed @ [cur])"
    and "\<And>i ds. (i, ds) \<in> set sealed \<Longrightarrow> list_all command_ok ds"
    and "\<And>i ds. (i, ds) \<in> set sealed \<Longrightarrow> file_ok st i (log_bytes crc ds)"
    and "\<And>i ds. (i, ds) \<in> set sealed \<Longrightarrow> hint_ok crc st i ds"
    and "list_all command_ok cs" and "file_ok st cur (log_bytes crc cs @ tail)"
    and "\<And>i. map_of (os_dir st) (data_file_name i) \<noteq> None \<Longrightarrow> i \<in> set (map fst sealed @ [cur])"
    and "\<And>name entry i fd. (name, entry) \<in> set (os_dir st) \<Longrightarrow> scan_file name entry = Some (i, fd) \<Longrightarrow>
      name = data_file_name i"
  shows "disk_log crc st sealed cur cs tail"
  unfolding disk_log_def using assms by blast

lemma command_ok_fits: "list_all command_ok cs \<Longrightarrow> list_all command_fits cs"
  by (auto simp: list_all_iff command_ok_def)

section \<open>Replaying the files\<close>

definition replayed :: "keydir_op list \<Rightarrow> loader \<Rightarrow> loader \<Rightarrow> bool" where
  "replayed ops ld ld' \<longleftrightarrow>
     ld_index ld' = foldl bk.run_op (ld_index ld) ops \<and> ld_readers ld' = ld_readers ld \<and>
     ws_current_file_id (ld_writer ld') = ws_current_file_id (ld_writer ld) \<and>
     ws_file (ld_writer ld') = ws_file (ld_writer ld)"

lemma replayed_trans: "replayed a x y \<Longrightarrow> replayed b y z \<Longrightarrow> replayed (a @ b) x z"
  by (simp add: replayed_def)

lemma replayed_commands: "replayed (data_ops i 0 cs) ld (replay_commands i 0 cs ld)"
  by (simp add: replayed_def replay_commands_index)

lemma replayed_upd [simp]:
  "replayed ops (ld_upd_writer (\<lambda>w. w\<lparr>ws_offset := n\<rparr>) ld) ld' = replayed ops ld ld'"
  "replayed ops ld (ld_upd_writer (\<lambda>w. w\<lparr>ws_offset := n\<rparr>) ld') = replayed ops ld ld'"
  by (simp_all add: replayed_def ld_upd_writer_def)

lemma replay_hint_calm:
  assumes calm: "calm st" and hint: "map_of (os_dir st) (hint_file_name i) = Some (File_Entry fd)"
    and es: "file_content st fd = hint_bytes crc es" "length (file_content st fd) < 2 ^ 64"
      "list_all (\<lambda>(key, _). hint_fits key) es"
  shows "\<exists>n ld'. replay_hint crc i ld st = (Inr (True, ld'), st\<lparr>os_ticks := n\<rparr>) \<and>
                 replayed (hint_ops i es) ld ld'"
proof -
  have "hint_loop crc i (record_reader_new \<lparr>src_bytes = file_content st fd, src_fail = None\<rparr>
      (of_nat (length (file_content st fd)))) (ld_index ld) =
    (Inr True, foldl bk.run_op (ld_index ld) (hint_ops i es))"
    unfolding reader_new using hint_loop_records [of "file_content st fd" "[]" crc es i] es by simp
  then have "replay_hint crc i ld st =
      (Inr (True, ld\<lparr>ld_index := foldl bk.run_op (ld_index ld) (hint_ops i es)\<rparr>),
       st\<lparr>os_ticks := Suc (Suc (Suc (os_ticks st)))\<rparr>)"
    using calm hint by (simp add: replay_hint_def calm_calls)
  then show ?thesis by (fastforce simp: replayed_def)
qed

lemma replay_data_calm:
  assumes calm: "calm st" and cs: "file_content st fd = log_bytes crc cs" "list_all command_fits cs"
    and len: "length (file_content st fd) < 2 ^ 64"
  shows "\<exists>n ld'. replay_data crc i fd ld st = (Inr (True, ld'), st\<lparr>os_ticks := n\<rparr>) \<and>
     replayed (data_ops i 0 cs) ld ld' \<and> ws_offset (ld_writer ld') = of_nat (length (log_bytes crc cs))"
proof -
  let ?ld = "replay_commands i 0 cs (ld_upd_writer (\<lambda>w. w\<lparr>ws_offset := 0\<rparr>) ld)"
  have "replay_data crc i fd ld st = (Inr (True, ?ld), st\<lparr>os_ticks := Suc (Suc (Suc (os_ticks st)))\<rparr>)"
    using calm data_loop_clean [OF cs len] by (simp add: replay_data_def calm_calls reader_new)
  moreover have "replayed (data_ops i 0 cs) ld ?ld"
    using replayed_commands [of i cs "ld_upd_writer (\<lambda>w. w\<lparr>ws_offset := 0\<rparr>) ld"] by simp
  moreover have "ws_offset (ld_writer ?ld) = of_nat (length (log_bytes crc cs))"
    by (simp add: ld_upd_writer_def length_log_bytes)
  ultimately show ?thesis by blast
qed

lemma replay_file_sealed:
  assumes calm: "calm st" and cs: "file_content st fd = log_bytes crc cs" "list_all command_fits cs"
    and len: "length (file_content st fd) < 2 ^ 64"
    and hint: "hint_ok crc st i cs" and i: "i \<noteq> ws_current_file_id (ld_writer ld)"
  shows "\<exists>n ld'. replay_file crc i fd ld st = (Inr (True, ld'), st\<lparr>os_ticks := n\<rparr>) \<and>
                 replayed (data_ops i 0 cs) ld ld'"
proof (cases "map_of (os_dir st) (hint_file_name i)")
  case None
  have c: "calm (tick st)" "file_content (tick st) fd = log_bytes crc cs"
    "length (file_content (tick st) fd) < 2 ^ 64"
    using calm cs len by simp_all
  from None show ?thesis
    using replay_data_calm [OF c(1,2) cs(2) c(3), of i ld] i calm
    by (auto simp: replay_file_def calm_calls)
next
  case (Some entry)
  then obtain hfd es where h: "map_of (os_dir st) (hint_file_name i) = Some (File_Entry hfd)"
    "file_content st hfd = hint_bytes crc es" "length (file_content st hfd) < 2 ^ 64"
    "list_all (\<lambda>(key, _). hint_fits key) es" "hint_ops i es = data_ops i 0 cs"
    using hint by (auto simp: hint_ok_def split: dir_entry.splits)
  then have t: "calm (tick st)" "map_of (os_dir (tick st)) (hint_file_name i) = Some (File_Entry hfd)"
    "file_content (tick st) hfd = hint_bytes crc es" "length (file_content (tick st) hfd) < 2 ^ 64"
    using calm by simp_all
  show ?thesis
    using replay_hint_calm [OF t h(4), of ld] i calm h(1,5)
    by (auto simp: replay_file_def calm_calls)
qed

text \<open>The sealed files of a log, next to the handles that the scan opened for them.\<close>

definition sealed_files :: "(bytes \<Rightarrow> u32) \<Rightarrow> 'a os_scheme \<Rightarrow> u64 \<Rightarrow> (u64 \<times> nat) list \<Rightarrow> log \<Rightarrow> bool" where
  "sealed_files crc st cur rs sealed \<longleftrightarrow>
     list_all2 (\<lambda>(i, fd) (j, cs). j = i \<and> i \<noteq> cur \<and> file_content st fd = log_bytes crc cs \<and>
       list_all command_fits cs \<and> length (file_content st fd) < 2 ^ 64 \<and> hint_ok crc st i cs) rs sealed"

lemma hint_ok_cong:
  assumes "map_of (os_dir st') (hint_file_name i) = map_of (os_dir st) (hint_file_name i)"
    and "\<And>fd. map_of (os_dir st) (hint_file_name i) = Some (File_Entry fd) \<Longrightarrow>
      file_content st' fd = file_content st fd"
  shows "hint_ok crc st' i cs = hint_ok crc st i cs"
  using assms by (simp add: hint_ok_def split: option.split dir_entry.split)

lemma hint_ok_tick [simp]: "hint_ok crc (st\<lparr>os_ticks := n\<rparr>) i cs = hint_ok crc st i cs"
  by (simp add: hint_ok_def split: option.split dir_entry.split)

lemma sealed_files_tick [simp]: "sealed_files crc (st\<lparr>os_ticks := n\<rparr>) = sealed_files crc st"
  by (simp add: sealed_files_def fun_eq_iff)

lemma replay_files_sealed:
  assumes "calm st" and "sealed_files crc st (ws_current_file_id (ld_writer ld)) rs sealed"
  shows "\<exists>n ld'. replay_files crc (rs @ rest) ld st = replay_files crc rest ld' (st\<lparr>os_ticks := n\<rparr>) \<and>
                 replayed (log_ops sealed) ld ld'"
  using assms
proof (induction rs arbitrary: sealed ld st)
  case Nil
  then show ?case
    by (intro exI [of _ "os_ticks st"] exI [of _ ld]) (simp add: sealed_files_def replayed_def log_ops_def)
next
  case (Cons r rs)
  obtain i fd where r: "r = (i, fd)" by (cases r)
  from Cons.prems(2) r obtain cs sealed' where s: "sealed = (i, cs) # sealed'"
    and f: "file_content st fd = log_bytes crc cs" "list_all command_fits cs"
      "length (file_content st fd) < 2 ^ 64" "hint_ok crc st i cs" "i \<noteq> ws_current_file_id (ld_writer ld)"
    and rest: "sealed_files crc st (ws_current_file_id (ld_writer ld)) rs sealed'"
    by (auto simp: sealed_files_def list_all2_Cons1)
  obtain n ld' where step: "replay_file crc i fd ld st = (Inr (True, ld'), st\<lparr>os_ticks := n\<rparr>)"
    and ld': "replayed (data_ops i 0 cs) ld ld'"
    using replay_file_sealed [OF Cons.prems(1) f] by blast
  have "sealed_files crc (st\<lparr>os_ticks := n\<rparr>) (ws_current_file_id (ld_writer ld')) rs sealed'"
    using rest ld' by (simp add: replayed_def)
  with Cons.IH [of "st\<lparr>os_ticks := n\<rparr>" ld' sealed'] Cons.prems(1)
  obtain m ld'' where "replay_files crc (rs @ rest) ld' (st\<lparr>os_ticks := n\<rparr>) =
      replay_files crc rest ld'' (st\<lparr>os_ticks := m\<rparr>)" "replayed (log_ops sealed') ld' ld''"
    by auto
  with step r s replayed_trans [OF ld'] show ?case by (auto simp: log_ops_def)
qed

text \<open>The active file, with or without a torn tail.\<close>

definition cut_file :: "nat \<Rightarrow> nat \<Rightarrow> 'a os_scheme \<Rightarrow> 'a os_scheme" where
  "cut_file fd n st =
     st\<lparr>os_inodes := (os_inodes st)[fd := (os_inodes st ! fd)\<lparr>content := take n (file_content st fd),
          synced := min n (synced (os_inodes st ! fd))\<rparr>]\<rparr>"

lemma replay_active:
  assumes calm: "calm st" and cs: "file_content st fd = log_bytes crc cs @ tail" "list_all command_fits cs"
    and len: "length (file_content st fd) < 2 ^ 64" and tail: "tail = [] \<or> \<not> has_frame tail"
    and cur: "ws_current_file_id (ld_writer ld) = cur" "ws_file (ld_writer ld) = fd"
  shows "\<exists>n ld'. replay_files crc [(cur, fd)] ld st =
      (Inr ld', (if tail = [] then st else cut_file fd (length (log_bytes crc cs)) st)\<lparr>os_ticks := n\<rparr>) \<and>
     replayed (data_ops cur 0 cs) ld ld' \<and> ws_offset (ld_writer ld') = of_nat (length (log_bytes crc cs))"
proof (cases "tail = []")
  case True
  then have "file_content st fd = log_bytes crc cs" using cs(1) by simp
  with True show ?thesis
    using replay_data_calm [OF calm _ cs(2) len, where i = cur and ld = ld and crc = crc] cur
    by (auto simp: replay_file_def)
next
  case False
  let ?ld = "replay_commands cur 0 cs (ld_upd_writer (\<lambda>w. w\<lparr>ws_offset := 0\<rparr>) ld)"
  let ?ld' = "ld_upd_writer (\<lambda>w. w\<lparr>ws_offset := of_nat (length (log_bytes crc cs))\<rparr>) ?ld"
  have "length (log_bytes crc cs) \<le> length (file_content st fd)" using cs(1) by simp
  then have "replay_data crc cur fd ld st =
      (Inr (False, ?ld'),
       (cut_file fd (length (log_bytes crc cs)) st)\<lparr>os_ticks := Suc (Suc (Suc (Suc (os_ticks st))))\<rparr>)"
    using data_loop_torn [OF cs(1,2) len False, where i = cur and st = "st\<lparr>os_ticks := Suc (Suc (Suc (os_ticks st)))\<rparr>"] tail False cur calm
    by (simp add: replay_data_def calm_calls reader_new ld_upd_writer_def cut_file_def)
  moreover have "replayed (data_ops cur 0 cs) ld ?ld'"
    using replayed_commands [of cur cs "ld_upd_writer (\<lambda>w. w\<lparr>ws_offset := 0\<rparr>) ld"] by simp
  moreover have "ws_offset (ld_writer ?ld') = of_nat (length (log_bytes crc cs))"
    by (simp add: ld_upd_writer_def)
  ultimately show ?thesis
    using False cur by (auto simp: replay_file_def)
qed

section \<open>Loading a log\<close>

lemma foldl_bt_insert:
  assumes "bt_ok m"
  shows "bt_ok (foldl (\<lambda>m (i, fd). bt_insert i fd m) m fs)"
    and "fst ` set (foldl (\<lambda>m (i, fd). bt_insert i fd m) m fs) = fst ` set m \<union> fst ` set fs"
    and "set (foldl (\<lambda>m (i, fd). bt_insert i fd m) m fs) \<subseteq> set m \<union> set fs"
proof -
  show "bt_ok (foldl (\<lambda>m (i, fd). bt_insert i fd m) m fs)"
    using assms by (induction fs arbitrary: m) (auto simp: bt_ok_insert)
  show "fst ` set (foldl (\<lambda>m (i, fd). bt_insert i fd m) m fs) = fst ` set m \<union> fst ` set fs"
    by (induction fs arbitrary: m) (simp_all add: keys_bt_insert case_prod_beta)
  show "set (foldl (\<lambda>m (i, fd). bt_insert i fd m) m fs) \<subseteq> set m \<union> set fs"
  proof (induction fs arbitrary: m)
    case (Cons f fs)
    have "set (foldl (\<lambda>m (i, fd). bt_insert i fd m) m (f # fs)) \<subseteq>
        set (bt_insert (fst f) (snd f) m) \<union> set fs"
      using Cons.IH [of "bt_insert (fst f) (snd f) m"] by (cases f) simp
    also have "\<dots> \<subseteq> set m \<union> set (f # fs)" using set_bt_insert [of "fst f" "snd f" m] by auto
    finally show ?case .
  qed simp
qed

lemma foldl_max_opt:
  assumes "\<forall>i \<in> set is. i \<le> c" and "c \<in> set is \<or> mx = Some c" and "\<forall>m. mx = Some m \<longrightarrow> m \<le> c"
  shows "foldl max_opt mx is = Some (c :: u64)"
  using assms
proof (induction "is" arbitrary: mx)
  case (Cons i "is")
  have "foldl max_opt (max_opt mx i) is = Some c"
    by (rule Cons.IH) (use Cons.prems in \<open>auto simp: max_opt_def max_def split: option.splits\<close>)
  then show ?case by simp
qed simp

lemma scan_files_iff:
  "(i, fd) \<in> set (scan_files es) \<longleftrightarrow> (\<exists>(name, entry) \<in> set es. scan_file name entry = Some (i, fd))"
  by (induction es rule: scan_files.induct) (auto split: option.splits)

lemma utf8_data_file_name [simp]: "utf8_valid (to_bytes (data_file_name i))"
proof (rule utf8_valid_ascii)
  fix b assume "b \<in> set (to_bytes (data_file_name i))"
  then obtain c where c: "c \<in> set (data_file_name i)" and b: "b = of_nat (of_char c)"
    by (auto simp: to_bytes_def)
  have "list_all is_digit (pad_zeros 6 (show_nat (unat i)))" by (rule pad_show_digits)
  with c have "is_digit c \<or> c \<in> set ''.data''"
    by (auto simp: data_file_name_def list_all_iff)
  then have "(of_char c :: nat) < 0x80" by (auto simp: is_digit_def)
  then have "unat b < unat (0x80 :: byte)"
    unfolding b by (simp add: unat_of_nat_of_char)
  then show "b < 0x80" by (simp add: word_less_nat_alt)
qed

lemma disk_log_scan_files:
  assumes log: "disk_log crc st sealed cur cs tail"
  shows "(i, fd) \<in> set (scan_files (os_dir st)) \<longleftrightarrow>
           map_of (os_dir st) (data_file_name i) = Some (File_Entry fd)"
proof -
  note d = disk_logD(1) [OF log]
  have names: "name = data_file_name i"
    if "(name, entry) \<in> set (os_dir st)" "scan_file name entry = Some (i, fd)" for name entry i fd
    using disk_logD(9) [OF log that] .
  have entry_eq: "scan_file (data_file_name i) entry = Some (i, fd) \<longleftrightarrow> entry = File_Entry fd" for entry
    by (simp add: scan_file_def split: dir_entry.split)
  have "(i, fd) \<in> set (scan_files (os_dir st)) \<longleftrightarrow> (data_file_name i, File_Entry fd) \<in> set (os_dir st)"
  proof
    assume "(i, fd) \<in> set (scan_files (os_dir st))"
    then obtain name entry where e: "(name, entry) \<in> set (os_dir st)" "scan_file name entry = Some (i, fd)"
      by (auto simp: scan_files_iff)
    with names [OF e] show "(data_file_name i, File_Entry fd) \<in> set (os_dir st)"
      using entry_eq [of entry] by simp
  next
    assume "(data_file_name i, File_Entry fd) \<in> set (os_dir st)"
    with entry_eq [of "File_Entry fd"] show "(i, fd) \<in> set (scan_files (os_dir st))"
      unfolding scan_files_iff by (intro bexI) auto
  qed
  then show ?thesis using map_of_eq_Some_iff [OF d] by simp
qed

lemma hint_not_compact: "\<not> ends_with (hint_file_name i) ''.data.compact''"
proof
  assume "ends_with (hint_file_name i) ''.data.compact''"
  then obtain p where p: "hint_file_name i = p @ ''.data.compact''"
    by (metis ends_with_def append_take_drop_id)
  have "hint_file_name i ! (length (hint_file_name i) - 2) = CHR ''n''"
    by (simp add: hint_file_name_def nth_append)
  then show False unfolding p by (simp add: nth_append)
qed

lemma leftover_hint:
  "map_of dir (data_file_name i) \<noteq> None \<Longrightarrow> \<not> leftover dir (hint_file_name i)"
  by (simp add: leftover_def hint_not_compact)

lemma disk_log_scanned:
  assumes log: "disk_log crc st sealed cur cs tail" and sc: "scanned names st st'"
  shows "disk_log crc st' sealed cur cs tail"
proof -
  have c: "file_content st' = file_content st" "length (os_inodes st') = length (os_inodes st)"
    using sc by (simp_all add: scanned_def file_content_def fun_eq_iff)
  have data: "map_of (os_dir st') (data_file_name i) = map_of (os_dir st) (data_file_name i)" for i
    using sc leftover_not_data [of "os_dir st" "data_file_name i" i] by (auto simp: scanned_def)
  then have f: "file_ok st' = file_ok st" using c by (simp add: fun_eq_iff file_ok_def)
  have h: "hint_ok crc st' i ds" if "file_ok st i bs" "hint_ok crc st i ds" for i bs ds
  proof -
    have "map_of (os_dir st) (data_file_name i) \<noteq> None" using that(1) by (auto simp: file_ok_def)
    then have "map_of (os_dir st') (hint_file_name i) = map_of (os_dir st) (hint_file_name i)"
      using sc leftover_hint [of "os_dir st" i] by (simp add: scanned_def)
    then have "hint_ok crc st' i ds = hint_ok crc st i ds" by (rule hint_ok_cong) (simp add: c)
    with that(2) show ?thesis by simp
  qed
  have d: "distinct (map fst (os_dir st))" "distinct (map fst (os_dir st'))"
    using disk_logD(1) [OF log] sc by (simp_all add: scanned_def)
  have sub: "set (os_dir st') \<subseteq> set (os_dir st)"
  proof
    fix e assume "e \<in> set (os_dir st')"
    then have "map_of (os_dir st') (fst e) = Some (snd e)" using d(2) by simp
    then have "map_of (os_dir st) (fst e) = Some (snd e)"
      using sc by (auto simp: scanned_def split: if_splits)
    then show "e \<in> set (os_dir st)" using d(1) by (metis map_of_SomeD prod.collapse)
  qed
  show ?thesis
  proof (rule disk_logI)
    show "file_ok st' i (log_bytes crc ds)" if "(i, ds) \<in> set sealed" for i ds
      using disk_logD(4) [OF log that] f by simp
    show "hint_ok crc st' i ds" if "(i, ds) \<in> set sealed" for i ds
      using disk_logD(4,5) [OF log that] h by simp
    show "file_ok st' cur (log_bytes crc cs @ tail)" using disk_logD(7) [OF log] f by simp
    show "i \<in> set (map fst sealed @ [cur])" if "map_of (os_dir st') (data_file_name i) \<noteq> None" for i
      using that disk_logD(8) [OF log] unfolding data by blast
    show "name = data_file_name i"
      if "(name, entry) \<in> set (os_dir st')" "scan_file name entry = Some (i, fd)" for name entry i fd
      using that sub disk_logD(9) [OF log] by blast
  qed (use d(2) disk_logD(2,3,6) [OF log] in simp_all)
qed

text \<open>The result of loading a log.\<close>

definition loaded ::
  "(bytes \<Rightarrow> u32) \<Rightarrow> log \<Rightarrow> u64 \<Rightarrow> command list \<Rightarrow> loader \<Rightarrow> 'a os_scheme \<Rightarrow> bool" where
  "loaded crc sealed cur cs ld st \<longleftrightarrow>
     disk_log crc st sealed cur cs [] \<and> bt_ok (ld_readers ld) \<and>
     (\<forall>i fd. bt_get (ld_readers ld) i = Some fd \<longleftrightarrow>
        map_of (os_dir st) (data_file_name i) = Some (File_Entry fd)) \<and>
     buckets_ok (ld_index ld) \<and>
     buckets_lookup (ld_index ld) = log_index (sealed @ [(cur, cs)]) \<and>
     ws_current_file_id (ld_writer ld) = cur \<and>
     map_of (os_dir st) (data_file_name cur) = Some (File_Entry (ws_file (ld_writer ld))) \<and>
     ws_offset (ld_writer ld) = of_nat (length (log_bytes crc cs))"

lemma disk_log_file_ok:
  assumes log: "disk_log crc st sealed cur cs tail" and i: "i \<in> set (map fst sealed @ [cur])"
  shows "\<exists>bs. file_ok st i bs"
proof (cases "i = cur")
  case True
  then show ?thesis using disk_logD(7) [OF log] by blast
next
  case False
  with i obtain ds where "(i, ds) \<in> set sealed" by auto
  then show ?thesis using disk_logD(4) [OF log] by blast
qed

lemma disk_log_ids:
  assumes log: "disk_log crc st sealed cur cs tail"
  shows "(\<exists>fd. map_of (os_dir st) (data_file_name i) = Some (File_Entry fd)) \<longleftrightarrow>
           i \<in> set (map fst sealed @ [cur])"
proof
  assume "\<exists>fd. map_of (os_dir st) (data_file_name i) = Some (File_Entry fd)"
  then have "map_of (os_dir st) (data_file_name i) \<noteq> None" by auto
  then show "i \<in> set (map fst sealed @ [cur])" by (rule disk_logD(8) [OF log])
next
  assume "i \<in> set (map fst sealed @ [cur])"
  then have "\<exists>bs. file_ok st i bs" by (rule disk_log_file_ok [OF log])
  then show "\<exists>fd. map_of (os_dir st) (data_file_name i) = Some (File_Entry fd)"
    by (auto simp: file_ok_def)
qed

lemma disk_log_readers:
  assumes log: "disk_log crc st sealed cur cs tail"
  defines "rs \<equiv> foldl (\<lambda>m (i, fd). bt_insert i fd m) [] (scan_files (os_dir st))"
  shows "bt_ok rs" and "map fst rs = map fst sealed @ [cur]"
    and "(i, fd) \<in> set rs \<Longrightarrow> map_of (os_dir st) (data_file_name i) = Some (File_Entry fd)"
proof -
  show ok: "bt_ok rs" unfolding rs_def by (rule foldl_bt_insert) simp
  have keys: "fst ` set rs = fst ` set (scan_files (os_dir st))"
    unfolding rs_def by (subst foldl_bt_insert) simp_all
  have sub: "set rs \<subseteq> set (scan_files (os_dir st))"
    using foldl_bt_insert(3) [of "[]" "scan_files (os_dir st)"] by (simp add: rs_def)
  show "map_of (os_dir st) (data_file_name i) = Some (File_Entry fd)" if "(i, fd) \<in> set rs"
    using sub that disk_log_scan_files [OF log] by blast
  have "set (map fst rs) = set (map fst sealed @ [cur])"
  proof -
    have "i \<in> fst ` set (scan_files (os_dir st)) \<longleftrightarrow> (\<exists>fd. (i, fd) \<in> set (scan_files (os_dir st)))" for i
      by force
    then have "i \<in> fst ` set rs \<longleftrightarrow> i \<in> set (map fst sealed @ [cur])" for i
      using keys disk_log_scan_files [OF log] disk_log_ids [OF log] by simp
    then show ?thesis unfolding set_map [of fst rs] by blast
  qed
  moreover have "sorted_wrt (<) (map fst rs)" "sorted_wrt (<) (map fst sealed @ [cur])"
    using ok disk_logD(2) [OF log] by (simp_all add: bt_ok_def)
  ultimately show "map fst rs = map fst sealed @ [cur]"
    by (meson sorted_distinct_set_unique strict_sorted_iff)
qed

lemma disk_log_max:
  assumes log: "disk_log crc st sealed cur cs tail"
  shows "foldl max_opt None (map fst (scan_files (os_dir st))) = Some cur"
proof (rule foldl_max_opt)
  have below: "i \<le> cur" if "i \<in> set (map fst sealed @ [cur])" for i
    using disk_logD(2) [OF log] that by (auto simp: sorted_wrt_append)
  show "\<forall>i \<in> set (map fst (scan_files (os_dir st))). i \<le> cur"
  proof
    fix i assume "i \<in> set (map fst (scan_files (os_dir st)))"
    then obtain fd where "(i, fd) \<in> set (scan_files (os_dir st))" by auto
    then have "i \<in> set (map fst sealed @ [cur])"
      using disk_log_scan_files [OF log] disk_log_ids [OF log] by blast
    then show "i \<le> cur" by (rule below)
  qed
  obtain fd where "map_of (os_dir st) (data_file_name cur) = Some (File_Entry fd)"
    using disk_logD(7) [OF log] by (auto simp: file_ok_def)
  then have "(cur, fd) \<in> set (scan_files (os_dir st))" using disk_log_scan_files [OF log] by blast
  then show "cur \<in> set (map fst (scan_files (os_dir st))) \<or> None = Some cur" by force
qed simp

text \<open>Cutting the torn tail of the active file leaves the log as it is.\<close>

lemma disk_log_tick [simp]: "disk_log crc (st\<lparr>os_ticks := n\<rparr>) = disk_log crc st"
  by (simp add: fun_eq_iff disk_log_def file_ok_def)

lemma disk_log_fd:
  assumes log: "disk_log crc st sealed cur cs tail"
    and "map_of (os_dir st) (data_file_name i) = Some (File_Entry fd)"
  shows "fd < length (os_inodes st)"
    and "i = cur \<Longrightarrow> file_content st fd = log_bytes crc cs @ tail"
    and "(i, ds) \<in> set sealed \<Longrightarrow> file_content st fd = log_bytes crc ds"
    and "length (file_content st fd) \<le> MAX_FILE_LEN"
proof -
  have "i \<in> set (map fst sealed @ [cur])" using assms disk_log_ids [OF log] by blast
  then obtain bs where f: "file_ok st i bs" using disk_log_file_ok [OF log] by blast
  with assms(2) show "fd < length (os_inodes st)" "length (file_content st fd) \<le> MAX_FILE_LEN"
    by (auto simp: file_ok_def)
  show "file_content st fd = log_bytes crc cs @ tail" if "i = cur"
    using that assms(2) disk_logD(7) [OF log] by (simp add: file_ok_def)
  show "file_content st fd = log_bytes crc ds" if "(i, ds) \<in> set sealed"
    using assms(2) disk_logD(4) [OF log that] by (simp add: file_ok_def)
qed

text \<open>The names of a directory are distinct, and no two of them are links to one file.\<close>

definition dir_wf :: "'a os_scheme \<Rightarrow> bool" where
  "dir_wf st \<longleftrightarrow>
     distinct (map fst (os_dir st)) \<and>
     (\<forall>name fd. map_of (os_dir st) name = Some (File_Entry fd) \<longrightarrow> fd < length (os_inodes st)) \<and>
     (\<forall>m n fd. map_of (os_dir st) m = Some (File_Entry fd) \<longrightarrow>
        map_of (os_dir st) n = Some (File_Entry fd) \<longrightarrow> m = n)"

lemma dir_wfD:
  assumes "dir_wf st"
  shows "distinct (map fst (os_dir st))"
    and "map_of (os_dir st) name = Some (File_Entry fd) \<Longrightarrow> fd < length (os_inodes st)"
    and "map_of (os_dir st) m = Some (File_Entry fd) \<Longrightarrow> map_of (os_dir st) n = Some (File_Entry fd) \<Longrightarrow> m = n"
  using assms unfolding dir_wf_def by blast+

lemma cut_file_fields [simp]:
  "os_dir (cut_file fd n st) = os_dir st"
  "length (os_inodes (cut_file fd n st)) = length (os_inodes st)"
  "os_faults (cut_file fd n st) = os_faults st" "os_clock (cut_file fd n st) = os_clock st"
  "os_flocks (cut_file fd n st) = os_flocks st" "os.more (cut_file fd n st) = os.more st"
  by (simp_all add: cut_file_def)

lemma cut_file_content:
  "fd < length (os_inodes st) \<Longrightarrow>
     file_content (cut_file fd n st) x = (if x = fd then take n (file_content st fd) else file_content st x)"
  by (simp add: cut_file_def file_content_def)

lemma disk_log_cut:
  assumes log: "disk_log crc st sealed cur cs tail" and links: "dir_wf st"
    and fd: "map_of (os_dir st) (data_file_name cur) = Some (File_Entry fd)"
  shows "disk_log crc (cut_file fd (length (log_bytes crc cs)) st) sealed cur cs []"
proof (rule disk_logI)
  let ?st = "cut_file fd (length (log_bytes crc cs)) st"
  note fdl = disk_log_fd(1) [OF log fd]
  have other: "file_content ?st x = file_content st x"
    if "map_of (os_dir st) name = Some (File_Entry x)" "name \<noteq> data_file_name cur" for name x
    using that fd links fdl by (auto simp: dir_wf_def cut_file_content)
  have sorted: "i \<noteq> cur" if "(i, ds) \<in> set sealed" for i ds
    using disk_logD(2) [OF log] that by (force simp: sorted_wrt_append)
  show "file_ok ?st i (log_bytes crc ds)" if s: "(i, ds) \<in> set sealed" for i ds
    using disk_logD(4) [OF log s] other sorted [OF s] by (auto simp: file_ok_def)
  show "hint_ok crc ?st i ds" if s: "(i, ds) \<in> set sealed" for i ds
    using disk_logD(5) [OF log s] other [of "hint_file_name i"]
    by (subst hint_ok_cong [of _ _ st]) simp_all
  show "file_ok ?st cur (log_bytes crc cs @ [])"
    using disk_logD(7) [OF log] fd fdl by (simp add: file_ok_def cut_file_content)
  show "i \<in> set (map fst sealed @ [cur])" if "map_of (os_dir ?st) (data_file_name i) \<noteq> None" for i
    using that disk_logD(8) [OF log] by simp
  show "name = data_file_name i"
    if "(name, entry) \<in> set (os_dir ?st)" "scan_file name entry = Some (i, x)" for name entry i x
    using that disk_logD(9) [OF log] by simp
qed (use disk_logD(1,2,3,6) [OF log] in simp_all)

lemma bt_insert_same: "bt_ok m \<Longrightarrow> (k, v) \<in> set m \<Longrightarrow> bt_insert k v m = m"
  by (induction m) (fastforce simp: bt_ok_Cons)+

lemma bt_get_set: "bt_ok m \<Longrightarrow> bt_get m k = Some v \<longleftrightarrow> (k, v) \<in> set m"
  by (rule bt_get_Some_iff)

lemma sealed_files_disk:
  assumes log: "disk_log crc st sealed cur cs tail" and rs: "map fst rs = map fst sealed"
    and fds: "\<And>i fd. (i, fd) \<in> set rs \<Longrightarrow> map_of (os_dir st) (data_file_name i) = Some (File_Entry fd)"
  shows "sealed_files crc st cur rs sealed"
proof -
  have "list_all2 (\<lambda>(i, fd) (j, cs). j = i \<and> i \<noteq> cur \<and> file_content st fd = log_bytes crc cs \<and>
       list_all command_fits cs \<and> length (file_content st fd) < 2 ^ 64 \<and> hint_ok crc st i cs) rs sealed"
    (is "list_all2 ?P rs sealed")
  proof (rule list_all2_all_nthI)
    show len: "length rs = length sealed" using rs by (metis length_map)
    fix k assume k: "k < length rs"
    obtain i fd where r: "rs ! k = (i, fd)" by (cases "rs ! k")
    obtain j ds where s: "sealed ! k = (j, ds)" by (cases "sealed ! k")
    have ij: "j = i" using rs k len r s by (metis fst_conv nth_map)
    have mem: "(i, ds) \<in> set sealed" using k len s ij by (metis nth_mem)
    have "(i, fd) \<in> set rs" using k r by (metis nth_mem)
    then have d: "map_of (os_dir st) (data_file_name i) = Some (File_Entry fd)" by (rule fds)
    have "i \<noteq> cur" using disk_logD(2) [OF log] mem by (force simp: sorted_wrt_append)
    moreover have "length (file_content st fd) < 2 ^ 64"
      using disk_log_fd(4) [OF log d] MAX_FILE_LEN_less by simp
    ultimately show "?P (rs ! k) (sealed ! k)"
      using r s ij disk_log_fd(3) [OF log d mem] command_ok_fits [OF disk_logD(3) [OF log mem]]
        disk_logD(5) [OF log mem] by simp
  qed
  then show ?thesis by (simp only: sealed_files_def)
qed

text \<open>
  Loading: whatever the order of the directory listing, whatever leftovers it has and wherever the
  last record is torn.
\<close>

lemma dir_wf_scanned:
  assumes wf: "dir_wf st" and sc: "scanned names st st'"
  shows "dir_wf st'"
proof -
  have sub: "map_of (os_dir st) name = Some e" if "map_of (os_dir st') name = Some e" for name e
    using that sc by (simp add: scanned_def split: if_splits)
  have same: "distinct (map fst (os_dir st'))" "os_inodes st' = os_inodes st"
    using wf sc by (simp_all add: dir_wf_def scanned_def)
  show ?thesis
    unfolding dir_wf_def same(2)
  proof (intro conjI allI impI)
    fix name fd assume "map_of (os_dir st') name = Some (File_Entry fd)"
    then show "fd < length (os_inodes st)" by (rule dir_wfD(2) [OF wf sub])
  next
    fix m n fd
    assume "map_of (os_dir st') m = Some (File_Entry fd)" "map_of (os_dir st') n = Some (File_Entry fd)"
    then show "m = n" by (rule dir_wfD(3) [OF wf sub sub])
  qed (rule same)
qed

lemma replay_disk_log:
  assumes calm: "calm st" and log: "disk_log crc st sealed cur cs tail"
    and links: "dir_wf st" and tail: "tail = [] \<or> \<not> has_frame tail"
    and rs: "bt_ok rs" "map fst rs = map fst sealed @ [cur]"
    and fds: "\<And>i fd. (i, fd) \<in> set rs \<Longrightarrow> map_of (os_dir st) (data_file_name i) = Some (File_Entry fd)"
    and fd: "map_of (os_dir st) (data_file_name cur) = Some (File_Entry fd)"
    and ld: "ld_readers ld = rs" "ld_index ld = buckets_empty" "ws_current_file_id (ld_writer ld) = cur"
      "ws_file (ld_writer ld) = fd"
  shows "\<exists>n ld'. replay crc ld st =
      (Inr ld', (if tail = [] then st else cut_file fd (length (log_bytes crc cs)) st)\<lparr>os_ticks := n\<rparr>) \<and>
      loaded crc sealed cur cs ld'
        (if tail = [] then st else cut_file fd (length (log_bytes crc cs)) st)"
proof -
  obtain rs' x where rs': "rs = rs' @ [(cur, x)]" "map fst rs' = map fst sealed"
    using rs(2) by (cases rs rule: rev_cases) auto
  have "x = fd" using fds [of cur x] fd rs'(1) by simp
  note rs' = rs' [unfolded this]
  have "sealed_files crc st (ws_current_file_id (ld_writer ld)) rs' sealed"
    using sealed_files_disk [OF log rs'(2)] fds rs'(1) ld(3) by simp
  from replay_files_sealed [OF calm this, of "[(cur, fd)]"]
  obtain n ld1 where run1: "replay_files crc rs ld st = replay_files crc [(cur, fd)] ld1 (st\<lparr>os_ticks := n\<rparr>)"
    and ld1: "replayed (log_ops sealed) ld ld1"
    unfolding rs'(1) by blast
  let ?st = "st\<lparr>os_ticks := n\<rparr>"
  have "calm ?st" "file_content ?st fd = log_bytes crc cs @ tail" "length (file_content ?st fd) < 2 ^ 64"
    using calm disk_log_fd(2,4) [OF log fd] MAX_FILE_LEN_less by simp_all
  moreover have "list_all command_fits cs" by (rule command_ok_fits [OF disk_logD(6) [OF log]])
  moreover have "ws_current_file_id (ld_writer ld1) = cur" "ws_file (ld_writer ld1) = fd"
    using ld1 ld by (simp_all add: replayed_def)
  ultimately obtain m ld2 where run2: "replay_files crc [(cur, fd)] ld1 ?st =
      (Inr ld2, (if tail = [] then ?st else cut_file fd (length (log_bytes crc cs)) ?st)\<lparr>os_ticks := m\<rparr>)"
    and ld2: "replayed (data_ops cur 0 cs) ld1 ld2"
      "ws_offset (ld_writer ld2) = of_nat (length (log_bytes crc cs))"
    using replay_active [of ?st fd crc cs tail ld1 cur] tail by blast
  have "(if tail = [] then ?st else cut_file fd (length (log_bytes crc cs)) ?st)\<lparr>os_ticks := m\<rparr> =
      (if tail = [] then st else cut_file fd (length (log_bytes crc cs)) st)\<lparr>os_ticks := m\<rparr>"
    by (simp add: cut_file_def)
  moreover have "replayed (log_ops (sealed @ [(cur, cs)])) ld ld2"
    using replayed_trans [OF ld1 ld2(1)] by (simp add: log_ops_def)
  then have "ld_readers ld2 = rs" "ws_current_file_id (ld_writer ld2) = cur" "ws_file (ld_writer ld2) = fd"
    "buckets_ok (ld_index ld2) \<and> buckets_lookup (ld_index ld2) = log_index (sealed @ [(cur, cs)])"
    using ld bk.lookup_run_ops [of buckets_empty "log_ops (sealed @ [(cur, cs)])"]
    by (simp_all add: replayed_def log_index_def)
  moreover have "disk_log crc (if tail = [] then st else cut_file fd (length (log_bytes crc cs)) st) sealed cur cs []"
    using log disk_log_cut [OF log links fd] by auto
  moreover have "bt_get rs i = Some y \<longleftrightarrow> map_of (os_dir st) (data_file_name i) = Some (File_Entry y)" for i y
  proof
    assume "bt_get rs i = Some y"
    then show "map_of (os_dir st) (data_file_name i) = Some (File_Entry y)"
      using fds bt_get_set [OF rs(1)] by blast
  next
    assume y: "map_of (os_dir st) (data_file_name i) = Some (File_Entry y)"
    then have "i \<in> set (map fst rs)" using disk_log_ids [OF log] rs(2) by metis
    then obtain z where "(i, z) \<in> set rs" by auto
    with fds y bt_get_set [OF rs(1)] show "bt_get rs i = Some y" by fastforce
  qed
  ultimately show ?thesis
    using run1 run2 ld(1) ld2(2) rs(1) fd by (auto simp: replay_def loaded_def)
qed

text \<open>What \<open>load\<close> leaves of the directory: everything but the leftovers.\<close>

definition cleaned_dir :: "'a os_scheme \<Rightarrow> string \<rightharpoonup> dir_entry" where
  "cleaned_dir st = (\<lambda>name. if leftover (os_dir st) name then None else map_of (os_dir st) name)"

lemma leftover_in_dir: "leftover dir name \<Longrightarrow> name \<in> fst ` set dir"
  by (auto simp: leftover_def dest!: map_of_SomeD intro: rev_image_eqI)

lemma scan_dir_calm:
  assumes calm: "calm st" and d: "distinct (map fst (os_dir st))"
  shows "\<exists>st'. scan (os_dir st) [] None (tick st) =
      (Inr (foldl (\<lambda>m (i, fd). bt_insert i fd m) [] (scan_files (os_dir st)),
            foldl max_opt None (map fst (scan_files (os_dir st)))), st') \<and>
      scanned (fst ` set (os_dir st)) st st' \<and> map_of (os_dir st') = cleaned_dir st"
proof -
  have "\<forall>(name, entry) \<in> set (os_dir st). map_of (os_dir (tick st)) name = Some entry"
    using d by simp
  then obtain st' where run: "scan (os_dir st) [] None (tick st) =
      (Inr (foldl (\<lambda>m (i, fd). bt_insert i fd m) [] (scan_files (os_dir st)),
            foldl max_opt None (map fst (scan_files (os_dir st)))), st')"
    and sc: "scanned (fst ` set (os_dir st)) (tick st) st'"
    using scan_calm [of "tick st" "os_dir st" "[]" None] calm d by auto
  have sc': "scanned (fst ` set (os_dir st)) st st'"
    using sc unfolding scanned_def by (auto simp: fun_eq_iff)
  have "map_of (os_dir st') = cleaned_dir st"
    using sc' leftover_in_dir [of "os_dir st"] by (auto simp: scanned_def cleaned_dir_def fun_eq_iff)
  with run sc' show ?thesis by blast
qed

definition os_frame :: "'a os_scheme \<Rightarrow> 'a os_scheme \<Rightarrow> bool" where
  "os_frame st st' \<longleftrightarrow>
     os_faults st' = os_faults st \<and> os_clock st' = os_clock st \<and> os_flocks st' = os_flocks st \<and>
     os.more st' = os.more st"

lemma load_disk_log:
  assumes calm: "calm st" and log: "disk_log crc st sealed cur cs tail"
    and wf: "dir_wf st" and tail: "tail = [] \<or> \<not> has_frame tail"
  shows "\<exists>ld st'. load crc st = (Inr ld, st') \<and> loaded crc sealed cur cs ld st' \<and> dir_wf st' \<and>
     os_frame st st' \<and> map_of (os_dir st') = cleaned_dir st"
proof -
  define rs where "rs = foldl (\<lambda>m (i, fd). bt_insert i fd m) [] (scan_files (os_dir st))"
  obtain st1 where run1: "scan (os_dir st) [] None (tick st) = (Inr (rs, Some cur), st1)"
    and sc: "scanned (fst ` set (os_dir st)) st st1" and dir1: "map_of (os_dir st1) = cleaned_dir st"
    using scan_dir_calm [OF calm disk_logD(1) [OF log]] disk_log_max [OF log] by (auto simp: rs_def)
  have calm1: "calm st1" using sc calm by (simp add: scanned_def calm_def)
  note log1 = disk_log_scanned [OF log sc] and wf1 = dir_wf_scanned [OF wf sc]
  have data: "map_of (os_dir st1) (data_file_name i) = map_of (os_dir st) (data_file_name i)" for i
    using dir1 leftover_not_data [of "os_dir st" "data_file_name i" i] by (auto simp: cleaned_dir_def)
  note rs = disk_log_readers [OF log, folded rs_def]
  obtain fd where fd: "map_of (os_dir st1) (data_file_name cur) = Some (File_Entry fd)"
    using disk_logD(7) [OF log1] by (auto simp: file_ok_def)
  have same: "bt_insert cur fd rs = rs"
  proof (rule bt_insert_same [OF rs(1)])
    have "cur \<in> set (map fst rs)" using rs(2) by simp
    then obtain y where "(cur, y) \<in> set rs" by auto
    with rs(3) fd data show "(cur, fd) \<in> set rs" by fastforce
  qed
  obtain ns where now: "unix_now (tick st1) = (Inr ns, tick (tick st1))"
    using calm_unix_now [of "tick st1"] calm1 by auto
  let ?w = "\<lparr>ws_current_file_id = cur, ws_file = fd, ws_offset = 0, ws_flushed_offset = 0,
             ws_last_ts_flushed = as_millis ns, ws_stale_bytes_count = 0\<rparr>"
  let ?ld = "\<lparr>ld_readers = rs, ld_index = buckets_empty, ld_writer = ?w\<rparr>"
  let ?st = "tick (tick (tick st1))"
  have "load crc st = replay crc ?ld ?st"
    using run1 calm calm1 fd now same by (simp add: load_def calm_calls)
  moreover define last_st where
    "last_st = (if tail = [] then ?st else cut_file fd (length (log_bytes crc cs)) ?st)"
  moreover obtain n ld' where "replay crc ?ld ?st = (Inr ld', last_st\<lparr>os_ticks := n\<rparr>)"
    and ld': "loaded crc sealed cur cs ld' last_st"
  proof -
    have "\<exists>n ld'. replay crc ?ld ?st = (Inr ld', last_st\<lparr>os_ticks := n\<rparr>) \<and>
        loaded crc sealed cur cs ld' last_st"
      unfolding last_st_def
    proof (rule replay_disk_log)
      show "calm ?st" "disk_log crc ?st sealed cur cs tail" "dir_wf ?st"
        using calm1 log1 wf1 by (simp_all add: dir_wf_def)
      show "\<And>i fd. (i, fd) \<in> set rs \<Longrightarrow> map_of (os_dir ?st) (data_file_name i) = Some (File_Entry fd)"
        using rs(3) data by simp
      show "map_of (os_dir ?st) (data_file_name cur) = Some (File_Entry fd)" using fd by simp
    qed (use tail rs(1,2) in simp_all)
    then show thesis using that by blast
  qed
  moreover have "os_frame st st1" using sc by (simp add: os_frame_def scanned_def)
  then have "os_frame st (last_st\<lparr>os_ticks := n\<rparr>)" by (simp add: last_st_def os_frame_def)
  moreover have "os_dir last_st = os_dir st1" "length (os_inodes last_st) = length (os_inodes st1)"
    by (simp_all add: last_st_def)
  then have "dir_wf (last_st\<lparr>os_ticks := n\<rparr>)" "map_of (os_dir (last_st\<lparr>os_ticks := n\<rparr>)) = cleaned_dir st"
    using wf1 dir1 by (simp_all add: dir_wf_def)
  moreover have "loaded crc sealed cur cs ld' (last_st\<lparr>os_ticks := n\<rparr>)"
    using ld' by (simp add: loaded_def)
  ultimately show ?thesis by (intro exI [of _ ld'] exI [of _ "last_st\<lparr>os_ticks := n\<rparr>"]) simp
qed

end
