(* ===== verification/Log_Inv.thy ===== *)
theory Log_Inv
  imports Disk_Log
begin

text \<open>
  The invariant of a running store that ties it to its log: the index is the index of the log that
  the directory holds. It is kept by every write and by rotation, and it is what opening the
  directory again restores.
\<close>

section \<open>The index of a log points at its records\<close>

lemma entry_in_log_bytes:
  assumes "entry_in_log log key e v" and "\<And>i cs. (i, cs) \<in> set log \<Longrightarrow>
      \<exists>fd tail. bt_get (st_readers st) i = Some fd \<and> file_content st fd = log_bytes crc cs @ tail \<and>
        length (file_content st fd) \<le> MAX_FILE_LEN \<and> list_all command_ok cs"
  shows "entry_holds crc st key e v"
proof -
  from assms(1) obtain i pre ts post where mem: "(i, pre @ Command_Set ts key v # post) \<in> set log"
    and e: "e = \<lparr>iv_file_id = i, iv_ts = ts, iv_offset = of_nat (sum_list (map record_len pre)),
             iv_len = of_nat (record_len (Command_Set ts key v))\<rparr>"
    by (auto simp: entry_in_log_def)
  let ?cmd = "Command_Set ts key v" and ?a = "sum_list (map record_len pre)"
  obtain fd tail where fd: "bt_get (st_readers st) i = Some fd"
    and c: "file_content st fd = log_bytes crc (pre @ ?cmd # post) @ tail"
    and len: "length (file_content st fd) \<le> MAX_FILE_LEN"
    and ok: "list_all command_ok (pre @ ?cmd # post)"
    using assms(2) [OF mem] by blast
  have "?a + record_len ?cmd \<le> length (file_content st fd)"
    unfolding c by (simp add: length_log_bytes record_len_def)
  moreover from this len have "?a < 2 ^ 64" "record_len ?cmd < 2 ^ 64"
    using MAX_FILE_LEN_less by linarith+
  then have "unat (of_nat ?a :: u64) = ?a" "unat (of_nat (record_len ?cmd) :: u64) = record_len ?cmd"
    by (simp_all only: unat_u64_of_nat)
  moreover have "slice_of (file_content st fd) ?a (?a + record_len ?cmd) = command_serialize crc ?cmd"
    unfolding c by (simp add: slice_of_def length_log_bytes record_len_def)
  ultimately have "entry_bytes st e = Some (command_serialize crc ?cmd)"
    using fd by (simp add: entry_bytes_def e Let_def)
  with ok show ?thesis by (simp add: entry_holds_def e command_ok_def)
qed

section \<open>The invariant\<close>

text \<open>The store writes to the log in the directory and has a reader for each of its files.\<close>

definition log_base :: "(bytes \<Rightarrow> u32) \<Rightarrow> store \<Rightarrow> log \<Rightarrow> command list \<Rightarrow> bool" where
  "log_base crc st sealed cs \<longleftrightarrow>
     (let cur = ws_current_file_id (st_writer st) in
      store_inv crc st \<and> disk_log crc st sealed cur cs [] \<and> dir_wf st \<and>
      (\<forall>i fd. map_of (os_dir st) (data_file_name i) = Some (File_Entry fd) \<longrightarrow>
         bt_get (st_readers st) i = Some fd) \<and>
      (\<forall>i \<ge> cur. map_of (os_dir st) (hint_file_name i) = None))"

definition log_inv :: "(bytes \<Rightarrow> u32) \<Rightarrow> store \<Rightarrow> log \<Rightarrow> command list \<Rightarrow> bool" where
  "log_inv crc st sealed cs \<longleftrightarrow>
     log_base crc st sealed cs \<and>
     index_lookup (st_index st) = log_index (sealed @ [(ws_current_file_id (st_writer st), cs)])"

lemma log_baseD:
  assumes "log_base crc st sealed cs"
  shows "store_inv crc st" and "disk_log crc st sealed (ws_current_file_id (st_writer st)) cs []"
    and "dir_wf st"
    and "map_of (os_dir st) (data_file_name i) = Some (File_Entry fd) \<Longrightarrow> bt_get (st_readers st) i = Some fd"
    and "ws_current_file_id (st_writer st) \<le> i \<Longrightarrow> map_of (os_dir st) (hint_file_name i) = None"
  using assms unfolding log_base_def Let_def by blast+

lemma log_baseI:
  assumes "ws_current_file_id (st_writer st) = cur" and "store_inv crc st"
    and "disk_log crc st sealed cur cs []" and "dir_wf st"
    and "\<And>i fd. map_of (os_dir st) (data_file_name i) = Some (File_Entry fd) \<Longrightarrow>
      bt_get (st_readers st) i = Some fd"
    and "\<And>i. cur \<le> i \<Longrightarrow> map_of (os_dir st) (hint_file_name i) = None"
  shows "log_base crc st sealed cs"
  using assms unfolding log_base_def Let_def by blast

lemma log_invD:
  assumes "log_inv crc st sealed cs"
  shows "log_base crc st sealed cs"
    and "index_lookup (st_index st) = log_index (sealed @ [(ws_current_file_id (st_writer st), cs)])"
  using assms by (simp_all add: log_inv_def)

lemma log_file_content:
  assumes log: "disk_log crc st sealed cur cs tail" and mem: "(i, ds) \<in> set (sealed @ [(cur, cs)])"
  shows "\<exists>fd tl. map_of (os_dir st) (data_file_name i) = Some (File_Entry fd) \<and>
     file_content st fd = log_bytes crc ds @ tl \<and> length (file_content st fd) \<le> MAX_FILE_LEN \<and>
     list_all command_ok ds"
proof (cases "(i, ds) \<in> set sealed")
  case True
  then show ?thesis using disk_logD(3,4) [OF log True] by (auto simp: file_ok_def)
next
  case False
  with mem have "i = cur" "ds = cs" by auto
  then show ?thesis using disk_logD(6,7) [OF log] by (auto simp: file_ok_def)
qed

text \<open>The abstract store is the map that the log stands for.\<close>

lemma index_matches_view:
  assumes ix: "index_lookup (st_index st) = log_index log"
    and files: "\<And>i cs. (i, cs) \<in> set log \<Longrightarrow>
      \<exists>fd tail. bt_get (st_readers st) i = Some fd \<and> file_content st fd = log_bytes crc cs @ tail \<and>
        length (file_content st fd) \<le> MAX_FILE_LEN \<and> list_all command_ok cs"
  shows "entries_ok crc st" and "store_view crc st = log_view log"
proof -
  have m: "rel_option (entry_in_log log key) (index_lookup (st_index st) key) (log_view log key)" for key
    using log_index_matches [of log] by (simp add: ix index_matches_def)
  have holds: "entry_holds crc st key e v" if "entry_in_log log key e v" for key e v
    using that files by (rule entry_in_log_bytes)
  have val: "entry_value crc st e = Some v" if "entry_in_log log key e v" for key e v
    by (rule entry_holds_value [OF holds [OF that]])
  show "entries_ok crc st"
    unfolding entries_ok_def using m holds by (metis option_rel_Some1)
  show "store_view crc st = log_view log"
  proof
    fix key
    show "store_view crc st key = log_view log key"
      using m [of key] val [of key]
      by (cases "index_lookup (st_index st) key"; cases "log_view log key") (auto simp: store_view_def)
  qed
qed

lemma log_inv_view:
  assumes "log_inv crc st sealed cs"
  shows "store_view crc st = log_view (sealed @ [(ws_current_file_id (st_writer st), cs)])"
proof (rule index_matches_view(2) [OF log_invD(2) [OF assms]])
  fix i ds assume "(i, ds) \<in> set (sealed @ [(ws_current_file_id (st_writer st), cs)])"
  from log_file_content [OF log_baseD(2) [OF log_invD(1) [OF assms]] this]
  show "\<exists>fd tail. bt_get (st_readers st) i = Some fd \<and> file_content st fd = log_bytes crc ds @ tail \<and>
        length (file_content st fd) \<le> MAX_FILE_LEN \<and> list_all command_ok ds"
    using log_baseD(4) [OF log_invD(1) [OF assms]] by blast
qed

section \<open>Opening establishes it\<close>

lemma make_store_fields [simp]:
  "os_dir (make_store config lock ld st) = os_dir st"
  "os_inodes (make_store config lock ld st) = os_inodes st"
  "os_faults (make_store config lock ld st) = os_faults st"
  "os_clock (make_store config lock ld st) = os_clock st"
  "os_flocks (make_store config lock ld st) = os_flocks st"
  "st_index (make_store config lock ld st) = index_from (ld_index ld)"
  "st_readers (make_store config lock ld st) = ld_readers ld"
  "st_writer (make_store config lock ld st) = ld_writer ld"
  "st_writer_poisoned (make_store config lock ld st) = False"
  "st_config (make_store config lock ld st) = config"
  "st_lock_file (make_store config lock ld st) = lock"
  "file_content (make_store config lock ld st) = file_content st"
  by (simp_all add: make_store_def os.defs store.defs file_content_def fun_eq_iff)

lemma disk_log_cong:
  assumes "os_dir st' = os_dir st" and "length (os_inodes st') = length (os_inodes st)"
    and "file_content st' = file_content st"
  shows "disk_log crc st' = disk_log crc st"
proof -
  have "hint_ok crc st' = hint_ok crc st"
    using assms by (intro ext hint_ok_cong) simp_all
  with assms show ?thesis by (simp add: fun_eq_iff disk_log_def file_ok_def)
qed

lemma loaded_writer:
  assumes ld: "loaded crc sealed cur cs ld st"
  shows "file_content st (ws_file (ld_writer ld)) = log_bytes crc cs"
    and "bt_get (ld_readers ld) cur = Some (ws_file (ld_writer ld))"
    and "unat (ws_offset (ld_writer ld)) = length (log_bytes crc cs)"
    and "length (log_bytes crc cs) \<le> MAX_FILE_LEN"
proof -
  have log: "disk_log crc st sealed cur cs []"
    and fd: "map_of (os_dir st) (data_file_name cur) = Some (File_Entry (ws_file (ld_writer ld)))"
    and get: "\<And>i fd. bt_get (ld_readers ld) i = Some fd \<longleftrightarrow>
        map_of (os_dir st) (data_file_name i) = Some (File_Entry fd)"
    and off: "ws_offset (ld_writer ld) = of_nat (length (log_bytes crc cs))"
    using ld by (simp_all add: loaded_def)
  show c: "file_content st (ws_file (ld_writer ld)) = log_bytes crc cs"
    using disk_log_fd(2) [OF log fd] by simp
  show "bt_get (ld_readers ld) cur = Some (ws_file (ld_writer ld))" using get fd by blast
  show len: "length (log_bytes crc cs) \<le> MAX_FILE_LEN" using disk_log_fd(4) [OF log fd] c by simp
  show "unat (ws_offset (ld_writer ld)) = length (log_bytes crc cs)"
    unfolding off using len MAX_FILE_LEN_less by (intro unat_u64_of_nat) simp
qed

lemma loaded_log_inv:
  assumes ld: "loaded crc sealed cur cs ld st" and wf: "dir_wf st"
    and hints: "\<And>i. cur \<le> i \<Longrightarrow> map_of (os_dir st) (hint_file_name i) = None"
  shows "log_inv crc (make_store config lock ld st) sealed cs"
proof -
  let ?st = "make_store config lock ld st"
  have log: "disk_log crc st sealed cur cs []" and bt: "bt_ok (ld_readers ld)"
    and get: "\<And>i fd. bt_get (ld_readers ld) i = Some fd \<longleftrightarrow>
        map_of (os_dir st) (data_file_name i) = Some (File_Entry fd)"
    and ix: "buckets_ok (ld_index ld)" "buckets_lookup (ld_index ld) = log_index (sealed @ [(cur, cs)])"
    and cur: "ws_current_file_id (ld_writer ld) = cur"
    using ld by (simp_all add: loaded_def)
  note w = loaded_writer [OF ld]
  have lookup: "index_lookup (st_index ?st) = log_index (sealed @ [(cur, cs)])"
    using ix by (simp add: index_lookup_from)
  have files: "\<exists>fd tail. bt_get (st_readers ?st) i = Some fd \<and> file_content ?st fd = log_bytes crc ds @ tail \<and>
        length (file_content ?st fd) \<le> MAX_FILE_LEN \<and> list_all command_ok ds"
    if "(i, ds) \<in> set (sealed @ [(cur, cs)])" for i ds
    using log_file_content [OF log that] get by simp
  have ids: "i \<in> set (map fst sealed @ [cur])" if "(i, fd) \<in> set (ld_readers ld)" for i fd
    using that get bt_get_set [OF bt] disk_log_ids [OF log] by blast
  have le: "i \<le> cur" if "i \<in> set (map fst sealed @ [cur])" for i
    using disk_logD(2) [OF log] that by (auto simp: sorted_wrt_append)
  have "readers_ok ?st"
    unfolding readers_ok_def using bt get bt_get_set [OF bt] dir_wfD(2) [OF wf] by auto
  moreover have "writer_ok ?st"
  proof -
    have "\<forall>i \<in> fst ` set (ld_readers ld). i \<le> cur" using ids le by auto
    moreover have "map_of (os_dir st) (data_file_name i) = None" if "cur < i" for i
      using that disk_logD(8) [OF log] le by (meson leD)
    ultimately show ?thesis using w cur by (simp add: writer_ok_def Let_def)
  qed
  moreover have "entries_ok crc ?st" by (rule index_matches_view(1) [OF lookup files])
  ultimately have "store_inv crc ?st" using ix by (simp add: store_inv_def)
  moreover have "disk_log crc ?st sealed cur cs []"
    using log by (subst disk_log_cong [of _ st]) simp_all
  moreover have "dir_wf ?st" using wf by (simp add: dir_wf_def)
  ultimately have "log_base crc ?st sealed cs"
    by (intro log_baseI [where cur = cur]) (use get hints cur in simp_all)
  then show ?thesis using lookup cur by (simp add: log_inv_def)
qed

section \<open>Writes keep it\<close>

lemma log_base_same: "same_store st st' \<Longrightarrow> log_base crc st' = log_base crc st"
proof -
  assume same: "same_store st st'"
  then have "disk_log crc st' = disk_log crc st"
    by (intro disk_log_cong) (simp_all add: same_store_def)
  with same same_store_inv [OF same] show ?thesis
    by (simp add: fun_eq_iff log_base_def Let_def dir_wf_def same_store_def)
qed

lemma log_inv_same: "same_store st st' \<Longrightarrow> log_inv crc st' = log_inv crc st"
  using log_base_same [of st st' crc] by (simp add: fun_eq_iff log_inv_def same_store_def)

lemma log_base_writer:
  assumes "log_base crc st sealed cs"
  shows "map_of (os_dir st) (data_file_name (ws_current_file_id (st_writer st))) =
      Some (File_Entry (ws_file (st_writer st)))"
    and "file_content st (ws_file (st_writer st)) = log_bytes crc cs"
    and "ws_offset (st_writer st) = of_nat (sum_list (map record_len cs))"
proof -
  let ?w = "st_writer st"
  note log = log_baseD(2) [OF assms]
  have w: "bt_get (st_readers st) (ws_current_file_id ?w) = Some (ws_file ?w)"
    "unat (ws_offset ?w) = length (file_content st (ws_file ?w))"
    using log_baseD(1) [OF assms] by (simp_all add: store_inv_def writer_ok_def Let_def)
  obtain fd where "map_of (os_dir st) (data_file_name (ws_current_file_id ?w)) = Some (File_Entry fd)"
    using disk_logD(7) [OF log] by (auto simp: file_ok_def)
  with log_baseD(4) [OF assms] w
  show fd: "map_of (os_dir st) (data_file_name (ws_current_file_id ?w)) = Some (File_Entry (ws_file ?w))"
    by fastforce
  show c: "file_content st (ws_file ?w) = log_bytes crc cs" using disk_log_fd(2) [OF log fd] by simp
  have "ws_offset ?w = of_nat (unat (ws_offset ?w))" by simp
  then show "ws_offset ?w = of_nat (sum_list (map record_len cs))"
    unfolding w(2) c length_log_bytes .
qed

lemma index_apply_record_op:
  "index_apply cmd (new_entry st (get_timestamp cmd) (record_len cmd)) m =
     apply_op m (record_op (ws_current_file_id (st_writer st)) pos cmd)"
  if "ws_offset (st_writer st) = of_nat pos"
  using that by (cases cmd) (simp_all add: new_entry_def)

lemma disk_log_append:
  assumes log: "disk_log crc st sealed cur cs []" and wf: "dir_wf st"
    and fd: "map_of (os_dir st) (data_file_name cur) = Some (File_Entry fd)"
    and st': "os_dir st' = os_dir st" "length (os_inodes st') = length (os_inodes st)"
      "file_content st' = (file_content st)(fd := file_content st fd @ command_serialize crc cmd)"
    and room: "length (file_content st fd) + length (command_serialize crc cmd) \<le> MAX_FILE_LEN"
    and cmd: "command_ok cmd"
  shows "disk_log crc st' sealed cur (cs @ [cmd]) []"
proof (rule disk_logI)
  have other: "file_content st' x = file_content st x"
    if "map_of (os_dir st) name = Some (File_Entry x)" "name \<noteq> data_file_name cur" for name x
    using that dir_wfD(3) [OF wf fd, of name] st'(3) by auto
  have sorted: "i \<noteq> cur" if "(i, ds) \<in> set sealed" for i ds
    using disk_logD(2) [OF log] that by (force simp: sorted_wrt_append)
  show "file_ok st' i (log_bytes crc ds)" if s: "(i, ds) \<in> set sealed" for i ds
    using disk_logD(4) [OF log s] other sorted [OF s] st'(1,2) by (auto simp: file_ok_def)
  show "hint_ok crc st' i ds" if s: "(i, ds) \<in> set sealed" for i ds
    using disk_logD(5) [OF log s] other [of "hint_file_name i"] st'(1)
    by (subst hint_ok_cong [of _ _ st]) simp_all
  show "file_ok st' cur (log_bytes crc (cs @ [cmd]) @ [])"
    using fd room st' disk_log_fd(1,2) [OF log fd] by (simp add: file_ok_def)
  show "i \<in> set (map fst sealed @ [cur])" if "map_of (os_dir st') (data_file_name i) \<noteq> None" for i
    using that disk_logD(8) [OF log] st'(1) by simp
  show "name = data_file_name i"
    if "(name, entry) \<in> set (os_dir st')" "scan_file name entry = Some (i, x)" for name entry i x
    using that disk_logD(9) [OF log] st'(1) by simp
qed (use disk_logD(1,2,3,6) [OF log] st'(1) cmd in simp_all)

lemma appended_index:
  assumes base: "log_base crc st sealed cs" and app: "appended crc cmd st st'"
  shows "index_lookup (st_index st') = apply_op (index_lookup (st_index st))
     (record_op (ws_current_file_id (st_writer st)) (sum_list (map record_len cs)) cmd)"
  using app index_apply_record_op [OF log_base_writer(3) [OF base], of cmd]
  by (simp add: appended_def Let_def record_len_def [symmetric])

lemma log_base_appended:
  assumes base: "log_base crc st sealed cs" and app: "appended crc cmd st st'" and cmd: "command_ok cmd"
  shows "log_base crc st' sealed (cs @ [cmd])"
proof -
  let ?w = "st_writer st" and ?cur = "ws_current_file_id (st_writer st)"
  note w = log_base_writer [OF base]
  have same: "os_dir st' = os_dir st" "length (os_inodes st') = length (os_inodes st)"
    "st_readers st' = st_readers st" "ws_current_file_id (st_writer st') = ?cur"
    "file_content st' = (file_content st)(ws_file ?w := file_content st (ws_file ?w) @ command_serialize crc cmd)"
    "length (file_content st (ws_file ?w)) + length (command_serialize crc cmd) \<le> MAX_FILE_LEN"
    using app by (simp_all add: appended_def Let_def)
  have "disk_log crc st' sealed ?cur (cs @ [cmd]) []"
    by (rule disk_log_append [OF log_baseD(2,3) [OF base] w(1) same(1,2,5,6) cmd])
  moreover have "dir_wf st'" using log_baseD(3) [OF base] same by (simp add: dir_wf_def)
  moreover have "store_inv crc st'" using appended_inv [OF log_baseD(1) [OF base] app cmd] by simp
  ultimately show ?thesis
    by (intro log_baseI [where cur = ?cur]) (use log_baseD(4,5) [OF base] same in simp_all)
qed

lemma log_inv_appended:
  assumes inv: "log_inv crc st sealed cs" and app: "appended crc cmd st st'" and cmd: "command_ok cmd"
  shows "log_inv crc st' sealed (cs @ [cmd])"
proof -
  have "ws_current_file_id (st_writer st') = ws_current_file_id (st_writer st)"
    using app by (simp add: appended_def Let_def)
  with log_base_appended [OF log_invD(1) [OF inv] app cmd] appended_index [OF log_invD(1) [OF inv] app]
  show ?thesis by (simp add: log_inv_def log_invD(2) [OF inv] log_index_append_command)
qed

lemma disk_log_rotate:
  assumes log: "disk_log crc st sealed cur cs []" and above: "cur < n"
    and fresh: "map_of (os_dir st) (data_file_name n) = None"
    and nohint: "map_of (os_dir st) (hint_file_name cur) = None"
    and st': "os_dir st' = os_dir st @ [(data_file_name n, File_Entry (length (os_inodes st)))]"
      "length (os_inodes st') = Suc (length (os_inodes st))"
      "\<And>i. i < length (os_inodes st) \<Longrightarrow> file_content st' i = file_content st i"
      "file_content st' (length (os_inodes st)) = []"
    and wf: "dir_wf st"
  shows "disk_log crc st' (sealed @ [(cur, cs)]) n [] []"
proof (rule disk_logI)
  have dir: "map_of (os_dir st') name =
      (if name = data_file_name n then Some (File_Entry (length (os_inodes st))) else map_of (os_dir st) name)" for name
    using fresh by (simp add: st'(1) map_add_def split: option.split)
  have keep: "file_ok st' i bs" if "file_ok st i bs" for i bs
    using that fresh st'(2,3) by (auto simp: file_ok_def dir)
  have hint: "hint_ok crc st' i ds = hint_ok crc st i ds" for i ds
    using dir_wfD(2) [OF wf] st'(3) by (intro hint_ok_cong) (simp_all add: dir)
  show "distinct (map fst (os_dir st'))"
    using disk_logD(1) [OF log] fresh by (simp add: st'(1) map_of_eq_None_iff)
  show "sorted_wrt (<) (map fst (sealed @ [(cur, cs)]) @ [n])"
    using disk_logD(2) [OF log] above by (auto simp: sorted_wrt_append dest: less_trans)
  show "list_all command_ok ds" if "(i, ds) \<in> set (sealed @ [(cur, cs)])" for i ds
    using that disk_logD(3,6) [OF log] by auto
  show "file_ok st' i (log_bytes crc ds)" if "(i, ds) \<in> set (sealed @ [(cur, cs)])" for i ds
    using that disk_logD(4,7) [OF log] keep by auto
  show "hint_ok crc st' i ds" if "(i, ds) \<in> set (sealed @ [(cur, cs)])" for i ds
    using that disk_logD(5) [OF log] hint nohint by (auto simp: hint_ok_def [of crc st cur])
  show "file_ok st' n (log_bytes crc [] @ [])" by (simp add: file_ok_def dir st'(2,4))
  show "i \<in> set (map fst (sealed @ [(cur, cs)]) @ [n])"
    if "map_of (os_dir st') (data_file_name i) \<noteq> None" for i
    using that disk_logD(8) [OF log, of i] by (auto simp: dir split: if_splits)
  show "name = data_file_name i"
    if "(name, entry) \<in> set (os_dir st')" "scan_file name entry = Some (i, x)" for name entry i x
  proof (cases "(name, entry) \<in> set (os_dir st)")
    case True
    then show ?thesis using that(2) by (rule disk_logD(9) [OF log])
  next
    case False
    with that show ?thesis by (simp add: st'(1) scan_file_def)
  qed
qed simp

lemma dir_wf_create:
  assumes wf: "dir_wf st" and fresh: "map_of (os_dir st) name = None"
    and st': "os_dir st' = os_dir st @ [(name, File_Entry (length (os_inodes st)))]"
      "length (os_inodes st') = Suc (length (os_inodes st))"
  shows "dir_wf st'"
proof -
  have dir: "map_of (os_dir st') m =
      (if m = name then Some (File_Entry (length (os_inodes st))) else map_of (os_dir st) m)" for m
    using fresh by (simp add: st'(1) map_add_def split: option.split)
  have old: "fd < length (os_inodes st)" if "map_of (os_dir st) m = Some (File_Entry fd)" for m fd
    by (rule dir_wfD(2) [OF wf that])
  show ?thesis
    unfolding dir_wf_def st'(2)
  proof (intro conjI allI impI)
    show "distinct (map fst (os_dir st'))"
      using dir_wfD(1) [OF wf] fresh by (simp add: st'(1) map_of_eq_None_iff)
    fix m fd assume "map_of (os_dir st') m = Some (File_Entry fd)"
    then show "fd < Suc (length (os_inodes st))" using old [of m fd] by (auto simp: dir split: if_splits)
  next
    fix m k fd
    assume "map_of (os_dir st') m = Some (File_Entry fd)" "map_of (os_dir st') k = Some (File_Entry fd)"
    then show "m = k"
      using old [of m fd] old [of k fd] dir_wfD(3) [OF wf, of m fd k] by (auto simp: dir split: if_splits)
  qed
qed

lemma log_base_rotated:
  assumes inv: "log_base crc st sealed cs" and rot: "rotated n st st'"
    and above: "ws_current_file_id (st_writer st) < n"
  shows "log_base crc st' (sealed @ [(ws_current_file_id (st_writer st), cs)]) []"
proof -
  let ?cur = "ws_current_file_id (st_writer st)" and ?fd = "length (os_inodes st)"
  have st': "os_dir st' = os_dir st @ [(data_file_name n, File_Entry ?fd)]"
    "length (os_inodes st') = Suc (length (os_inodes st))"
    "\<And>i. i < ?fd \<Longrightarrow> file_content st' i = file_content st i"
    "file_content st' ?fd = []" "ws_current_file_id (st_writer st') = n"
    "st_readers st' = bt_insert n ?fd (st_readers st)" "st_index st' = st_index st"
    using rot by (simp_all add: rotated_def Let_def)
  have fresh: "map_of (os_dir st) (data_file_name n) = None"
    using log_baseD(1) [OF inv] above by (simp add: store_inv_def writer_ok_def Let_def)
  have dir: "map_of (os_dir st') name =
      (if name = data_file_name n then Some (File_Entry ?fd) else map_of (os_dir st) name)" for name
    using fresh by (simp add: st'(1) map_add_def split: option.split)
  have "bt_ok (st_readers st)" using log_baseD(1) [OF inv] by (simp add: store_inv_def readers_ok_def)
  then have get: "bt_get (st_readers st') = (bt_get (st_readers st))(n \<mapsto> ?fd)"
    by (simp add: st'(6) bt_get_insert)
  have "disk_log crc st' (sealed @ [(?cur, cs)]) n [] []"
    using log_baseD(5) [OF inv] above
    by (intro disk_log_rotate [OF log_baseD(2) [OF inv] above fresh _ st'(1-4) log_baseD(3) [OF inv]]) simp
  moreover have "dir_wf st'" by (rule dir_wf_create [OF log_baseD(3) [OF inv] fresh st'(1,2)])
  moreover have "store_inv crc st'" using rotated_inv [OF log_baseD(1) [OF inv] rot above] by simp
  moreover have "map_of (os_dir st') (hint_file_name i) = None" if "n \<le> i" for i
    using that above log_baseD(5) [OF inv, of i] by (simp add: dir)
  moreover have "bt_get (st_readers st') i = Some fd"
    if "map_of (os_dir st') (data_file_name i) = Some (File_Entry fd)" for i fd
    using that log_baseD(4) [OF inv, of i fd] by (auto simp: get dir split: if_splits)
  ultimately show ?thesis by (intro log_baseI [OF st'(5)])
qed

lemma log_inv_rotated:
  assumes inv: "log_inv crc st sealed cs" and rot: "rotated n st st'"
    and above: "ws_current_file_id (st_writer st) < n"
  shows "log_inv crc st' (sealed @ [(ws_current_file_id (st_writer st), cs)]) []"
proof -
  have "index_lookup (st_index st') = log_index ((sealed @ [(ws_current_file_id (st_writer st), cs)]) @ [(n, [])])"
    using log_invD(2) [OF inv] rot by (simp only: log_index_append_file) (simp add: rotated_def Let_def)
  then show ?thesis
    using log_base_rotated [OF log_invD(1) [OF inv] rot above] rot
    by (simp add: log_inv_def) (simp add: rotated_def Let_def)
qed

section \<open>The history of a store\<close>

text \<open>The commands in the log of a store, in the order they were written.\<close>

definition log_history :: "(bytes \<Rightarrow> u32) \<Rightarrow> store \<Rightarrow> command list \<Rightarrow> bool" where
  "log_history crc st hs \<longleftrightarrow> (\<exists>sealed cs. log_inv crc st sealed cs \<and> hs = concat (map snd sealed) @ cs)"

definition history_view :: "command list \<Rightarrow> (bytes \<rightharpoonup> bytes)" where
  "history_view hs = foldl (\<lambda>m c. view_apply c m) Map.empty hs"

lemma log_history_view: "log_history crc st hs \<Longrightarrow> store_view crc st = history_view hs"
  by (auto simp: log_history_def history_view_def log_inv_view log_view_def)

lemma log_history_inv: "log_history crc st hs \<Longrightarrow> store_inv crc st"
  by (auto simp: log_history_def dest: log_invD(1) log_baseD(1))

lemma log_history_same: "same_store st st' \<Longrightarrow> log_history crc st' = log_history crc st"
  by (simp add: log_history_def log_inv_same fun_eq_iff)

lemma log_history_rotate_if_full:
  assumes h: "log_history crc st hs" and ok: "rotate_if_full st = (Inr u, st')"
    and ids: "ws_current_file_id (st_writer st) \<noteq> - 1"
  shows "log_history crc st' hs"
proof (cases "ws_offset (st_writer st) < cfg_file_size_threshold (st_config st)")
  case True
  with ok h show ?thesis by (simp add: rotate_if_full_def)
next
  case False
  let ?cur = "ws_current_file_id (st_writer st)"
  obtain sealed cs where inv: "log_inv crc st sealed cs" and hs: "hs = concat (map snd sealed) @ cs"
    using h by (auto simp: log_history_def)
  have above: "?cur < ?cur + 1" using ids by (rule u64_less_inc)
  have "map_of (os_dir st) (data_file_name (?cur + 1)) = None"
    using log_baseD(1) [OF log_invD(1) [OF inv]] above by (simp add: store_inv_def writer_ok_def Let_def)
  then have "rotated (?cur + 1) st st'"
    using False ok by (intro rotate_to_rotated [of _ _ u]) (simp_all add: rotate_if_full_def)
  from log_inv_rotated [OF inv this above] show ?thesis
    unfolding log_history_def hs
    by (intro exI [of _ "sealed @ [(?cur, cs)]"] exI [of _ "[]"]) simp
qed

lemma store_append_history:
  assumes h: "log_history crc st hs" and ok: "store_append crc cmd st = (Inr u, st')"
    and cmd: "command_ok cmd" and ids: "ws_current_file_id (st_writer st) \<noteq> - 1"
  shows "log_history crc st' (hs @ [cmd])"
proof -
  from ok obtain st1 st2 st3 where rec: "append_record crc cmd st = (Inr (), st1)"
    and t: "compaction_trigger st1 = (Inr (), st2)" and p: "handle_policy st2 = (Inr (), st3)"
    and r: "rotate_if_full st3 = (Inr u, st')"
    by (auto simp: store_append_def post_write_ops_def res_iffs)
  note app = append_record_appended [OF log_history_inv [OF h] rec]
  obtain sealed cs where inv: "log_inv crc st sealed cs" and hs: "hs = concat (map snd sealed) @ cs"
    using h by (auto simp: log_history_def)
  from log_inv_appended [OF inv app cmd] have "log_history crc st1 (hs @ [cmd])"
    unfolding log_history_def hs by (intro exI [of _ sealed] exI [of _ "cs @ [cmd]"]) simp
  moreover have same: "same_store st1 st3"
    using compaction_trigger_same [OF t] handle_policy_same [OF p] by (rule same_store_trans)
  ultimately have "log_history crc st3 (hs @ [cmd])" by (simp add: log_history_same)
  moreover have "ws_current_file_id (st_writer st3) \<noteq> - 1"
    using ids app same by (simp add: same_store_def appended_def Let_def)
  ultimately show ?thesis using r log_history_rotate_if_full by blast
qed

end
