(* ===== verification/Lock_Correct.thy ===== *)
theory Lock_Correct
  imports Lock_File
begin

text \<open>
  The lock file: one owner at a time, no lock left behind by a failed attempt, and a directory stays
  with the engine that marked it.
\<close>

lemma marker_trim_names:
  "trim (to_bytes ''bitcask'') = to_bytes ''bitcask''" "trim (to_bytes ''sled'') = to_bytes ''sled''"
  by code_simp+

lemma marker_trim [simp]: "trim (to_bytes (store_type_as_str engine)) = to_bytes (store_type_as_str engine)"
  by (cases engine) (simp_all add: marker_trim_names)

lemma marker_nonempty [simp]: "to_bytes (store_type_as_str engine) \<noteq> []"
  by (cases engine) (simp_all add: to_bytes_def)

lemma file_content_flocks [simp]: "file_content (st\<lparr>os_flocks := l\<rparr>) fd = file_content st fd"
  by (simp add: file_content_def)

lemma to_bytes_eq_Nil: "to_bytes s = [] \<longleftrightarrow> s = []"
  by (simp add: to_bytes_def)

lemma trim_Nil [simp]: "trim [] = []"
  by code_simp

lemma flocks_calls [simp]:
  "os_flocks (snd (open_create name st)) = os_flocks st"
  "os_flocks (snd (read_to_string fd st)) = os_flocks st"
  "os_flocks (snd (write_all fd bs st)) = os_flocks st"
  "os_flocks (snd (sync_all fd st)) = os_flocks st"
  by (simp_all add: open_create_def read_to_string_def write_all_def sync_all_def syscall_def Let_def
      split: option.split dir_entry.split prod.split)

lemma st_bind_flocks:
  "(\<And>x s. os_flocks (snd (k x s)) = os_flocks s) \<Longrightarrow> os_flocks (snd (st_bind m k)) = os_flocks (snd m)"
  by (cases m; cases "fst m") (auto simp: st_bind_def)

lemma check_marker_flocks: "os_flocks (snd (check_marker engine fd st)) = os_flocks st"
  unfolding check_marker_def
  by (subst st_bind_flocks) (auto simp: Let_def st_bind_flocks)

lemma lock_acquire_Inr:
  assumes "lock_acquire engine st = (Inr fd, st')"
  obtains st1 where "open_create LOCK_FILE_NAME st = (Inr fd, st1)" and "fd \<notin> set (os_flocks st)"
    and "check_marker engine fd ((tick st1)\<lparr>os_flocks := fd # os_flocks st\<rparr>) = (Inr (), st')"
proof -
  from assms obtain fd' st1 where o: "open_create LOCK_FILE_NAME st = (Inr fd', st1)"
    and k: "(case try_lock fd' st1 of
       (Inl WouldBlock, st) \<Rightarrow> (Inl StoreLocked, st)
     | (Inl (TryLock_Error e), st) \<Rightarrow> (Inl e, st)
     | (Inr _, st) \<Rightarrow>
         (case check_marker engine fd' st of
            (Inl e, st) \<Rightarrow> (Inl e, unlock fd' st)
          | (Inr _, st) \<Rightarrow> (Inr fd', st))) = (Inr fd, st')"
    by (auto simp: lock_acquire_def st_bind_Inr_iff)
  have fl: "os_flocks st1 = os_flocks st" using flocks_calls(1) [of LOCK_FILE_NAME st] o by simp
  have free: "os_faults st1 (os_ticks st1) = None \<and> fd' \<notin> set (os_flocks st1)"
    using k by (cases "os_faults st1 (os_ticks st1)"; cases "fd' \<in> set (os_flocks st1)") (auto simp: try_lock_def)
  let ?s = "(tick st1)\<lparr>os_flocks := fd' # os_flocks st\<rparr>"
  obtain rc sc where c: "check_marker engine fd' ?s = (rc, sc)" by fastforce
  have tl: "try_lock fd' st1 = (Inr (), ?s)" using free fl by (simp add: try_lock_def)
  have res: "rc = Inr () \<and> fd = fd' \<and> st' = sc"
    using k unfolding tl by (cases rc) (simp_all add: c del: tick_def)
  show thesis
  proof (rule that)
    show "open_create LOCK_FILE_NAME st = (Inr fd, st1)" "fd \<notin> set (os_flocks st)"
      using o res free fl by simp_all
    show "check_marker engine fd ((tick st1)\<lparr>os_flocks := fd # os_flocks st\<rparr>) = (Inr (), st')"
      using c res by (simp del: tick_def)
  qed
qed

lemma lock_acquire_flocks:
  assumes "lock_acquire engine st = (r, st')"
  shows "os_flocks st' = (case r of Inl _ \<Rightarrow> os_flocks st | Inr fd \<Rightarrow> fd # os_flocks st)"
proof (cases r)
  case (Inr fd)
  with assms obtain st1 where
    "check_marker engine fd ((tick st1)\<lparr>os_flocks := fd # os_flocks st\<rparr>) = (Inr (), st')"
    using lock_acquire_Inr [of engine st fd st'] by blast
  with check_marker_flocks [of engine fd "(tick st1)\<lparr>os_flocks := fd # os_flocks st\<rparr>"] Inr
  show ?thesis by simp
next
  case (Inl e)
  obtain ro so where o: "open_create LOCK_FILE_NAME st = (ro, so)" by fastforce
  have so: "os_flocks so = os_flocks st" using flocks_calls(1) [of LOCK_FILE_NAME st] o by simp
  show ?thesis
  proof (cases ro)
    case (Inl e')
    with assms o \<open>r = Inl e\<close> so show ?thesis by (simp add: lock_acquire_def)
  next
    case (Inr fd)
    consider (fault) n e' where "os_faults so (os_ticks so) = Some (n, e')"
      | (held) "os_faults so (os_ticks so) = None" "fd \<in> set (os_flocks so)"
      | (free) "os_faults so (os_ticks so) = None" "fd \<notin> set (os_flocks so)"
      by (cases "os_faults so (os_ticks so)") auto
    then show ?thesis
    proof cases
      case free
      let ?s = "(tick so)\<lparr>os_flocks := fd # os_flocks so\<rparr>"
      obtain rc sc where c: "check_marker engine fd ?s = (rc, sc)" by fastforce
      have "os_flocks sc = fd # os_flocks so" using check_marker_flocks [of engine fd ?s] c by simp
      with assms o Inr \<open>r = Inl e\<close> so free c show ?thesis
        by (cases rc) (auto simp: lock_acquire_def try_lock_def unlock_def)
    qed (use assms o Inr \<open>r = Inl e\<close> so in \<open>auto simp: lock_acquire_def try_lock_def\<close>)
  qed
qed

lemma open_create_Inr:
  assumes "open_create name st = (Inr fd, st')"
  shows "map_of (os_dir st') name = Some (File_Entry fd)"
    and "map_of (os_dir st) name = Some (File_Entry fd) \<or> map_of (os_dir st) name = None \<and> file_content st' fd = []"
    and "map_of (os_dir st) name \<noteq> None \<Longrightarrow> file_content st' fd = file_content st fd"
    and "map_of (os_dir st) name = None \<Longrightarrow> fd < length (os_inodes st')"
    and "map_of (os_dir st) name \<noteq> None \<Longrightarrow> os_inodes st' = os_inodes st"
  using assms
  by (auto simp: open_create_def res_iffs file_content_def map_add_def split: option.splits dir_entry.splits)

lemma check_marker_dir: "os_dir (snd (check_marker engine fd st)) = os_dir st"
proof -
  have bind: "os_dir (snd (st_bind m k)) = os_dir (snd m)"
    if "\<And>x s. os_dir (snd (k x s)) = os_dir s" for m and k :: "'c \<Rightarrow> 'd os_scheme \<Rightarrow> (kvs_error + 'e) \<times> 'd os_scheme"
    using that by (cases m; cases "fst m") (auto simp: st_bind_def)
  have calls: "os_dir (snd (read_to_string fd s)) = os_dir s" "os_dir (snd (write_all fd bs s)) = os_dir s"
    "os_dir (snd (sync_all fd s)) = os_dir s" for bs and s :: "'a os_scheme"
    by (simp_all add: read_to_string_def write_all_def sync_all_def syscall_def Let_def
        split: option.split prod.split)
  show ?thesis
    unfolding check_marker_def by (subst bind) (auto simp: Let_def bind calls)
qed

text \<open>
  C16. The lock has one owner. An \<open>acquire\<close> that succeeds found the lock free, leaves it held and the
  lock file in the directory; while any handle holds it, \<open>acquire\<close> returns \<open>StoreLocked\<close> and
  changes nothing, whichever engine asks.
\<close>

theorem lock_exclusive:
  "(lock_acquire engine st = (Inr fd, st') \<longrightarrow>
      fd \<notin> set (os_flocks st) \<and> os_flocks st' = fd # os_flocks st \<and>
      map_of (os_dir st') LOCK_FILE_NAME = Some (File_Entry fd)) \<and>
   (calm st \<and> map_of (os_dir st) LOCK_FILE_NAME = Some (File_Entry fd) \<and> fd \<in> set (os_flocks st) \<longrightarrow>
      lock_acquire engine st = (Inl StoreLocked, tick (tick st)))"
proof (intro conjI impI)
  assume ok: "lock_acquire engine st = (Inr fd, st')"
  then obtain st1 where o: "open_create LOCK_FILE_NAME st = (Inr fd, st1)" "fd \<notin> set (os_flocks st)"
    and c: "check_marker engine fd ((tick st1)\<lparr>os_flocks := fd # os_flocks st\<rparr>) = (Inr (), st')"
    by (rule lock_acquire_Inr)
  show "fd \<notin> set (os_flocks st)" by (rule o(2))
  show "os_flocks st' = fd # os_flocks st" using lock_acquire_flocks [OF ok] by simp
  show "map_of (os_dir st') LOCK_FILE_NAME = Some (File_Entry fd)"
    using open_create_Inr(1) [OF o(1)] check_marker_dir [of engine fd "(tick st1)\<lparr>os_flocks := fd # os_flocks st\<rparr>"] c
    by simp
next
  assume "calm st \<and> map_of (os_dir st) LOCK_FILE_NAME = Some (File_Entry fd) \<and> fd \<in> set (os_flocks st)"
  then show "lock_acquire engine st = (Inl StoreLocked, tick (tick st))"
    by (simp add: lock_acquire_def open_create_def calm_syscall calm_faults try_lock_def)
qed

definition empty_os :: os where
  "empty_os = \<lparr>os_dir = [], os_inodes = [], os_flocks = [], os_clock = (\<lambda>_. Some 0),
     os_faults = (\<lambda>_. None), os_ticks = 0\<rparr>"

theorem lock_exclusive_witness:
  "let st = empty_os\<lparr>os_dir := [(LOCK_FILE_NAME, File_Entry 0)], os_inodes := [\<lparr>content = [], synced = 0\<rparr>],
                     os_flocks := [0]\<rparr>
   in lock_acquire StoreType_Sled st = (Inl StoreLocked, tick (tick st))"
  unfolding Let_def
  by (rule lock_exclusive [THEN conjunct2, rule_format]) (simp add: empty_os_def calm_def)

text \<open>
  C18. A failed \<open>acquire\<close> leaves no lock behind: the set of held locks is what it was.
\<close>

theorem lock_failure_releases:
  assumes "lock_acquire engine st = (Inl e, st')"
  shows "os_flocks st' = os_flocks st"
  using lock_acquire_flocks [OF assms] by simp

text \<open>
  C17. A directory belongs to one engine. If the lock file names another engine, \<open>acquire\<close> is
  \<open>EngineMismatch\<close> with both names; the file is not touched and the lock is released.
\<close>

theorem engine_mismatch:
  assumes "calm st" and "map_of (os_dir st) LOCK_FILE_NAME = Some (File_Entry fd)"
    and "fd \<notin> set (os_flocks st)" and "utf8_valid (file_content st fd)"
    and "trim (file_content st fd) = to_bytes found" and "found \<noteq> []" and "found \<noteq> store_type_as_str engine"
  shows "\<exists>n. lock_acquire engine st =
     (Inl (EngineMismatch found (store_type_as_str engine)), st\<lparr>os_ticks := n\<rparr>)"
  using assms
  by (intro exI [of _ "Suc (Suc (Suc (os_ticks st)))"])
     (simp add: lock_acquire_def open_create_def calm_syscall calm_faults try_lock_def check_marker_def
       read_to_string_def calm_def syscall_def unlock_def Let_def to_bytes_eq_Nil)

theorem engine_mismatch_witness:
  "let st = empty_os\<lparr>os_dir := [(LOCK_FILE_NAME, File_Entry 0)],
                     os_inodes := [\<lparr>content = to_bytes ''sled'', synced = 4\<rparr>]\<rparr>
   in \<exists>n. lock_acquire StoreType_Bitcask st = (Inl (EngineMismatch ''sled'' ''bitcask''), st\<lparr>os_ticks := n\<rparr>)"
proof -
  let ?st = "empty_os\<lparr>os_dir := [(LOCK_FILE_NAME, File_Entry 0)],
                     os_inodes := [\<lparr>content = to_bytes ''sled'', synced = 4\<rparr>]\<rparr>"
  have "utf8_valid (to_bytes ''sled'')" by code_simp
  then show ?thesis
    using engine_mismatch [of ?st 0 "''sled''" StoreType_Bitcask]
    by (simp add: empty_os_def calm_def file_content_def marker_trim_names)
qed

theorem lock_failure_releases_witness:
  "\<exists>e st'. lock_acquire StoreType_Bitcask
       (empty_os\<lparr>os_dir := [(LOCK_FILE_NAME, File_Entry 0)], os_inodes := [\<lparr>content = to_bytes ''sled'', synced = 4\<rparr>]\<rparr>) =
       (Inl e, st') \<and> os_flocks st' = []"
proof -
  let ?st = "empty_os\<lparr>os_dir := [(LOCK_FILE_NAME, File_Entry 0)],
                     os_inodes := [\<lparr>content = to_bytes ''sled'', synced = 4\<rparr>]\<rparr>"
  have "utf8_valid (to_bytes ''sled'')" by code_simp
  then obtain e st' where run: "lock_acquire StoreType_Bitcask ?st = (Inl e, st')"
    by (simp add: lock_acquire_def open_create_def try_lock_def check_marker_def read_to_string_def syscall_def
        unlock_def Let_def to_bytes_eq_Nil empty_os_def file_content_def marker_trim_names)
  with lock_failure_releases [OF run] show ?thesis by (simp add: empty_os_def)
qed

end
