(* ===== verification/Streams.thy ===== *)
theory Streams
  imports Errors
begin

text \<open>
  The two ends of a TCP connection as \<open>src/src/network\<close> and the binaries use them through
  \<open>std::io\<close>: a \<open>BufReader\<close> and a \<open>BufWriter\<close> over a \<open>TcpStream\<close>.

  The incoming bytes arrive in chunks, each the data of one \<open>read\<close> call; \<open>nr_buffer\<close> is what the
  \<open>BufReader\<close> holds of the current chunk. After the chunks comes the end of the stream, or an
  error. A bare \<open>TcpStream\<close> is read the same way: its users never look at the buffer.

  The outgoing side has a buffer too. \<open>nw_out\<close> is what was handed to the peer; \<open>nw_fail\<close> is the
  number of bytes the connection still takes and the error after them. A bare \<open>TcpStream\<close> is the
  writer of capacity 0: every write goes through at once.
\<close>

section \<open>Readers\<close>

record net_reader =
  nr_buffer :: bytes
  nr_chunks :: "bytes list"
  nr_fail :: "io_error option"

definition nr_bytes :: "net_reader \<Rightarrow> bytes" where
  "nr_bytes r = nr_buffer r @ concat (nr_chunks r)"

definition fill_buf :: "net_reader \<Rightarrow> (kvs_error + bytes) \<times> net_reader" where
  "fill_buf r =
     (if nr_buffer r \<noteq> [] then (Inr (nr_buffer r), r)
      else
        (case dropWhile (\<lambda>c. c = []) (nr_chunks r) of
           c # cs \<Rightarrow> (Inr c, r\<lparr>nr_buffer := c, nr_chunks := cs\<rparr>)
         | [] \<Rightarrow>
             (case nr_fail r of
                Some e \<Rightarrow> (Inl (Io e), r\<lparr>nr_chunks := []\<rparr>)
              | None \<Rightarrow> (Inr [], r\<lparr>nr_chunks := []\<rparr>))))"

text \<open>
  \<open>Read::read_exact\<close>: the bytes read, the rest of the chunk they end in and the later chunks; None
  when the stream ends before.
\<close>

fun take_exact :: "nat \<Rightarrow> bytes \<Rightarrow> bytes list \<Rightarrow> (bytes \<times> bytes \<times> bytes list) option" where
  "take_exact n buf chunks =
     (if n \<le> length buf then Some (take n buf, drop n buf, chunks)
      else
        (case chunks of
           [] \<Rightarrow> None
         | c # cs \<Rightarrow>
             (case take_exact (n - length buf) c cs of
                None \<Rightarrow> None
              | Some (data, buf', chunks') \<Rightarrow> Some (buf @ data, buf', chunks'))))"

declare take_exact.simps [simp del]

definition short_read :: "net_reader \<Rightarrow> io_error" where
  "short_read r =
     (case nr_fail r of
        Some e \<Rightarrow> e
      | None \<Rightarrow> Io_Error UnexpectedEof ''failed to fill whole buffer'')"

definition net_read_exact :: "nat \<Rightarrow> net_reader \<Rightarrow> (io_error + bytes) \<times> net_reader" where
  "net_read_exact n r =
     (case take_exact n (nr_buffer r) (nr_chunks r) of
        Some (data, buf, chunks) \<Rightarrow> (Inr data, r\<lparr>nr_buffer := buf, nr_chunks := chunks\<rparr>)
      | None \<Rightarrow> (Inl (short_read r), r\<lparr>nr_buffer := [], nr_chunks := []\<rparr>))"

text \<open>
  \<open>BufRead::read_until\<close>: the bytes up to and including the delimiter, or all there are at the end
  of the stream.
\<close>

fun take_until :: "byte \<Rightarrow> bytes \<Rightarrow> bytes list \<Rightarrow> bytes \<times> bool \<times> bytes \<times> bytes list" where
  "take_until d buf chunks =
     (if d \<in> set buf
      then (takeWhile (\<lambda>b. b \<noteq> d) buf @ [d], True, tl (dropWhile (\<lambda>b. b \<noteq> d) buf), chunks)
      else
        (case chunks of
           [] \<Rightarrow> (buf, False, [], [])
         | c # cs \<Rightarrow>
             (case take_until d c cs of
                (data, found, buf', chunks') \<Rightarrow> (buf @ data, found, buf', chunks'))))"

declare take_until.simps [simp del]

definition read_until :: "byte \<Rightarrow> net_reader \<Rightarrow> (kvs_error + bytes) \<times> net_reader" where
  "read_until d r =
     (case take_until d (nr_buffer r) (nr_chunks r) of
        (data, found, buf, chunks) \<Rightarrow>
          let r' = r\<lparr>nr_buffer := buf, nr_chunks := chunks\<rparr> in
          if found then (Inr data, r')
          else
            (case nr_fail r of
               Some e \<Rightarrow> (Inl (Io e), r')
             | None \<Rightarrow> (Inr data, r')))"

section \<open>Writers\<close>

record net_writer =
  nw_out :: bytes
  nw_buf :: bytes
  nw_capacity :: nat
  nw_fail :: "(nat \<times> io_error) option"

text \<open>\<open>write_all\<close> on the stream itself; on an error the bytes before it were sent.\<close>

definition send :: "bytes \<Rightarrow> net_writer \<Rightarrow> (kvs_error + unit) \<times> net_writer" where
  "send bs w =
     (case nw_fail w of
        None \<Rightarrow> (Inr (), w\<lparr>nw_out := nw_out w @ bs\<rparr>)
      | Some (n, e) \<Rightarrow>
          if length bs \<le> n
          then (Inr (), w\<lparr>nw_out := nw_out w @ bs, nw_fail := Some (n - length bs, e)\<rparr>)
          else (Inl (Io e), w\<lparr>nw_out := nw_out w @ take n bs, nw_fail := Some (0, e)\<rparr>))"

text \<open>\<open>BufWriter::flush\<close>: on an error the unsent bytes stay in the buffer.\<close>

definition nw_flush :: "net_writer \<Rightarrow> (kvs_error + unit) \<times> net_writer" where
  "nw_flush w =
     (if nw_buf w = [] then (Inr (), w)
      else
        (case send (nw_buf w) w of
           (Inr _, w') \<Rightarrow> (Inr (), w'\<lparr>nw_buf := []\<rparr>)
         | (Inl e, w') \<Rightarrow> (Inl e, w'\<lparr>nw_buf := drop (length (nw_out w') - length (nw_out w)) (nw_buf w)\<rparr>)))"

definition nw_write_all :: "bytes \<Rightarrow> net_writer \<Rightarrow> (kvs_error + unit) \<times> net_writer" where
  "nw_write_all bs w =
     (if length bs < nw_capacity w - length (nw_buf w)
      then (Inr (), w\<lparr>nw_buf := nw_buf w @ bs\<rparr>)
      else
        st_bind (if nw_capacity w - length (nw_buf w) < length bs then nw_flush w else (Inr (), w)) (\<lambda>_ w.
        if nw_capacity w \<le> length bs then send bs w
        else (Inr (), w\<lparr>nw_buf := nw_buf w @ bs\<rparr>)))"

text \<open>\<open>write!\<close> writes the pieces of the formatted string one after the other.\<close>

fun write_fmt :: "bytes list \<Rightarrow> net_writer \<Rightarrow> (kvs_error + unit) \<times> net_writer" where
  "write_fmt [] w = (Inr (), w)"
| "write_fmt (p # ps) w = st_bind (nw_write_all p w) (\<lambda>_ w. write_fmt ps w)"

text \<open>Dropping a \<open>BufWriter\<close> flushes it and ignores the outcome.\<close>

definition nw_drop :: "net_writer \<Rightarrow> net_writer" where
  "nw_drop w = snd (nw_flush w)"

section \<open>What readers deliver\<close>

text \<open>How the bytes are cut into chunks has no influence on what is read.\<close>

lemma take_exact_Some:
  "n \<le> length (buf @ concat chunks) \<Longrightarrow>
     \<exists>buf' chunks'. take_exact n buf chunks = Some (take n (buf @ concat chunks), buf', chunks') \<and>
       buf' @ concat chunks' = drop n (buf @ concat chunks)"
proof (induction n buf chunks rule: take_exact.induct)
  case (1 n buf chunks)
  show ?case
  proof (cases "n \<le> length buf")
    case True
    then show ?thesis by (simp add: take_exact.simps [of n buf chunks])
  next
    case False
    with "1.prems" obtain c cs where cs: "chunks = c # cs" by (cases chunks) auto
    with "1.prems" have "n - length buf \<le> length (c @ concat cs)" by simp
    from "1.IH" [OF False cs this] obtain buf' chunks' where
      "take_exact (n - length buf) c cs = Some (take (n - length buf) (c @ concat cs), buf', chunks')"
      "buf' @ concat chunks' = drop (n - length buf) (c @ concat cs)"
      by blast
    with False cs show ?thesis by (simp add: take_exact.simps [of n buf "c # cs"])
  qed
qed

lemma take_exact_None:
  "length (buf @ concat chunks) < n \<Longrightarrow> take_exact n buf chunks = None"
proof (induction n buf chunks rule: take_exact.induct)
  case (1 n buf chunks)
  then have "\<not> n \<le> length buf" by simp
  with 1 show ?case by (cases chunks) (simp_all add: take_exact.simps [of n buf])
qed

lemma net_read_exact_ok:
  assumes "n \<le> length (nr_bytes r)"
  obtains r' where "net_read_exact n r = (Inr (take n (nr_bytes r)), r')"
    "nr_bytes r' = drop n (nr_bytes r)" "nr_fail r' = nr_fail r"
  using take_exact_Some [of n "nr_buffer r" "nr_chunks r"] assms
  by (force simp: net_read_exact_def nr_bytes_def)

lemma net_read_exact_short:
  "length (nr_bytes r) < n \<Longrightarrow>
     net_read_exact n r = (Inl (short_read r), r\<lparr>nr_buffer := [], nr_chunks := []\<rparr>)"
  using take_exact_None [of "nr_buffer r" "nr_chunks r" n]
  by (simp add: net_read_exact_def nr_bytes_def)

lemma net_read_exact_consumes:
  assumes "net_read_exact n r = (Inr data, r')"
  shows "length (nr_bytes r) = n + length (nr_bytes r') \<and> nr_fail r' = nr_fail r"
proof (cases "n \<le> length (nr_bytes r)")
  case True
  then show ?thesis using net_read_exact_ok [OF True] assms by (metis Pair_inject length_drop le_add_diff_inverse)
next
  case False
  then show ?thesis using assms by (simp add: net_read_exact_short)
qed

lemma net_read_exact_front:
  assumes "nr_bytes r = data @ rest" and "length data = n"
  obtains r' where "net_read_exact n r = (Inr data, r')" "nr_bytes r' = rest" "nr_fail r' = nr_fail r"
  using net_read_exact_ok [of n r] assms by auto

lemma net_read_exact_bytes:
  assumes "net_read_exact n r = (Inr data, r')"
  shows "nr_bytes r = data @ nr_bytes r' \<and> length data = n"
proof -
  have n: "n \<le> length (nr_bytes r)" using net_read_exact_consumes [OF assms] by simp
  then obtain r'' where "net_read_exact n r = (Inr (take n (nr_bytes r)), r'')" "nr_bytes r'' = drop n (nr_bytes r)"
    by (rule net_read_exact_ok)
  with assms n show ?thesis by auto
qed

lemma net_read_byte:
  assumes "nr_bytes r = b # rest"
  obtains r' where "net_read_exact 1 r = (Inr [b], r')" "nr_bytes r' = rest" "nr_fail r' = nr_fail r"
proof -
  from assms have "nr_bytes r = [b] @ rest" by simp
  moreover have "length [b] = 1" by simp
  ultimately show ?thesis by (rule net_read_exact_front) (rule that)
qed

lemma take_until_found:
  "d \<in> set (buf @ concat chunks) \<Longrightarrow>
     \<exists>buf' chunks'. take_until d buf chunks =
         (takeWhile (\<lambda>b. b \<noteq> d) (buf @ concat chunks) @ [d], True, buf', chunks') \<and>
       buf' @ concat chunks' = tl (dropWhile (\<lambda>b. b \<noteq> d) (buf @ concat chunks))"
proof (induction d buf chunks rule: take_until.induct)
  case (1 d buf chunks)
  show ?case
  proof (cases "d \<in> set buf")
    case True
    then have "dropWhile (\<lambda>b. b \<noteq> d) buf \<noteq> []" by (auto simp: dropWhile_eq_Nil_conv)
    with True show ?thesis
      by (auto simp: take_until.simps [of d buf chunks] takeWhile_append dropWhile_append)
  next
    case False
    with "1.prems" obtain c cs where cs: "chunks = c # cs" by (cases chunks) auto
    with "1.prems" False have "d \<in> set (c @ concat cs)" by auto
    from "1.IH" [OF False cs this] obtain buf' chunks' where
      ih: "take_until d c cs = (takeWhile (\<lambda>b. b \<noteq> d) (c @ concat cs) @ [d], True, buf', chunks')"
      "buf' @ concat chunks' = tl (dropWhile (\<lambda>b. b \<noteq> d) (c @ concat cs))"
      by blast
    from False have all: "\<forall>x \<in> set buf. x \<noteq> d" by auto
    then have "takeWhile (\<lambda>b. b \<noteq> d) (buf @ ys) = buf @ takeWhile (\<lambda>b. b \<noteq> d) ys"
      "dropWhile (\<lambda>b. b \<noteq> d) (buf @ ys) = dropWhile (\<lambda>b. b \<noteq> d) ys" for ys
      by (simp_all add: takeWhile_append2 dropWhile_append2)
    with False cs ih show ?thesis by (simp add: take_until.simps [of d buf "c # cs"])
  qed
qed

lemma take_until_missing:
  "d \<notin> set (buf @ concat chunks) \<Longrightarrow> take_until d buf chunks = (buf @ concat chunks, False, [], [])"
proof (induction d buf chunks rule: take_until.induct)
  case (1 d buf chunks)
  then show ?case by (cases chunks) (simp_all add: take_until.simps [of d buf])
qed

lemma read_until_line:
  assumes "nr_bytes r = line @ [d] @ rest" and "d \<notin> set line"
  obtains r' where "read_until d r = (Inr (line @ [d]), r')" "nr_bytes r' = rest" "nr_fail r' = nr_fail r"
proof -
  have "d \<in> set (nr_buffer r @ concat (nr_chunks r))" using assms(1) by (simp add: nr_bytes_def [symmetric])
  from take_until_found [OF this] obtain buf' chunks' where
    t: "take_until d (nr_buffer r) (nr_chunks r) = (takeWhile (\<lambda>b. b \<noteq> d) (nr_bytes r) @ [d], True, buf', chunks')"
    "buf' @ concat chunks' = tl (dropWhile (\<lambda>b. b \<noteq> d) (nr_bytes r))"
    by (auto simp: nr_bytes_def)
  from assms(2) have "\<forall>x \<in> set line. x \<noteq> d" by auto
  then have "takeWhile (\<lambda>b. b \<noteq> d) (nr_bytes r) = line" "tl (dropWhile (\<lambda>b. b \<noteq> d) (nr_bytes r)) = rest"
    unfolding assms(1) by (simp_all add: takeWhile_append2 dropWhile_append2)
  with t show ?thesis
    by (intro that [of "r\<lparr>nr_buffer := buf', nr_chunks := chunks'\<rparr>"]) (simp_all add: read_until_def nr_bytes_def)
qed

lemma read_until_missing:
  assumes "d \<notin> set (nr_bytes r)"
  shows "read_until d r =
     (case nr_fail r of Some e \<Rightarrow> Inl (Io e) | None \<Rightarrow> Inr (nr_bytes r),
      r\<lparr>nr_buffer := [], nr_chunks := []\<rparr>)"
  using take_until_missing [of d "nr_buffer r" "nr_chunks r"] assms
  by (simp add: read_until_def nr_bytes_def split: option.split)

lemma read_until_consumes:
  assumes "read_until d r = (Inr data, r')"
  shows "nr_bytes r = data @ nr_bytes r' \<and> nr_fail r' = nr_fail r"
proof (cases "d \<in> set (nr_bytes r)")
  case True
  then obtain line rest where l: "nr_bytes r = line @ [d] @ rest" "d \<notin> set line"
    by (metis append_Cons append_Nil split_list_first)
  obtain r'' where "read_until d r = (Inr (line @ [d]), r'')" "nr_bytes r'' = rest" "nr_fail r'' = nr_fail r"
    by (rule read_until_line [OF l])
  with assms l show ?thesis by simp
next
  case False
  then show ?thesis using assms
    by (auto simp: read_until_missing nr_bytes_def split: option.splits)
qed

section \<open>What writers send\<close>

definition nw_total :: "net_writer \<Rightarrow> bytes" where
  "nw_total w = nw_out w @ nw_buf w"

definition healthy :: "net_writer \<Rightarrow> bool" where
  "healthy w \<longleftrightarrow> nw_fail w = None \<and> length (nw_buf w) \<le> nw_capacity w"

text \<open>A step that appends the given bytes on a connection without errors.\<close>

definition sends :: "bytes \<Rightarrow> net_writer \<Rightarrow> (kvs_error + unit) \<times> net_writer \<Rightarrow> bool" where
  "sends bs w m \<longleftrightarrow>
     (\<exists>w'. m = (Inr (), w') \<and> nw_total w' = nw_total w @ bs \<and> healthy w' \<and> nw_capacity w' = nw_capacity w)"

lemma sendsE:
  assumes "sends bs w m"
  obtains w' where "m = (Inr (), w')" "nw_total w' = nw_total w @ bs" "healthy w'"
    "nw_capacity w' = nw_capacity w"
  using assms by (auto simp: sends_def)

lemma sends_Ok: "healthy w \<Longrightarrow> sends [] w (Inr (), w)"
  by (simp add: sends_def)

lemma sends_bind:
  assumes "sends xs w m" and "\<And>w'. healthy w' \<Longrightarrow> sends ys w' (k () w')"
  shows "sends (xs @ ys) w (st_bind m k)"
proof -
  from assms(1) obtain w' where w': "m = (Inr (), w')" "nw_total w' = nw_total w @ xs" "healthy w'"
    "nw_capacity w' = nw_capacity w"
    by (rule sendsE)
  with assms(2) [OF w'(3)] show ?thesis by (auto simp: sends_def)
qed

lemma nw_flush_ok:
  "nw_fail w = None \<Longrightarrow> nw_flush w = (Inr (), w\<lparr>nw_out := nw_total w, nw_buf := []\<rparr>)"
  by (simp add: nw_flush_def send_def nw_total_def)

lemma nw_flush_sends: "healthy w \<Longrightarrow> sends [] w (nw_flush w)"
  by (simp add: sends_def healthy_def nw_flush_ok nw_total_def)

lemma nw_write_all_sends: "healthy w \<Longrightarrow> sends bs w (nw_write_all bs w)"
  by (cases "nw_buf w") (auto simp: sends_def healthy_def nw_write_all_def nw_flush_ok send_def nw_total_def)

lemma write_fmt_sends: "healthy w \<Longrightarrow> sends (concat ps) w (write_fmt ps w)"
  by (induction ps arbitrary: w) (simp_all add: sends_Ok sends_bind nw_write_all_sends)

end
