(* ===== verification/Kv_Trait.thy ===== *)
theory Kv_Trait
  imports Errors
begin

text \<open>
  The trait \<open>KvStore\<close> of \<open>src/src/storage/kvstore.rs\<close>. A function that is generic in \<open>S: KvStore\<close>
  takes the operations of the implementation as a record, as it does in the compiled program after
  monomorphisation; \<open>'s\<close> is the state behind the handle. \<open>get\<close> may not return, hence the option.

  The locale \<open>kv_contract\<close> is what the network layer and the REPL rely on, and what every engine has
  to provide: the store is a finite map from keys to values. \<open>invar n\<close> holds of a state in which
  n more operations on keys and values within the size limit can be served.
\<close>

record 's kv_store_ops =
  kv_set :: "bytes \<Rightarrow> bytes \<Rightarrow> 's \<Rightarrow> (kvs_error + unit) \<times> 's"
  kv_remove :: "bytes \<Rightarrow> 's \<Rightarrow> (kvs_error + unit) \<times> 's"
  kv_get :: "bytes \<Rightarrow> 's \<Rightarrow> ((kvs_error + bytes option) \<times> 's) option"

text \<open>The keys and values the contract speaks of: Rust strings of at most 32 MiB together.\<close>

definition pair_limit :: nat where
  "pair_limit = 2 ^ 25"

definition pair_ok :: "bytes \<Rightarrow> bytes \<Rightarrow> bool" where
  "pair_ok key v \<longleftrightarrow> utf8_valid key \<and> utf8_valid v \<and> length key + length v \<le> pair_limit"

locale kv_contract =
  fixes ops :: "'s kv_store_ops"
    and invar :: "nat \<Rightarrow> 's \<Rightarrow> bool"
    and view :: "'s \<Rightarrow> bytes \<rightharpoonup> bytes"
  assumes set_law: "invar (Suc n) s \<Longrightarrow> pair_ok key v \<Longrightarrow>
        \<exists>s'. kv_set ops key v s = (Inr (), s') \<and> invar n s' \<and> view s' = (view s)(key \<mapsto> v)"
    and get_law: "invar (Suc n) s \<Longrightarrow> pair_ok key [] \<Longrightarrow>
        \<exists>s'. kv_get ops key s = Some (Inr (view s key), s') \<and> invar n s' \<and> view s' = view s"
    and remove_law: "invar (Suc n) s \<Longrightarrow> pair_ok key [] \<Longrightarrow>
        \<exists>s'. kv_remove ops key s = ((if view s key = None then Inl KeyNotFound else Inr ()), s') \<and>
             invar n s' \<and> view s' = (view s)(key := None)"
    and invar_less: "invar (Suc n) s \<Longrightarrow> invar n s"
begin

lemma invar_antimono: "invar n s \<Longrightarrow> m \<le> n \<Longrightarrow> invar m s"
  by (induction n) (auto simp: le_Suc_eq dest: invar_less)

end

text \<open>The reference store: the map itself.\<close>

definition map_ops :: "(bytes \<rightharpoonup> bytes) kv_store_ops" where
  "map_ops =
     \<lparr>kv_set = (\<lambda>key v m. (Inr (), m(key \<mapsto> v))),
      kv_remove = (\<lambda>key m. ((if m key = None then Inl KeyNotFound else Inr ()), m(key := None))),
      kv_get = (\<lambda>key m. Some (Inr (m key), m))\<rparr>"

interpretation map: kv_contract map_ops "\<lambda>_ _. True" "\<lambda>m. m"
  by unfold_locales (simp_all add: map_ops_def)

end
