(* ===== verification/Protocol.thy ===== *)
theory Protocol
  imports Streams Kv_Trait
begin

text \<open>
  The binary protocol of \<open>src/src/network/protocol.rs\<close>: frames of a type byte, a 32-bit
  little-endian length and a payload, the encoding of requests and responses as frames, and
  \<open>execute\<close>, which serves a request from a store. A \<open>&str\<close> is its UTF-8 bytes.
\<close>

definition MAX_PAYLOAD :: u32 where
  "MAX_PAYLOAD = push_bit 20 16"

definition REQ_GET :: byte where "REQ_GET = 0"
definition REQ_SET :: byte where "REQ_SET = 1"
definition REQ_RM :: byte where "REQ_RM = 2"

definition RESP_OK :: byte where "RESP_OK = 0"
definition RESP_VALUE :: byte where "RESP_VALUE = 1"
definition RESP_ERROR :: byte where "RESP_ERROR = 2"

datatype request =
    Request_Get bytes
  | Request_Set bytes bytes
  | Request_Rm bytes

datatype response =
    Response_Ok
  | Response_Value bytes
  | Response_Error error_code

definition utf8 :: "bytes \<Rightarrow> kvs_error + bytes" where
  "utf8 b = (case from_utf8 b of Inr s \<Rightarrow> Inr s | Inl _ \<Rightarrow> Inl (InvalidData ''invalid utf-8''))"

section \<open>Frames\<close>

definition read_frame :: "net_reader \<Rightarrow> (kvs_error + (byte \<times> bytes) option) \<times> net_reader" where
  "read_frame reader =
     (case net_read_exact 1 reader of
        (Inl e, reader) \<Rightarrow>
          (if io_error_kind e = UnexpectedEof then (Inr None, reader) else (Inl (Io e), reader))
      | (Inr msg_type, reader) \<Rightarrow>
          (let msg_type = msg_type ! 0 in
           st_bind (map_err Io (net_read_exact 4 reader)) (\<lambda>len reader.
           let len = u32_from_le_bytes len in
           if MAX_PAYLOAD < len then (Inl (InvalidData ''payload too large''), reader)
           else
             st_bind (map_err Io (net_read_exact (unat len) reader)) (\<lambda>payload reader.
             (Inr (Some (msg_type, payload)), reader)))))"

definition write_frame :: "net_writer \<Rightarrow> byte \<Rightarrow> bytes \<Rightarrow> (kvs_error + unit) \<times> net_writer" where
  "write_frame writer msg_type payload =
     (if 2 ^ 32 \<le> length payload then (Inl (InvalidData ''payload too large''), writer)
      else
        (let len = of_nat (length payload) :: u32 in
         st_bind (nw_write_all [msg_type] writer) (\<lambda>_ writer.
         st_bind (nw_write_all (u32_to_le_bytes len) writer) (\<lambda>_ writer.
         st_bind (nw_write_all payload writer) (\<lambda>_ writer.
         st_bind (nw_flush writer) (\<lambda>_ writer.
         (Inr (), writer)))))))"

section \<open>Requests and responses\<close>

fun write_request :: "net_writer \<Rightarrow> request \<Rightarrow> (kvs_error + unit) \<times> net_writer" where
  "write_request writer (Request_Get key) = write_frame writer REQ_GET key"
| "write_request writer (Request_Rm key) = write_frame writer REQ_RM key"
| "write_request writer (Request_Set key v) =
     (let buf = u32_to_le_bytes (of_nat (length key)) @ key @ v
      in write_frame writer REQ_SET buf)"

definition decode_request :: "byte \<Rightarrow> bytes \<Rightarrow> kvs_error + request" where
  "decode_request msg_type payload =
     (if msg_type = REQ_GET then res_bind (utf8 payload) (\<lambda>key. Inr (Request_Get key))
      else if msg_type = REQ_RM then res_bind (utf8 payload) (\<lambda>key. Inr (Request_Rm key))
      else if msg_type = REQ_SET then
        (if length payload < 4 then Inl (InvalidData ''short set payload'')
         else
           (let key_len = unat (u32_from_le_bytes (take 4 payload)); rest = drop 4 payload in
            if length rest < key_len then Inl (InvalidData ''short set payload'')
            else
              (let key = take key_len rest; v = drop key_len rest in
               res_bind (utf8 key) (\<lambda>key.
               res_bind (utf8 v) (\<lambda>v.
               Inr (Request_Set key v))))))
      else Inl UnexpectedCommandType)"

fun write_response :: "net_writer \<Rightarrow> response \<Rightarrow> (kvs_error + unit) \<times> net_writer" where
  "write_response writer Response_Ok = write_frame writer RESP_OK []"
| "write_response writer (Response_Value v) = write_frame writer RESP_VALUE v"
| "write_response writer (Response_Error code) = write_frame writer RESP_ERROR [error_code_to_u8 code]"

definition decode_response :: "byte \<Rightarrow> bytes \<Rightarrow> kvs_error + response" where
  "decode_response msg_type payload =
     (if msg_type = RESP_OK then Inr Response_Ok
      else if msg_type = RESP_VALUE then
        (case from_utf8 payload of Inr s \<Rightarrow> Inr (Response_Value s) | Inl e \<Rightarrow> Inl (Utf8 e))
      else if msg_type = RESP_ERROR then
        (case payload of
           [] \<Rightarrow> Inl (InvalidData ''missing error code'')
         | code # _ \<Rightarrow> res_bind (error_code_try_from code) (\<lambda>code. Inr (Response_Error code)))
      else Inl UnexpectedCommandType)"

section \<open>Serving a request\<close>

definition execute :: "'s kv_store_ops \<Rightarrow> 's \<Rightarrow> request \<Rightarrow> (response \<times> 's) option" where
  "execute ops store req =
     map_option (\<lambda>(result, store).
         (case result of Inr resp \<Rightarrow> resp | Inl e \<Rightarrow> Response_Error (error_code_from_error e), store))
       (case req of
          Request_Get key \<Rightarrow>
            map_option (\<lambda>(r, store).
                (res_bind r (\<lambda>v. case v of
                    Some v \<Rightarrow> Inr (Response_Value v)
                  | None \<Rightarrow> Inr (Response_Error EC_KeyNotFound)), store))
              (kv_get ops key store)
        | Request_Set key v \<Rightarrow>
            Some (let (r, store) = kv_set ops key v store in (res_bind r (\<lambda>_. Inr Response_Ok), store))
        | Request_Rm key \<Rightarrow>
            Some (let (r, store) = kv_remove ops key store in (res_bind r (\<lambda>_. Inr Response_Ok), store)))"

end
