(* ===== verification/Resp.thy ===== *)
theory Resp
  imports Protocol
begin

text \<open>
  The RESP2 subset of \<open>src/src/network/resp.rs\<close>: splitting the input into frames, parsing a frame,
  decoding it as a request, and writing replies. Bytes are written as numbers: 13 and 10 are CR and
  LF, 36 is the dollar sign, 42 the asterisk, 43, 45 and 58 are plus, minus and colon.
\<close>

definition MAX_ARRAY_LEN :: nat where
  "MAX_ARRAY_LEN = push_bit 20 1"

definition MAX_DEPTH :: nat where
  "MAX_DEPTH = 32"

datatype resp_value =
    Resp_SimpleString bytes
  | Resp_Error bytes
  | Resp_Integer int
  | Resp_BulkString "bytes option"
  | Resp_Array "resp_value list option"

datatype resp_command = RespCommand_Get | RespCommand_Set | RespCommand_Del

datatype resp_request = RespRequest_Kv request | RespRequest_ConfigGet "bytes list"

fun resp_command_from :: "request \<Rightarrow> resp_command" where
  "resp_command_from (Request_Get key) = RespCommand_Get"
| "resp_command_from (Request_Set key v) = RespCommand_Set"
| "resp_command_from (Request_Rm key) = RespCommand_Del"

definition is_resp :: "byte \<Rightarrow> bool" where
  "is_resp msg_type \<longleftrightarrow> msg_type \<in> {43, 45, 58, 36, 42}"

definition protocol_error :: "string \<Rightarrow> kvs_error" where
  "protocol_error msg = InvalidData (''Protocol error: '' @ msg)"

definition unexpected_eof :: kvs_error where
  "unexpected_eof = Io (Io_Error UnexpectedEof ''torn RESP frame'')"

section \<open>Lengths and lines\<close>

definition is_ascii_digit :: "byte \<Rightarrow> bool" where
  "is_ascii_digit b \<longleftrightarrow> 48 \<le> b \<and> b \<le> 57"

definition parse_len :: "bytes \<Rightarrow> kvs_error + nat option" where
  "parse_len body =
     (if body = [45, 49] then Inr None
      else if body = [] \<or> 10 < length body \<or> \<not> list_all is_ascii_digit body
      then Inl (protocol_error ''invalid length'')
      else Inr (Some (foldl (\<lambda>len d. len * 10 + unat (d - 48)) 0 body)))"

text \<open>\<open>buf.windows(2).position(|w| w == b"\r\n")\<close>\<close>

fun find_crlf :: "bytes \<Rightarrow> nat option" where
  "find_crlf (a # b # rest) =
     (if a = 13 \<and> b = 10 then Some 0 else map_option Suc (find_crlf (b # rest)))"
| "find_crlf _ = None"

definition take_line :: "bytes \<Rightarrow> kvs_error + byte \<times> bytes \<times> nat" where
  "take_line buf =
     (case find_crlf buf of
        None \<Rightarrow> Inl (protocol_error ''expected CRLF-terminated line'')
      | Some e \<Rightarrow>
          if e = 0 then Inl (protocol_error ''empty line'')
          else Inr (buf ! 0, slice_of buf 1 e, e + 2))"

definition parse_i64 :: "bytes \<Rightarrow> kvs_error + int" where
  "parse_i64 body =
     (case (case from_utf8 body of Inl _ \<Rightarrow> None | Inr s \<Rightarrow> parse_i64_str (of_bytes s)) of
        Some i \<Rightarrow> Inr i
      | None \<Rightarrow> Inl (protocol_error ''invalid integer''))"

section \<open>Splitting the input into frames\<close>

text \<open>
  The loop of \<open>read_frame_resp\<close>: \<open>frame\<close> is what was read so far, \<open>pending\<close> the number of values
  that are still to come.
\<close>

function read_frame_loop ::
  "bytes \<Rightarrow> nat \<Rightarrow> net_reader \<Rightarrow> (kvs_error + bytes option) \<times> net_reader" where
  "read_frame_loop frame pending reader =
     (if pending = 0 then (Inr (Some frame), reader)
      else
        (let pending = pending - 1 in
         st_bind (read_until 10 reader) (\<lambda>line reader.
         if line = []
         then (if frame = [] then (Inr None, reader) else (Inl unexpected_eof, reader))
         else if length line < 3 \<or> \<not> ends_with line [13, 10]
         then (Inl (protocol_error ''expected CRLF-terminated line''), reader)
         else
           (let kind = line ! 0; body = slice_of line 1 (length line - 2); frame = frame @ line in
            if kind = 43 \<or> kind = 45 \<or> kind = 58 then read_frame_loop frame pending reader
            else if kind = 36 then
              st_bind (parse_len body, reader) (\<lambda>l reader.
              case l of
                None \<Rightarrow> read_frame_loop frame pending reader
              | Some len \<Rightarrow>
                  if unat MAX_PAYLOAD < len then (Inl (protocol_error ''bulk string too large''), reader)
                  else
                    st_bind (map_err Io (net_read_exact (len + 2) reader)) (\<lambda>data reader.
                    let frame = frame @ data in
                    if \<not> ends_with frame [13, 10]
                    then (Inl (protocol_error ''bulk string not CRLF-terminated''), reader)
                    else read_frame_loop frame pending reader))
            else if kind = 42 then
              st_bind (parse_len body, reader) (\<lambda>l reader.
              case l of
                None \<Rightarrow> read_frame_loop frame pending reader
              | Some len \<Rightarrow>
                  if MAX_ARRAY_LEN < len \<or> MAX_ARRAY_LEN < pending + len
                  then (Inl (protocol_error ''array too large''), reader)
                  else read_frame_loop frame (pending + len) reader)
            else (Inl (protocol_error ''unknown type byte''), reader)))))"
  by pat_completeness auto
termination
  by (relation "measure (\<lambda>(_, _, reader). length (nr_bytes reader))")
     (auto simp: map_err_Inr_iff dest!: read_until_consumes net_read_exact_consumes)

declare read_frame_loop.simps [simp del]

definition read_frame_resp :: "net_reader \<Rightarrow> (kvs_error + bytes option) \<times> net_reader" where
  "read_frame_resp reader = read_frame_loop [] 1 reader"

section \<open>Parsing a frame\<close>

text \<open>
  \<open>parse_items\<close> is the loop over the elements of an array: n more of them, from the offset
  \<open>used\<close> on.
\<close>

function parse_value :: "bytes \<Rightarrow> nat \<Rightarrow> kvs_error + resp_value \<times> nat"
  and parse_items :: "nat \<Rightarrow> bytes \<Rightarrow> nat \<Rightarrow> nat \<Rightarrow> kvs_error + resp_value list \<times> nat" where
  "parse_value buf depth =
     (if MAX_DEPTH < depth then Inl (protocol_error ''nesting too deep'')
      else
        res_bind (take_line buf) (\<lambda>(kind, body, used).
        if kind = 43 then Inr (Resp_SimpleString body, used)
        else if kind = 45 then Inr (Resp_Error body, used)
        else if kind = 58 then res_bind (parse_i64 body) (\<lambda>i. Inr (Resp_Integer i, used))
        else if kind = 36 then
          res_bind (parse_len body) (\<lambda>l. case l of
              None \<Rightarrow> Inr (Resp_BulkString None, used)
            | Some len \<Rightarrow>
                if length buf < used + len then Inl (protocol_error ''short bulk string'')
                else if length buf < used + len + 2 \<or>
                        slice_of buf (used + len) (used + len + 2) \<noteq> [13, 10]
                then Inl (protocol_error ''bulk string not CRLF-terminated'')
                else Inr (Resp_BulkString (Some (slice_of buf used (used + len))), used + (len + 2)))
        else if kind = 42 then
          res_bind (parse_len body) (\<lambda>l. case l of
              None \<Rightarrow> Inr (Resp_Array None, used)
            | Some len \<Rightarrow>
                res_bind (parse_items len buf used (depth + 1)) (\<lambda>(items, used).
                Inr (Resp_Array (Some items), used)))
        else Inl (protocol_error ''unknown type byte'')))"
| "parse_items n buf used depth =
     (if n = 0 then Inr ([], used)
      else
        res_bind (parse_value (drop used buf) depth) (\<lambda>(item, k).
        res_bind (parse_items (n - 1) buf (used + k) depth) (\<lambda>(items, used).
        Inr (item # items, used))))"
  by pat_completeness auto
termination
  by (relation "inv_image (less_than <*lex*> less_than)
        (\<lambda>x. case x of
           Inl (buf, depth) \<Rightarrow> (2 * (MAX_DEPTH + 2 - depth), 0)
         | Inr (n, buf, used, depth) \<Rightarrow> (2 * (MAX_DEPTH + 2 - depth) + 1, n))") auto

declare parse_value.simps [simp del]
declare parse_items.simps [simp del]

definition parse_resp :: "bytes \<Rightarrow> kvs_error + resp_value" where
  "parse_resp buf =
     res_bind (parse_value buf 0) (\<lambda>(v, used).
     if used \<noteq> length buf then Inl (protocol_error ''trailing bytes after value'') else Inr v)"

section \<open>Requests\<close>

definition ascii_lower :: "byte \<Rightarrow> byte" where
  "ascii_lower b = (if 65 \<le> b \<and> b \<le> 90 then b + 32 else b)"

definition eq_ignore_ascii_case :: "bytes \<Rightarrow> bytes \<Rightarrow> bool" where
  "eq_ignore_ascii_case a b \<longleftrightarrow> map ascii_lower a = map ascii_lower b"

text \<open>The arguments of a command: the elements of the array, all of which are bulk strings.\<close>

fun bulk_args :: "resp_value list \<Rightarrow> kvs_error + bytes list" where
  "bulk_args [] = Inr []"
| "bulk_args (Resp_BulkString (Some b) # vs) = res_bind (bulk_args vs) (\<lambda>bs. Inr (b # bs))"
| "bulk_args (_ # vs) = Inl (protocol_error ''expected bulk string'')"

definition check_args :: "bytes \<Rightarrow> bytes list \<Rightarrow> nat \<Rightarrow> kvs_error + unit" where
  "check_args name args expected =
     (if length args = expected then Inr ()
      else Inl (InvalidData (''wrong number of arguments for '' @ [CHR 0x27] @
             of_bytes (map ascii_lower (from_utf8_lossy name)) @ [CHR 0x27] @ '' command'')))"

definition decode_request_resp :: "bytes \<Rightarrow> kvs_error + resp_request" where
  "decode_request_resp frame =
     res_bind (parse_resp frame) (\<lambda>v.
     res_bind
       (case v of
          Resp_Array (Some items) \<Rightarrow>
            if items \<noteq> [] then Inr items else Inl (protocol_error ''expected non-empty array'')
        | _ \<Rightarrow> Inl (protocol_error ''expected non-empty array'')) (\<lambda>items.
     res_bind (bulk_args items) (\<lambda>args.
     let name = args ! 0; args = drop 1 args in
     if eq_ignore_ascii_case name (to_bytes ''GET'') then
       res_bind (check_args name args 1) (\<lambda>_.
       res_bind (utf8 (args ! 0)) (\<lambda>key.
       Inr (RespRequest_Kv (Request_Get key))))
     else if eq_ignore_ascii_case name (to_bytes ''SET'') then
       res_bind (check_args name args 2) (\<lambda>_.
       res_bind (utf8 (args ! 0)) (\<lambda>key.
       res_bind (utf8 (args ! 1)) (\<lambda>v.
       Inr (RespRequest_Kv (Request_Set key v)))))
     else if eq_ignore_ascii_case name (to_bytes ''DEL'') then
       res_bind (check_args name args 1) (\<lambda>_.
       res_bind (utf8 (args ! 0)) (\<lambda>key.
       Inr (RespRequest_Kv (Request_Rm key))))
     else if eq_ignore_ascii_case name (to_bytes ''CONFIG'') then
       (case args of
          sub # names \<Rightarrow>
            if eq_ignore_ascii_case sub (to_bytes ''GET'') then Inr (RespRequest_ConfigGet names)
            else Inl (InvalidData (''unknown subcommand for '' @ [CHR 0x27] @ ''config'' @ [CHR 0x27] @ '' command''))
        | [] \<Rightarrow> Inl (InvalidData (''unknown subcommand for '' @ [CHR 0x27] @ ''config'' @ [CHR 0x27] @ '' command'')))
     else Inl (InvalidData (''unknown command '' @ [CHR 0x27] @ of_bytes (from_utf8_lossy name) @ [CHR 0x27])))))"

section \<open>Replies\<close>

definition write_error :: "net_writer \<Rightarrow> string \<Rightarrow> (kvs_error + unit) \<times> net_writer" where
  "write_error writer msg =
     (let msg = map (\<lambda>b. if b = 13 \<or> b = 10 then 32 else b) (to_bytes msg) in
      st_bind (write_fmt [to_bytes ''-ERR '', msg, [13, 10]] writer) (\<lambda>_ writer.
      (Inr (), writer)))"

definition write_response_resp ::
  "net_writer \<Rightarrow> resp_command \<Rightarrow> response \<Rightarrow> (kvs_error + unit) \<times> net_writer" where
  "write_response_resp writer cmd resp =
     (case (cmd, resp) of
        (_, Response_Value v) \<Rightarrow>
          st_bind (write_fmt [to_bytes ''$'', to_bytes (show_nat (length v)), [13, 10]] writer) (\<lambda>_ writer.
          st_bind (nw_write_all v writer) (\<lambda>_ writer.
          nw_write_all [13, 10] writer))
      | (RespCommand_Del, Response_Ok) \<Rightarrow> nw_write_all (to_bytes '':1'' @ [13, 10]) writer
      | (RespCommand_Del, Response_Error EC_KeyNotFound) \<Rightarrow> nw_write_all (to_bytes '':0'' @ [13, 10]) writer
      | (RespCommand_Get, Response_Error EC_KeyNotFound) \<Rightarrow> nw_write_all (to_bytes ''$-1'' @ [13, 10]) writer
      | (_, Response_Ok) \<Rightarrow> nw_write_all (to_bytes ''+OK'' @ [13, 10]) writer
      | (_, Response_Error code) \<Rightarrow> write_error writer (error_code_to_string code))"

fun config_names :: "bytes list \<Rightarrow> net_writer \<Rightarrow> (kvs_error + unit) \<times> net_writer" where
  "config_names [] writer = (Inr (), writer)"
| "config_names (name # names) writer =
     st_bind (write_fmt [to_bytes ''$'', to_bytes (show_nat (length name)), [13, 10]] writer) (\<lambda>_ writer.
     st_bind (nw_write_all name writer) (\<lambda>_ writer.
     st_bind (nw_write_all ([13, 10] @ to_bytes ''$0'' @ [13, 10, 13, 10]) writer) (\<lambda>_ writer.
     config_names names writer)))"

definition write_config_get :: "net_writer \<Rightarrow> bytes list \<Rightarrow> (kvs_error + unit) \<times> net_writer" where
  "write_config_get writer names =
     st_bind (write_fmt [to_bytes ''*'', to_bytes (show_nat (length names * 2)), [13, 10]] writer) (\<lambda>_ writer.
     config_names names writer)"

fun decode_error_message :: "kvs_error \<Rightarrow> string" where
  "decode_error_message (InvalidData msg) = msg"
| "decode_error_message other = kvs_error_to_string other"

end
