(* ===== verification/Protocol_Correct.thy ===== *)
theory Protocol_Correct
  imports Protocol
begin

text \<open>
  What the binary protocol promises: frames of any chunking are read back as they were written,
  requests and responses survive the way over the wire, a frame that is cut is an error and not a
  request, and no announced length makes the reader take more than \<open>MAX_PAYLOAD\<close> bytes.
\<close>

section \<open>The bytes of a frame\<close>

definition frame_bytes :: "byte \<Rightarrow> bytes \<Rightarrow> bytes" where
  "frame_bytes t payload = t # u32_to_le_bytes (of_nat (length payload)) @ payload"

fun request_frame :: "request \<Rightarrow> byte \<times> bytes" where
  "request_frame (Request_Get key) = (REQ_GET, key)"
| "request_frame (Request_Rm key) = (REQ_RM, key)"
| "request_frame (Request_Set key v) = (REQ_SET, u32_to_le_bytes (of_nat (length key)) @ key @ v)"

fun response_frame :: "response \<Rightarrow> byte \<times> bytes" where
  "response_frame Response_Ok = (RESP_OK, [])"
| "response_frame (Response_Value v) = (RESP_VALUE, v)"
| "response_frame (Response_Error code) = (RESP_ERROR, [error_code_to_u8 code])"

fun request_ok :: "request \<Rightarrow> bool" where
  "request_ok (Request_Get key) = utf8_valid key"
| "request_ok (Request_Rm key) = utf8_valid key"
| "request_ok (Request_Set key v) = (utf8_valid key \<and> utf8_valid v)"

fun response_ok :: "response \<Rightarrow> bool" where
  "response_ok (Response_Value v) = utf8_valid v"
| "response_ok _ = True"

lemmas msg_types = REQ_GET_def REQ_SET_def REQ_RM_def RESP_OK_def RESP_VALUE_def RESP_ERROR_def

lemma MAX_PAYLOAD_nat [simp]: "unat MAX_PAYLOAD = 2 ^ 24"
  by (simp add: MAX_PAYLOAD_def push_bit_eq_mult)

lemma length_frame_bytes [simp]: "length (frame_bytes t p) = 5 + length p"
  by (simp add: frame_bytes_def)

lemma write_request_frame: "write_request w req = (case request_frame req of (t, p) \<Rightarrow> write_frame w t p)"
  by (cases req) (simp_all add: Let_def)

lemma write_response_frame: "write_response w resp = (case response_frame resp of (t, p) \<Rightarrow> write_frame w t p)"
  by (cases resp) simp_all

section \<open>Writing\<close>

text \<open>Nothing of a frame stays in the buffer.\<close>

definition delivers :: "bytes \<Rightarrow> net_writer \<Rightarrow> (kvs_error + unit) \<times> net_writer \<Rightarrow> bool" where
  "delivers bs w m \<longleftrightarrow>
     (\<exists>w'. m = (Inr (), w') \<and> nw_out w' = nw_total w @ bs \<and> nw_buf w' = [] \<and> healthy w' \<and>
        nw_capacity w' = nw_capacity w)"

lemma sends_then_flush:
  assumes "sends bs w m"
  shows "delivers bs w (st_bind m (\<lambda>_ w. st_bind (nw_flush w) (\<lambda>_ w. (Inr (), w))))"
  using assms by (auto simp: sends_def delivers_def healthy_def nw_flush_ok)

lemma st_bind_assoc: "st_bind (st_bind m f) g = st_bind m (\<lambda>x s. st_bind (f x s) g)"
  by (cases m; cases "fst m") (auto simp: st_bind_def)

lemma write_frame_delivers:
  assumes "healthy w" and "length p < 2 ^ 32"
  shows "delivers (frame_bytes t p) w (write_frame w t p)"
proof -
  have "sends ([t] @ u32_to_le_bytes (of_nat (length p)) @ p) w
      (st_bind (nw_write_all [t] w) (\<lambda>_ w.
       st_bind (nw_write_all (u32_to_le_bytes (of_nat (length p))) w) (\<lambda>_ w. nw_write_all p w)))"
    using assms(1) by (intro sends_bind nw_write_all_sends)
  from sends_then_flush [OF this] assms(2) show ?thesis
    by (simp add: write_frame_def frame_bytes_def st_bind_assoc)
qed

lemma write_frame_too_large:
  "2 ^ 32 \<le> length p \<Longrightarrow> write_frame w t p = (Inl (InvalidData ''payload too large''), w)"
  by (simp add: write_frame_def)

section \<open>Reading\<close>

lemma read_frame_bytes:
  assumes bytes: "nr_bytes r = frame_bytes t p @ rest" and len: "length p \<le> 2 ^ 24"
  obtains r' where "read_frame r = (Inr (Some (t, p)), r')" "nr_bytes r' = rest" "nr_fail r' = nr_fail r"
proof -
  let ?l = "u32_to_le_bytes (of_nat (length p))"
  have b: "nr_bytes r = t # ?l @ p @ rest" using bytes by (simp add: frame_bytes_def)
  obtain r1 where r1: "net_read_exact 1 r = (Inr [t], r1)" "nr_bytes r1 = ?l @ p @ rest" "nr_fail r1 = nr_fail r"
    by (rule net_read_byte [OF b])
  obtain r2 where r2: "net_read_exact 4 r1 = (Inr ?l, r2)" "nr_bytes r2 = p @ rest" "nr_fail r2 = nr_fail r1"
    by (rule net_read_exact_front [OF r1(2)]) simp
  obtain r3 where r3: "net_read_exact (length p) r2 = (Inr p, r3)" "nr_bytes r3 = rest" "nr_fail r3 = nr_fail r2"
    by (rule net_read_exact_front [OF r2(2)]) simp
  have n: "unat (of_nat (length p) :: u32) = length p"
    using len by (intro unat_u32_of_nat) simp
  then have "\<not> MAX_PAYLOAD < of_nat (length p)"
    using len by (simp add: word_less_nat_alt)
  with r1 r2 r3 n have "read_frame r = (Inr (Some (t, p)), r3)"
    by (simp add: read_frame_def)
  with r1 r2 r3 that show ?thesis by simp
qed

lemma read_frame_Some:
  assumes "read_frame r = (Inr (Some (t, p)), r')"
  shows "length p \<le> unat MAX_PAYLOAD" and "nr_bytes r = frame_bytes t p @ nr_bytes r'"
proof -
  obtain m r1 l r2 where m: "net_read_exact 1 r = (Inr m, r1)" "t = m ! 0"
    and l: "net_read_exact 4 r1 = (Inr l, r2)" "\<not> MAX_PAYLOAD < u32_from_le_bytes l"
    and p: "net_read_exact (unat (u32_from_le_bytes l)) r2 = (Inr p, r')"
    using assms by (auto simp: read_frame_def res_iffs Let_def split: prod.splits sum.splits if_splits)
  from net_read_exact_bytes [OF m(1)] m(2) have "nr_bytes r = [t] @ nr_bytes r1"
    by (cases m) auto
  moreover from net_read_exact_bytes [OF l(1)]
  have l2: "nr_bytes r1 = l @ nr_bytes r2" "u32_to_le_bytes (u32_from_le_bytes l) = l"
    by (simp_all add: u32_to_from_le_bytes)
  moreover from net_read_exact_bytes [OF p]
  have len: "nr_bytes r2 = p @ nr_bytes r'" "length p = unat (u32_from_le_bytes l)"
    by auto
  moreover from this l2 have "u32_to_le_bytes (of_nat (length p)) = l" by simp
  ultimately show "nr_bytes r = frame_bytes t p @ nr_bytes r'" by (simp add: frame_bytes_def)
  show "length p \<le> unat MAX_PAYLOAD"
    using l(2) len(2) by (simp add: word_less_nat_alt del: MAX_PAYLOAD_nat)
qed

lemma utf8_Inr_iff [res_iffs]: "utf8 b = Inr s \<longleftrightarrow> utf8_valid b \<and> s = b"
  by (auto simp: utf8_def from_utf8_def utf8_valid_def split: option.splits)

lemma utf8_ok [simp]: "utf8_valid b \<Longrightarrow> utf8 b = Inr b"
  by (simp add: utf8_Inr_iff)

lemma decode_request_frame:
  assumes "request_ok req" and "length (snd (request_frame req)) < 2 ^ 32"
  shows "decode_request (fst (request_frame req)) (snd (request_frame req)) = Inr req"
proof (cases req)
  case (Request_Set key v)
  with assms(2) have "unat (of_nat (length key) :: u32) = length key"
    by (intro unat_u32_of_nat) simp
  with Request_Set assms(1) show ?thesis
    by (simp add: decode_request_def msg_types)
qed (use assms in \<open>simp_all add: decode_request_def msg_types\<close>)

lemma decode_request_Inr:
  assumes "decode_request t p = Inr req"
  shows "request_ok req \<and> request_frame req = (t, p)"
proof -
  have le: "u32_to_le_bytes (u32_from_le_bytes (take 4 p)) = take 4 p" if "4 \<le> length p"
    using that by (intro u32_to_from_le_bytes) simp
  have split: "take 4 p @ take k (drop 4 p) @ drop (k + 4) p = p" for k
    by (metis append_take_drop_id drop_drop)
  show ?thesis
    using assms le split
    by (auto simp: decode_request_def res_iffs Let_def min_def split: if_splits)
qed

lemma decode_response_frame:
  assumes "response_ok resp"
  shows "decode_response (fst (response_frame resp)) (snd (response_frame resp)) = Inr resp"
  using assms by (cases resp) (simp_all add: decode_response_def msg_types from_utf8_valid)

section \<open>Properties\<close>

text \<open>
  C26. A request within the payload limit survives the way to the server: \<open>write_request\<close> hands all
  of it to the connection, and whatever the chunks in which the bytes arrive, \<open>read_frame\<close> and
  \<open>decode_request\<close> give back the request and leave the bytes that follow.
\<close>

theorem request_roundtrip:
  assumes "request_ok req" and "length (snd (request_frame req)) \<le> unat MAX_PAYLOAD" and "healthy w"
  shows "\<exists>bs w'. write_request w req = (Inr (), w') \<and> nw_out w' = nw_total w @ bs \<and> nw_buf w' = [] \<and>
           (\<forall>r rest. nr_bytes r = bs @ rest \<longrightarrow>
              (\<exists>t p r'. read_frame r = (Inr (Some (t, p)), r') \<and> nr_bytes r' = rest \<and>
                 decode_request t p = Inr req))"
proof -
  obtain t p where f: "request_frame req = (t, p)" by fastforce
  with assms(2) have len: "length p \<le> 2 ^ 24" by simp
  then have "delivers (frame_bytes t p) w (write_request w req)"
    using write_frame_delivers [OF assms(3), of p t] f by (simp add: write_request_frame)
  then obtain w' where "write_request w req = (Inr (), w')" "nw_out w' = nw_total w @ frame_bytes t p" "nw_buf w' = []"
    by (auto simp: delivers_def)
  moreover have "decode_request t p = Inr req"
    using decode_request_frame [OF assms(1)] f len by simp
  moreover have "\<exists>r'. read_frame r = (Inr (Some (t, p)), r') \<and> nr_bytes r' = rest"
    if "nr_bytes r = frame_bytes t p @ rest" for r rest
    using read_frame_bytes [OF that len] by metis
  ultimately show ?thesis by blast
qed

definition idle_writer :: net_writer where
  "idle_writer = \<lparr>nw_out = [], nw_buf = [], nw_capacity = 0, nw_fail = None\<rparr>"

definition one_reader :: "bytes \<Rightarrow> net_reader" where
  "one_reader bs = \<lparr>nr_buffer = [], nr_chunks = [bs], nr_fail = None\<rparr>"

lemma idle_writer_healthy [simp]: "healthy idle_writer"
  by (simp add: healthy_def idle_writer_def)

theorem request_roundtrip_witness:
  "\<exists>w'. write_request idle_writer (Request_Set [107] [118]) = (Inr (), w') \<and>
     (\<exists>t p r'. read_frame (one_reader (nw_out w')) = (Inr (Some (t, p)), r') \<and>
        decode_request t p = Inr (Request_Set [107] [118]))"
proof -
  have u: "utf8_valid [107 :: byte]" "utf8_valid [118 :: byte]" by code_simp+
  have ok: "request_ok (Request_Set [107] [118])" "length (snd (request_frame (Request_Set [107] [118]))) \<le> unat MAX_PAYLOAD"
    using u by simp_all
  from request_roundtrip [OF ok idle_writer_healthy] obtain bs w' where
    w: "write_request idle_writer (Request_Set [107] [118]) = (Inr (), w')" "nw_out w' = nw_total idle_writer @ bs"
    and r: "\<forall>r rest. nr_bytes r = bs @ rest \<longrightarrow> (\<exists>t p r'. read_frame r = (Inr (Some (t, p)), r') \<and>
      nr_bytes r' = rest \<and> decode_request t p = Inr (Request_Set [107] [118]))"
    by blast
  have "nr_bytes (one_reader (nw_out w')) = bs @ []"
    using w(2) by (simp add: one_reader_def nr_bytes_def nw_total_def idle_writer_def)
  with w(1) r show ?thesis by blast
qed

text \<open>
  C27. A response within the payload limit survives the way to the client, in the same sense.
\<close>

theorem response_roundtrip:
  assumes "response_ok resp" and "length (snd (response_frame resp)) \<le> unat MAX_PAYLOAD" and "healthy w"
  shows "\<exists>bs w'. write_response w resp = (Inr (), w') \<and> nw_out w' = nw_total w @ bs \<and> nw_buf w' = [] \<and>
           (\<forall>r rest. nr_bytes r = bs @ rest \<longrightarrow>
              (\<exists>t p r'. read_frame r = (Inr (Some (t, p)), r') \<and> nr_bytes r' = rest \<and>
                 decode_response t p = Inr resp))"
proof -
  obtain t p where f: "response_frame resp = (t, p)" by fastforce
  with assms(2) have len: "length p \<le> 2 ^ 24" by simp
  then have "delivers (frame_bytes t p) w (write_response w resp)"
    using write_frame_delivers [OF assms(3), of p t] f by (simp add: write_response_frame)
  then obtain w' where "write_response w resp = (Inr (), w')" "nw_out w' = nw_total w @ frame_bytes t p" "nw_buf w' = []"
    by (auto simp: delivers_def)
  moreover have "decode_response t p = Inr resp"
    using decode_response_frame [OF assms(1)] f by simp
  moreover have "\<exists>r'. read_frame r = (Inr (Some (t, p)), r') \<and> nr_bytes r' = rest"
    if "nr_bytes r = frame_bytes t p @ rest" for r rest
    using read_frame_bytes [OF that len] by metis
  ultimately show ?thesis by blast
qed

theorem response_roundtrip_witness:
  "\<exists>w'. write_response idle_writer (Response_Error EC_KeyNotFound) = (Inr (), w') \<and>
     (\<exists>t p r'. read_frame (one_reader (nw_out w')) = (Inr (Some (t, p)), r') \<and>
        decode_response t p = Inr (Response_Error EC_KeyNotFound))"
proof -
  have ok: "response_ok (Response_Error EC_KeyNotFound)" "length (snd (response_frame (Response_Error EC_KeyNotFound))) \<le> unat MAX_PAYLOAD"
    by simp_all
  from response_roundtrip [OF ok idle_writer_healthy] obtain bs w' where
    w: "write_response idle_writer (Response_Error EC_KeyNotFound) = (Inr (), w')" "nw_out w' = nw_total idle_writer @ bs"
    and r: "\<forall>r rest. nr_bytes r = bs @ rest \<longrightarrow> (\<exists>t p r'. read_frame r = (Inr (Some (t, p)), r') \<and>
      nr_bytes r' = rest \<and> decode_response t p = Inr (Response_Error EC_KeyNotFound))"
    by blast
  have "nr_bytes (one_reader (nw_out w')) = bs @ []"
    using w(2) by (simp add: one_reader_def nr_bytes_def nw_total_def idle_writer_def)
  with w(1) r show ?thesis by blast
qed

text \<open>
  C28. \<open>decode_request\<close> accepts exactly the frames \<open>write_request\<close> produces: a frame that decodes is
  the encoding of the request it decodes to, so no two frames stand for the same request.
\<close>

theorem decode_request_iff:
  assumes "length p < 2 ^ 32"
  shows "decode_request t p = Inr req \<longleftrightarrow> request_ok req \<and> request_frame req = (t, p)"
  using decode_request_frame [of req] decode_request_Inr [of t p req] assms by auto

theorem decode_request_iff_witness: "decode_request REQ_SET [1, 0, 0, 0, 107] = Inr (Request_Set [107] [])"
proof -
  have "utf8_valid [107 :: byte]" "u32_to_le_bytes 1 = [1, 0, 0, 0]" by code_simp+
  then show ?thesis
    using decode_request_iff [of "[1, 0, 0, 0, 107]" REQ_SET "Request_Set [107] []"] by simp
qed

text \<open>
  C29. A connection that ends inside a frame is an error, one that ends between frames a clean
  close: every non-empty strict prefix of a frame gives \<open>UnexpectedEof\<close>, the empty one \<open>None\<close>.
\<close>

theorem read_frame_cut:
  assumes "length p \<le> unat MAX_PAYLOAD" and "k < length (frame_bytes t p)"
    and "nr_bytes r = take k (frame_bytes t p)" and "nr_fail r = None"
  shows "\<exists>r'. read_frame r =
     (if k = 0 then Inr None else Inl (Io (Io_Error UnexpectedEof ''failed to fill whole buffer'')), r')"
proof -
  let ?l = "u32_to_le_bytes (of_nat (length p))" and ?eof = "Io_Error UnexpectedEof ''failed to fill whole buffer''"
  have short: "net_read_exact n s = (Inl ?eof, s\<lparr>nr_buffer := [], nr_chunks := []\<rparr>)"
    if "length (nr_bytes s) < n" "nr_fail s = None" for n s
    using net_read_exact_short [OF that(1)] that(2) by (simp add: short_read_def)
  show ?thesis
  proof (cases k)
    case 0
    then have "length (nr_bytes r) < 1" using assms(3) by simp
    from short [OF this assms(4)] 0 show ?thesis by (simp add: read_frame_def)
  next
    case (Suc j)
    have "nr_bytes r = t # take j (?l @ p)"
      using assms(3) Suc by (simp add: frame_bytes_def)
    from net_read_byte [OF this] obtain r1 where
      r1: "net_read_exact 1 r = (Inr [t], r1)" "nr_bytes r1 = take j (?l @ p)" "nr_fail r1 = None"
      using assms(4) by metis
    show ?thesis
    proof (cases "j < 4")
      case True
      then have "length (nr_bytes r1) < 4" using r1(2) by simp
      from short [OF this r1(3)] r1 Suc show ?thesis by (simp add: read_frame_def)
    next
      case False
      then have "nr_bytes r1 = ?l @ take (j - 4) p" using r1(2) by simp
      from net_read_exact_front [OF this length_u32_to_le_bytes] obtain r2 where
        r2: "net_read_exact 4 r1 = (Inr ?l, r2)" "nr_bytes r2 = take (j - 4) p" "nr_fail r2 = None"
        using r1(3) by metis
      have n: "unat (of_nat (length p) :: u32) = length p"
        using assms(1) by (intro unat_u32_of_nat) simp
      then have lim: "\<not> MAX_PAYLOAD < of_nat (length p)"
        using assms(1) by (simp add: word_less_nat_alt)
      have "length (nr_bytes r2) < length p" using r2(2) Suc False assms(2) by simp
      from short [OF this r2(3)] r1 r2 Suc n lim show ?thesis by (simp add: read_frame_def)
    qed
  qed
qed

theorem read_frame_cut_witness:
  "\<exists>r'. read_frame (one_reader [0, 1, 0, 0, 0]) =
     (Inl (Io (Io_Error UnexpectedEof ''failed to fill whole buffer'')), r')"
proof -
  have "frame_bytes 0 [107] = [0, 1, 0, 0, 0, 107]" by code_simp
  then show ?thesis
    using read_frame_cut [of "[107]" 5 0 "one_reader [0, 1, 0, 0, 0]"]
    by (simp add: one_reader_def nr_bytes_def)
qed

text \<open>
  C30. The reader is bounded by \<open>MAX_PAYLOAD\<close> and loses no byte: a frame it returns is exactly the
  consumed bytes and its payload is within the limit; a larger announced length is rejected with
  nothing but the five header bytes consumed.
\<close>

theorem read_frame_bound:
  "(read_frame r = (Inr (Some (t, p)), r') \<longrightarrow>
      length p \<le> unat MAX_PAYLOAD \<and> nr_bytes r = frame_bytes t p @ nr_bytes r') \<and>
   (nr_bytes r = t # u32_to_le_bytes n @ rest \<and> MAX_PAYLOAD < n \<longrightarrow>
      (\<exists>r'. read_frame r = (Inl (InvalidData ''payload too large''), r') \<and> nr_bytes r' = rest))"
proof (intro conjI impI)
  assume "read_frame r = (Inr (Some (t, p)), r')"
  then show "length p \<le> unat MAX_PAYLOAD" "nr_bytes r = frame_bytes t p @ nr_bytes r'"
    by (rule read_frame_Some)+
next
  assume a: "nr_bytes r = t # u32_to_le_bytes n @ rest \<and> MAX_PAYLOAD < n"
  then have b: "nr_bytes r = t # u32_to_le_bytes n @ rest" by simp
  obtain r1 where r1: "net_read_exact 1 r = (Inr [t], r1)" "nr_bytes r1 = u32_to_le_bytes n @ rest"
    by (rule net_read_byte [OF b])
  obtain r2 where "net_read_exact 4 r1 = (Inr (u32_to_le_bytes n), r2)" "nr_bytes r2 = rest"
    by (rule net_read_exact_front [OF r1(2)]) simp
  with r1 a show "\<exists>r'. read_frame r = (Inl (InvalidData ''payload too large''), r') \<and> nr_bytes r' = rest"
    by (simp add: read_frame_def)
qed

theorem read_frame_bound_witness:
  "\<exists>r'. read_frame (one_reader [0, 1, 0, 0, 1, 9]) = (Inl (InvalidData ''payload too large''), r') \<and>
     nr_bytes r' = [9]"
proof -
  have "[0, 1, 0, 0, 1, 9] = 0 # u32_to_le_bytes 0x1000001 @ [9]" "MAX_PAYLOAD < 0x1000001"
    by code_simp+
  then show ?thesis
    using read_frame_bound [of "one_reader [0, 1, 0, 0, 1, 9]" 0 _ _ "0x1000001" "[9]"]
    by (simp add: one_reader_def nr_bytes_def)
qed

end
