(* ===== verification/Resp_Correct.thy ===== *)
theory Resp_Correct
  imports Resp Protocol_Correct
begin

text \<open>
  The RESP codec against a reference encoding of RESP values: the parser inverts the encoding, the
  frame reader cuts the input exactly at the end of a value, commands are decoded whatever the case
  of their name, and every reply is the encoding of one value, so that a client stays in step.
\<close>

section \<open>The reference encoding\<close>

definition show_int :: "int \<Rightarrow> string" where
  "show_int i = (if i < 0 then CHR ''-'' # show_nat (nat (- i)) else show_nat (nat i))"

definition resp_line :: "byte \<Rightarrow> bytes \<Rightarrow> bytes" where
  "resp_line kind body = kind # body @ [13, 10]"

definition len_line :: "byte \<Rightarrow> nat \<Rightarrow> bytes" where
  "len_line kind n = resp_line kind (to_bytes (show_nat n))"

fun resp_encode :: "resp_value \<Rightarrow> bytes" where
  "resp_encode (Resp_SimpleString s) = resp_line 43 s"
| "resp_encode (Resp_Error s) = resp_line 45 s"
| "resp_encode (Resp_Integer i) = resp_line 58 (to_bytes (show_int i))"
| "resp_encode (Resp_BulkString None) = resp_line 36 [45, 49]"
| "resp_encode (Resp_BulkString (Some b)) = len_line 36 (length b) @ b @ [13, 10]"
| "resp_encode (Resp_Array None) = resp_line 42 [45, 49]"
| "resp_encode (Resp_Array (Some vs)) = len_line 42 (length vs) @ concat (map resp_encode vs)"

text \<open>The values the encoding can express at a nesting depth, within the limits of the sources.\<close>

fun resp_wf :: "nat \<Rightarrow> resp_value \<Rightarrow> bool" where
  "resp_wf d (Resp_SimpleString s) = (d \<le> MAX_DEPTH \<and> 10 \<notin> set s)"
| "resp_wf d (Resp_Error s) = (d \<le> MAX_DEPTH \<and> 10 \<notin> set s)"
| "resp_wf d (Resp_Integer i) = (d \<le> MAX_DEPTH \<and> - (2 ^ 63) \<le> i \<and> i < 2 ^ 63)"
| "resp_wf d (Resp_BulkString None) = (d \<le> MAX_DEPTH)"
| "resp_wf d (Resp_BulkString (Some b)) = (d \<le> MAX_DEPTH \<and> length b \<le> unat MAX_PAYLOAD)"
| "resp_wf d (Resp_Array None) = (d \<le> MAX_DEPTH)"
| "resp_wf d (Resp_Array (Some vs)) =
     (d \<le> MAX_DEPTH \<and> length vs \<le> MAX_ARRAY_LEN \<and> list_all (resp_wf (d + 1)) vs)"

fun resp_nodes :: "resp_value \<Rightarrow> nat" where
  "resp_nodes (Resp_Array (Some vs)) = 1 + sum_list (map resp_nodes vs)"
| "resp_nodes _ = 1"

section \<open>Numbers\<close>

lemma length_show_nat: "n < 10 ^ Suc k \<Longrightarrow> length (show_nat n) \<le> Suc k"
proof (induction k arbitrary: n)
  case 0
  then show ?case by (simp add: show_nat.simps [of n])
next
  case (Suc k)
  then have "length (show_nat (n div 10)) \<le> Suc k" by (intro Suc.IH) simp
  then show ?case by (simp add: show_nat.simps [of n])
qed

lemma digit_byte:
  assumes "is_digit c"
  shows "is_ascii_digit (of_nat (of_char c))" and "unat (of_nat (of_char c) - 48 :: byte) = digit_val c"
    and "(of_nat (of_char c) :: byte) \<noteq> 45" and "(of_nat (of_char c) :: byte) \<noteq> 10"
proof -
  have b: "48 \<le> (of_char c :: nat)" "(of_char c :: nat) \<le> 57" using assms by (simp_all add: is_digit_def)
  have u: "unat (of_nat (of_char c) :: byte) = of_char c" by (rule unat_of_nat_of_char)
  show "is_ascii_digit (of_nat (of_char c))" using b u by (simp add: is_ascii_digit_def word_le_nat_alt)
  have "(48 :: byte) \<le> of_nat (of_char c)" using b u by (simp add: word_le_nat_alt)
  then have "unat (of_nat (of_char c) - 48 :: byte) = of_char c - unat (48 :: byte)"
    using u by (simp add: unat_sub)
  then show "unat (of_nat (of_char c) - 48 :: byte) = digit_val c" by (simp add: digit_val_def)
  have "unat (of_nat (of_char c) :: byte) \<noteq> unat (45 :: byte)" "unat (of_nat (of_char c) :: byte) \<noteq> unat (10 :: byte)"
    unfolding u using b by simp_all
  then show "(of_nat (of_char c) :: byte) \<noteq> 45" "(of_nat (of_char c) :: byte) \<noteq> 10" by metis+
qed

lemma digits_bytes:
  assumes "list_all is_digit s"
  shows "list_all is_ascii_digit (to_bytes s)" and "10 \<notin> set (to_bytes s)" and "45 \<notin> set (to_bytes s)"
    and "foldl (\<lambda>len d. len * 10 + unat (d - 48 :: byte)) a (to_bytes s) =
         foldl (\<lambda>acc c. acc * 10 + digit_val c) a s"
proof -
  show "list_all is_ascii_digit (to_bytes s)" "10 \<notin> set (to_bytes s)" "45 \<notin> set (to_bytes s)"
    using assms digit_byte by (fastforce simp: to_bytes_def list_all_iff)+
  show "foldl (\<lambda>len d. len * 10 + unat (d - 48 :: byte)) a (to_bytes s) =
      foldl (\<lambda>acc c. acc * 10 + digit_val c) a s"
    using assms by (induction s arbitrary: a) (simp_all add: to_bytes_def digit_byte)
qed

lemma parse_len_show:
  assumes "n < 10 ^ 10"
  shows "parse_len (to_bytes (show_nat n)) = Inr (Some n)"
proof -
  note d = digits_bytes [OF conjunct1 [OF show_nat_digits [of n]]]
  have "to_bytes (show_nat n) \<noteq> [45, 49]" using d(3) by auto
  moreover have "to_bytes (show_nat n) \<noteq> []" by (metis length_to_bytes length_0_conv show_nat_ne)
  moreover have "length (to_bytes (show_nat n)) \<le> 10"
    using length_show_nat [of n 9] assms by simp
  ultimately show ?thesis
    using d show_nat_digits [of n] by (simp add: parse_len_def digits_val_def)
qed

lemma parse_i64_show:
  assumes "- (2 ^ 63) \<le> i" and "i < 2 ^ 63"
  shows "parse_i64 (to_bytes (show_int i)) = Inr i"
proof -
  have dig: "list_all is_digit (show_nat n)" for n using show_nat_digits [of n] by simp
  have "parse_i64_str (show_int i) = Some i"
    using assms
    by (auto simp: show_int_def parse_i64_str_def strip_sign_digits [OF dig] parse_digits_show nat_le_iff nat_less_iff
        strip_sign_def [of "CHR ''-''" "CHR ''-'' # _"])
  moreover have "utf8_valid (to_bytes (show_int i))"
  proof (rule utf8_valid_ascii)
    have "c = CHR ''-'' \<or> is_digit c" if "c \<in> set (show_int i)" for c
      using that dig by (auto simp: show_int_def list_all_iff split: if_splits)
    moreover have "(of_nat (of_char c) :: byte) < 0x80" if "c = CHR ''-'' \<or> is_digit c" for c
      using that unat_of_nat_of_char [of c] by (auto simp: is_digit_def word_less_nat_alt)
    ultimately show "b < 0x80" if "b \<in> set (to_bytes (show_int i))" for b
      using that by (auto simp: to_bytes_def)
  qed
  ultimately show ?thesis by (simp add: parse_i64_def from_utf8_valid)
qed

section \<open>Lines\<close>

lemma find_crlf_line: "10 \<notin> set body \<Longrightarrow> find_crlf (body @ 13 # 10 # rest) = Some (length body)"
proof (induction body)
  case (Cons a body)
  then have "find_crlf (body @ 13 # 10 # rest) = Some (length body)" by simp
  with Cons.prems show ?case by (cases body) auto
qed simp

lemma take_line_line:
  assumes "kind \<noteq> 10" and "10 \<notin> set body"
  shows "take_line (resp_line kind body @ rest) = Inr (kind, body, length (resp_line kind body))"
proof -
  have "find_crlf ((kind # body) @ 13 # 10 # rest) = Some (length (kind # body))"
    using assms by (intro find_crlf_line) simp
  then show ?thesis by (simp add: take_line_def resp_line_def slice_of_def)
qed

lemma int_line: "10 \<notin> set (to_bytes (show_int i))"
  using digits_bytes(2) [OF conjunct1 [OF show_nat_digits]]
  by (auto simp: show_int_def) (simp add: to_bytes_def)

lemma nat_line: "10 \<notin> set (to_bytes (show_nat n))"
  by (rule digits_bytes(2)) (simp add: show_nat_digits)

lemma length_len_line_pos: "0 < length (len_line kind n)"
  by (simp add: len_line_def resp_line_def)

lemma resp_encode_ne [simp]: "resp_encode v \<noteq> []"
  by (cases v rule: resp_encode.cases) (simp_all add: resp_line_def len_line_def)

section \<open>The parser inverts the encoding\<close>

lemma parse_line_value:
  assumes "depth \<le> MAX_DEPTH" and "10 \<notin> set body" and "kind = 43 \<or> kind = 45"
  shows "parse_value (resp_line kind body @ rest) depth =
     Inr (if kind = 43 then Resp_SimpleString body else Resp_Error body, length (resp_line kind body))"
  using assms take_line_line [of kind body rest]
  by (subst parse_value.simps) (auto simp: not_less)

lemma bulk_bytes:
  assumes "length b < 10 ^ 10" and "depth \<le> MAX_DEPTH"
  shows "parse_value (len_line 36 (length b) @ b @ [13, 10] @ rest) depth =
     Inr (Resp_BulkString (Some b), length (len_line 36 (length b)) + (length b + 2))"
  using assms take_line_line [of 36 "to_bytes (show_nat (length b))" "b @ [13, 10] @ rest"]
  by (subst parse_value.simps)
     (simp add: len_line_def nat_line parse_len_show slice_of_def)

lemma parse_items_encode:
  assumes "list_all (resp_wf depth) vs"
    and "\<And>v rest. v \<in> set vs \<Longrightarrow> resp_wf depth v \<Longrightarrow>
           parse_value (resp_encode v @ rest) depth = Inr (v, length (resp_encode v))"
  shows "parse_items (length vs) (pre @ concat (map resp_encode vs) @ rest) (length pre) depth =
     Inr (vs, length pre + length (concat (map resp_encode vs)))"
  using assms
proof (induction vs arbitrary: pre)
  case Nil
  then show ?case by (simp add: parse_items.simps)
next
  case (Cons v vs)
  have "parse_items (length vs) ((pre @ resp_encode v) @ concat (map resp_encode vs) @ rest)
      (length (pre @ resp_encode v)) depth =
    Inr (vs, length (pre @ resp_encode v) + length (concat (map resp_encode vs)))"
    using Cons.prems by (intro Cons.IH) simp_all
  moreover have "parse_value (resp_encode v @ concat (map resp_encode vs) @ rest) depth =
      Inr (v, length (resp_encode v))"
    using Cons.prems by simp
  ultimately show ?case
    by (subst parse_items.simps) simp
qed

lemma parse_value_encode:
  "resp_wf depth v \<Longrightarrow> parse_value (resp_encode v @ rest) depth = Inr (v, length (resp_encode v))"
proof (induction v arbitrary: depth rest rule: resp_encode.induct)
  case (3 i)
  then show ?case
    using take_line_line [of 58 "to_bytes (show_int i)" rest]
    by (subst parse_value.simps) (simp add: int_line parse_i64_show)
next
  case 4
  then show ?case
    using take_line_line [of 36 "[45, 49]" rest] by (subst parse_value.simps) (simp add: parse_len_def)
next
  case (5 b)
  then show ?case using bulk_bytes [of b depth rest] by simp
next
  case 6
  then show ?case
    using take_line_line [of 42 "[45, 49]" rest] by (subst parse_value.simps) (simp add: parse_len_def)
next
  case (7 vs)
  let ?l = "len_line 42 (length vs)" and ?body = "concat (map resp_encode vs)"
  have len: "length vs < 10 ^ 10" using 7(2) by (simp add: MAX_ARRAY_LEN_def)
  have "parse_items (length vs) (?l @ ?body @ rest) (length ?l) (depth + 1) =
      Inr (vs, length ?l + length ?body)"
    using 7 by (intro parse_items_encode) simp_all
  moreover have "take_line (?l @ ?body @ rest) = Inr (42, to_bytes (show_nat (length vs)), length ?l)"
    using take_line_line [of 42 "to_bytes (show_nat (length vs))" "?body @ rest"] nat_line
    by (simp add: len_line_def)
  ultimately show ?case
    using 7(2) len by (subst parse_value.simps) (simp add: parse_len_show)
qed (simp_all add: parse_line_value)

section \<open>The frame reader stops at the end of a value\<close>

lemma read_line:
  assumes "nr_bytes r = resp_line kind body @ rest" and "kind \<noteq> 10" and "10 \<notin> set body"
  obtains r' where "read_until 10 r = (Inr (resp_line kind body), r')" "nr_bytes r' = rest" "nr_fail r' = nr_fail r"
proof -
  have "nr_bytes r = (kind # body @ [13]) @ [10] @ rest" using assms(1) by (simp add: resp_line_def)
  moreover have "10 \<notin> set (kind # body @ [13])" using assms(2,3) by simp
  ultimately obtain r' where "read_until 10 r = (Inr ((kind # body @ [13]) @ [10]), r')" "nr_bytes r' = rest"
    "nr_fail r' = nr_fail r"
    by (rule read_until_line)
  then show ?thesis by (intro that [of r']) (simp_all add: resp_line_def)
qed

lemma line_parts:
  "resp_line kind body \<noteq> []" "\<not> length (resp_line kind body) < 3"
  "ends_with (resp_line kind body) [13, 10]" "resp_line kind body ! 0 = kind"
  "slice_of (resp_line kind body) 1 (length (resp_line kind body) - 2) = body"
  by (simp_all add: resp_line_def slice_of_def ends_with_def)

lemma nodes_pos: "1 \<le> resp_nodes v"
  by (cases v rule: resp_nodes.cases) simp_all

lemma length_le_nodes: "length vs \<le> sum_list (map resp_nodes vs)"
proof (induction vs)
  case (Cons v vs)
  then show ?case using nodes_pos [of v] by simp
qed simp

definition skips :: "bytes \<Rightarrow> nat \<Rightarrow> bytes \<Rightarrow> net_reader \<Rightarrow> (kvs_error + bytes option) \<times> net_reader \<Rightarrow> bool" where
  "skips frame pending rest r m \<longleftrightarrow>
     (\<exists>r'. m = read_frame_loop frame pending r' \<and> nr_bytes r' = rest \<and> nr_fail r' = nr_fail r)"

lemma skips_line:
  assumes "nr_bytes r = resp_line kind body @ rest" and "10 \<notin> set body"
    and "kind = 43 \<or> kind = 45 \<or> kind = 58 \<or> (kind = 36 \<or> kind = 42) \<and> body = [45, 49]"
  shows "skips (frame @ resp_line kind body) pending rest r (read_frame_loop frame (Suc pending) r)"
proof -
  have "kind \<noteq> 10" using assms(3) by auto
  with assms(1) obtain r' where r': "read_until 10 r = (Inr (resp_line kind body), r')"
    "nr_bytes r' = rest" "nr_fail r' = nr_fail r"
    using assms(2) by (rule read_line)
  then have "read_frame_loop frame (Suc pending) r = read_frame_loop (frame @ resp_line kind body) pending r'"
    using assms(3) line_parts [of kind body]
    by (subst read_frame_loop.simps) (elim disjE conjE; simp add: Let_def parse_len_def)
  with r' show ?thesis by (auto simp: skips_def)
qed

lemma skips_bulk:
  assumes "nr_bytes r = len_line 36 (length b) @ b @ [13, 10] @ rest" and "length b \<le> unat MAX_PAYLOAD"
  shows "skips (frame @ len_line 36 (length b) @ b @ [13, 10]) pending rest r (read_frame_loop frame (Suc pending) r)"
proof -
  let ?l = "to_bytes (show_nat (length b))"
  have "nr_bytes r = resp_line 36 ?l @ b @ [13, 10] @ rest" using assms(1) by (simp add: len_line_def)
  then obtain r1 where r1: "read_until 10 r = (Inr (resp_line 36 ?l), r1)"
    "nr_bytes r1 = b @ [13, 10] @ rest" "nr_fail r1 = nr_fail r"
    by (rule read_line) (simp_all add: nat_line)
  have "nr_bytes r1 = (b @ [13, 10]) @ rest" using r1(2) by simp
  moreover have "length (b @ [13, 10 :: byte]) = length b + 2" by simp
  ultimately obtain r2 where r2: "net_read_exact (length b + 2) r1 = (Inr (b @ [13, 10]), r2)"
    "nr_bytes r2 = rest" "nr_fail r2 = nr_fail r1"
    by (rule net_read_exact_front)
  have "parse_len ?l = Inr (Some (length b))" using assms(2) by (intro parse_len_show) simp
  moreover have "ends_with (frame @ resp_line 36 ?l @ b @ [13, 10]) [13, 10]"
    by (metis append.assoc ends_with_append)
  ultimately have "read_frame_loop frame (Suc pending) r =
      read_frame_loop (frame @ len_line 36 (length b) @ b @ [13, 10]) pending r2"
    using r1(1) r2(1) assms(2) line_parts [of 36 ?l]
    by (subst read_frame_loop.simps) (simp add: Let_def len_line_def)
  with r1 r2 show ?thesis by (auto simp: skips_def)
qed

lemma skips_list:
  assumes "\<And>v frame pending r rest. v \<in> set vs \<Longrightarrow> nr_bytes r = resp_encode v @ rest \<Longrightarrow>
        pending + resp_nodes v \<le> Suc MAX_ARRAY_LEN \<Longrightarrow>
        skips (frame @ resp_encode v) pending rest r (read_frame_loop frame (Suc pending) r)"
    and "nr_bytes r = concat (map resp_encode vs) @ rest"
    and "pending + sum_list (map resp_nodes vs) \<le> Suc MAX_ARRAY_LEN"
  shows "skips (frame @ concat (map resp_encode vs)) pending rest r (read_frame_loop frame (pending + length vs) r)"
  using assms
proof (induction vs arbitrary: frame r)
  case Nil
  then show ?case by (auto simp: skips_def)
next
  case (Cons v vs)
  have "skips (frame @ resp_encode v) (pending + length vs) (concat (map resp_encode vs) @ rest) r
      (read_frame_loop frame (Suc (pending + length vs)) r)"
    using Cons.prems(2,3) length_le_nodes [of vs] by (intro Cons.prems(1)) simp_all
  then obtain r1 where r1: "read_frame_loop frame (Suc (pending + length vs)) r =
      read_frame_loop (frame @ resp_encode v) (pending + length vs) r1"
    "nr_bytes r1 = concat (map resp_encode vs) @ rest" "nr_fail r1 = nr_fail r"
    by (auto simp: skips_def)
  have "skips ((frame @ resp_encode v) @ concat (map resp_encode vs)) pending rest r1
      (read_frame_loop (frame @ resp_encode v) (pending + length vs) r1)"
    using Cons.prems r1(2) by (intro Cons.IH) auto
  with r1 show ?case by (simp add: skips_def)
qed

lemma skips_array:
  assumes "nr_bytes r = len_line 42 (length vs) @ rest" and "pending + length vs \<le> MAX_ARRAY_LEN"
  shows "skips (frame @ len_line 42 (length vs)) (pending + length vs) rest r (read_frame_loop frame (Suc pending) r)"
proof -
  let ?l = "to_bytes (show_nat (length vs))"
  have "nr_bytes r = resp_line 42 ?l @ rest" using assms(1) by (simp add: len_line_def)
  then obtain r1 where r1: "read_until 10 r = (Inr (resp_line 42 ?l), r1)"
    "nr_bytes r1 = rest" "nr_fail r1 = nr_fail r"
    by (rule read_line) (simp_all add: nat_line)
  have "parse_len ?l = Inr (Some (length vs))"
    using assms(2) by (intro parse_len_show) (simp add: MAX_ARRAY_LEN_def)
  then have "read_frame_loop frame (Suc pending) r =
      read_frame_loop (frame @ len_line 42 (length vs)) (pending + length vs) r1"
    using r1(1) assms(2) line_parts [of 42 ?l]
    by (subst read_frame_loop.simps) (simp add: Let_def len_line_def)
  with r1 show ?thesis by (auto simp: skips_def)
qed

lemma skips_value:
  "resp_wf depth v \<Longrightarrow> nr_bytes r = resp_encode v @ rest \<Longrightarrow> pending + resp_nodes v \<le> Suc MAX_ARRAY_LEN \<Longrightarrow>
     skips (frame @ resp_encode v) pending rest r (read_frame_loop frame (Suc pending) r)"
proof (induction v arbitrary: depth frame pending r rest rule: resp_encode.induct)
  case (5 b)
  then show ?case by (simp add: skips_bulk)
next
  case (7 vs)
  let ?l = "len_line 42 (length vs)"
  have "pending + length vs \<le> MAX_ARRAY_LEN" using 7(4) length_le_nodes [of vs] by simp
  then have "skips (frame @ ?l) (pending + length vs) (concat (map resp_encode vs) @ rest) r
      (read_frame_loop frame (Suc pending) r)"
    using 7(3) by (intro skips_array) simp_all
  then obtain r1 where r1: "read_frame_loop frame (Suc pending) r = read_frame_loop (frame @ ?l) (pending + length vs) r1"
    "nr_bytes r1 = concat (map resp_encode vs) @ rest" "nr_fail r1 = nr_fail r"
    by (auto simp: skips_def)
  have "skips ((frame @ ?l) @ concat (map resp_encode vs)) pending rest r1
      (read_frame_loop (frame @ ?l) (pending + length vs) r1)"
    using 7 r1(2) by (intro skips_list) (auto simp: list_all_iff)
  with r1 show ?case by (simp add: skips_def)
qed (auto intro!: skips_line simp: int_line)

lemma read_frame_resp_encode:
  assumes "resp_wf 0 v" and "resp_nodes v \<le> MAX_ARRAY_LEN" and "nr_bytes r = resp_encode v @ rest"
  obtains r' where "read_frame_resp r = (Inr (Some (resp_encode v)), r')" "nr_bytes r' = rest" "nr_fail r' = nr_fail r"
  using skips_value [OF assms(1,3), of 0 "[]"] assms(2)
  by (auto simp: skips_def read_frame_resp_def read_frame_loop.simps [of _ 0])

section \<open>The parser stays inside its buffer\<close>

fun resp_depth :: "resp_value \<Rightarrow> nat" where
  "resp_depth (Resp_Array (Some vs)) = Suc (fold max (map resp_depth vs) 0)"
| "resp_depth _ = 1"

lemma fold_max_le: "fold max ns m \<le> (k :: nat) \<longleftrightarrow> m \<le> k \<and> (\<forall>n \<in> set ns. n \<le> k)"
  by (induction ns arbitrary: m) auto

lemma find_crlf_bound: "find_crlf buf = Some e \<Longrightarrow> e + 2 \<le> length buf"
  by (induction buf arbitrary: e rule: find_crlf.induct) (auto split: if_splits)

lemma take_line_bound: "take_line buf = Inr (kind, body, used) \<Longrightarrow> used \<le> length buf \<and> 3 \<le> used"
  by (auto simp: take_line_def split: option.splits if_splits dest: find_crlf_bound)

lemma parse_in_bounds:
  "parse_value buf depth = Inr (v, used) \<Longrightarrow>
     used \<le> length buf \<and> resp_depth v + depth \<le> Suc MAX_DEPTH \<and> 3 * resp_nodes v \<le> used"
  "parse_items n buf start depth = Inr (vs, used) \<Longrightarrow> start \<le> length buf \<Longrightarrow>
     used \<le> length buf \<and> length vs = n \<and> (\<forall>v \<in> set vs. resp_depth v + depth \<le> Suc MAX_DEPTH) \<and>
     start + 3 * sum_list (map resp_nodes vs) \<le> used"
proof (induction buf depth and n buf start depth arbitrary: v used and vs used rule: parse_value_parse_items.induct)
  case (1 buf depth)
  from "1.prems" have d: "\<not> MAX_DEPTH < depth"
    by (auto simp: parse_value.simps [of buf depth] split: if_splits)
  with "1.prems" obtain kind body k where line: "take_line buf = Inr (kind, body, k)"
    by (auto simp: parse_value.simps [of buf depth] res_iffs split: if_splits)
  have k: "k \<le> length buf" and k3: "3 \<le> k" using take_line_bound [OF line] by simp_all
  show ?case
  proof (cases "kind = 42")
    case False
    with "1.prems" d line k k3 show ?thesis
      by (auto simp: parse_value.simps [of buf depth] res_iffs split: if_splits option.splits)
  next
    case True
    with "1.prems" d line consider "v = Resp_Array None" "used = k"
      | n vs where "parse_len body = Inr (Some n)" "v = Resp_Array (Some vs)"
          "parse_items n buf k (depth + 1) = Inr (vs, used)"
      by (auto simp: parse_value.simps [of buf depth] res_iffs split: if_splits option.splits)
    then show ?thesis
    proof cases
      case 1
      with d k k3 show ?thesis by simp
    next
      case 2
      from "1.IH" [OF d line refl refl _ _ _ _ True 2(1) refl 2(3) k] True
      have "used \<le> length buf" "\<forall>v \<in> set vs. resp_depth v + (depth + 1) \<le> Suc MAX_DEPTH"
        and "k + 3 * sum_list (map resp_nodes vs) \<le> used" by auto
      moreover from this(2) d have "fold max (map resp_depth vs) 0 \<le> MAX_DEPTH - depth"
        by (auto simp: fold_max_le)
      ultimately show ?thesis using 2(2) d k3 by simp
    qed
  qed
next
  case (2 n buf start depth)
  show ?case
  proof (cases "n = 0")
    case True
    with "2.prems" show ?thesis by (simp add: parse_items.simps [of 0])
  next
    case False
    with "2.prems"(1) obtain item k items where
      item: "parse_value (drop start buf) depth = Inr (item, k)"
      and items: "parse_items (n - 1) buf (start + k) depth = Inr (items, used)" and vs: "vs = item # items"
      by (auto simp: parse_items.simps [of n] res_iffs)
    from "2.IH"(1) [OF False item] "2.prems"(2) have k: "start + k \<le> length buf"
      "resp_depth item + depth \<le> Suc MAX_DEPTH" "3 * resp_nodes item \<le> k" by auto
    from "2.IH"(2) [OF False item refl items k(1)] k(2,3) vs False show ?thesis by simp
  qed
qed

section \<open>Cut frames\<close>

text \<open>
  What follows a frame in the stream does not change how it is read, and a frame is the bytes that
  were consumed for it.
\<close>

lemma read_until_more:
  assumes "read_until d r = (Inr line, r')" and "d \<in> set line" and "nr_bytes s = nr_bytes r @ ext"
  obtains s' where "read_until d s = (Inr line, s')" "nr_bytes s' = nr_bytes r' @ ext"
proof -
  have eq: "nr_bytes r = line @ nr_bytes r'" using read_until_consumes [OF assms(1)] by simp
  with assms(2) obtain pre rest where split: "nr_bytes r = pre @ [d] @ rest" "d \<notin> set pre"
    by (metis Un_iff append_Cons append_Nil set_append split_list_first)
  then obtain r'' where "read_until d r = (Inr (pre @ [d]), r'')" "nr_bytes r'' = rest"
    by (rule read_until_line)
  with assms(1) have line: "line = pre @ [d]" "nr_bytes r' = rest" by simp_all
  have "nr_bytes s = pre @ [d] @ rest @ ext" using assms(3) split by simp
  then obtain s' where "read_until d s = (Inr (pre @ [d]), s')" "nr_bytes s' = rest @ ext"
    using split(2) by (rule read_until_line)
  with line show ?thesis by (intro that) simp_all
qed

lemma net_read_exact_more:
  assumes "net_read_exact n r = (Inr data, r')" and "nr_bytes s = nr_bytes r @ ext"
  obtains s' where "net_read_exact n s = (Inr data, s')" "nr_bytes s' = nr_bytes r' @ ext"
proof -
  have n: "n \<le> length (nr_bytes r)" using net_read_exact_consumes [OF assms(1)] by simp
  then obtain r'' where "net_read_exact n r = (Inr (take n (nr_bytes r)), r'')" "nr_bytes r'' = drop n (nr_bytes r)"
    by (rule net_read_exact_ok)
  with assms(1) have d: "data = take n (nr_bytes r)" "nr_bytes r' = drop n (nr_bytes r)" by simp_all
  have "n \<le> length (nr_bytes s)" using n assms(2) by simp
  then obtain s' where "net_read_exact n s = (Inr (take n (nr_bytes s)), s')" "nr_bytes s' = drop n (nr_bytes s)"
    by (rule net_read_exact_ok)
  with d n assms(2) show ?thesis by (intro that) simp_all
qed

text \<open>One round of the loop: the bytes it adds to the frame and the values still to come.\<close>

lemma read_frame_loop_round:
  assumes "read_frame_loop frame pending r = (Inr (Some f), r')" and "pending \<noteq> 0"
  obtains line data p r1 where "nr_bytes r = line @ data @ nr_bytes r1" "line \<noteq> []"
    "read_frame_loop (frame @ line @ data) p r1 = (Inr (Some f), r')"
    "\<And>s ext. nr_bytes s = nr_bytes r @ ext \<Longrightarrow>
       \<exists>s1. nr_bytes s1 = nr_bytes r1 @ ext \<and>
         read_frame_loop frame pending s = read_frame_loop (frame @ line @ data) p s1"
proof -
  obtain line r1 where line: "read_until 10 r = (Inr line, r1)" "line \<noteq> []" "\<not> length line < 3"
    "ends_with line [13, 10]"
    using assms by (subst (asm) read_frame_loop.simps) (auto simp: Let_def res_iffs split: if_splits)
  have lf: "10 \<in> set line" using line(4) by (auto simp: ends_with_iff)
  note bytes = read_until_consumes [OF line(1)] and tail = assms(1)
  let ?kind = "line ! 0" and ?body = "slice_of line 1 (length line - 2)"
  have ext: "\<exists>s1. nr_bytes s1 = nr_bytes r1 @ m \<and> read_until 10 s = (Inr line, s1)"
    if "nr_bytes s = nr_bytes r @ m" for s m
    using read_until_more [OF line(1) lf that] by metis
  consider (simple) p where "(?kind = 43 \<or> ?kind = 45 \<or> ?kind = 58) \<and> p = pending - 1 \<or>
        (?kind = 36 \<or> ?kind = 42) \<and> parse_len ?body = Inr None \<and> p = pending - 1 \<or>
        (\<exists>len. ?kind = 42 \<and> parse_len ?body = Inr (Some len) \<and>
           \<not> (MAX_ARRAY_LEN < len \<or> MAX_ARRAY_LEN < pending - 1 + len) \<and> p = pending - 1 + len)"
    | (bulk) len data r2 where "?kind = 36" "parse_len ?body = Inr (Some len)" "\<not> unat MAX_PAYLOAD < len"
        "net_read_exact (len + 2) r1 = (Inr data, r2)" "ends_with (frame @ line @ data) [13, 10]"
    using tail assms(2) line
    by (subst (asm) read_frame_loop.simps, cases "parse_len ?body"; cases "projr (parse_len ?body)")
       (auto simp: Let_def res_iffs split: if_splits)
  then show ?thesis
  proof cases
    case simple
    have step: "read_frame_loop frame pending s = read_frame_loop (frame @ line) p s1"
      if "read_until 10 s = (Inr line, s1)" for s s1
      using simple that assms(2) line(2-) by (subst read_frame_loop.simps) (auto simp: Let_def)
    show ?thesis
    proof (rule that [of line "[]" r1 p])
      show "nr_bytes r = line @ [] @ nr_bytes r1" using bytes by simp
      show "read_frame_loop (frame @ line @ []) p r1 = (Inr (Some f), r')"
        using step [OF line(1)] tail by simp
      show "\<exists>s1. nr_bytes s1 = nr_bytes r1 @ m \<and>
          read_frame_loop frame pending s = read_frame_loop (frame @ line @ []) p s1"
        if "nr_bytes s = nr_bytes r @ m" for s m
        using ext [OF that] step by auto
    qed (rule line(2))
  next
    case bulk
    have step: "read_frame_loop frame pending s = read_frame_loop (frame @ line @ data) (pending - 1) s2"
      if "read_until 10 s = (Inr line, s1)" "net_read_exact (len + 2) s1 = (Inr data, s2)" for s s1 s2
      using bulk that assms(2) line(2-) by (subst read_frame_loop.simps) (auto simp: Let_def)
    show ?thesis
    proof (rule that [of line data r2 "pending - 1"])
      show "nr_bytes r = line @ data @ nr_bytes r2"
        using bytes net_read_exact_bytes [OF bulk(4)] by simp
      show "read_frame_loop (frame @ line @ data) (pending - 1) r2 = (Inr (Some f), r')"
        using step [OF line(1) bulk(4)] tail by simp
      show "\<exists>s1. nr_bytes s1 = nr_bytes r2 @ m \<and>
          read_frame_loop frame pending s = read_frame_loop (frame @ line @ data) (pending - 1) s1"
        if m: "nr_bytes s = nr_bytes r @ m" for s m
      proof -
        obtain s1 where s1: "nr_bytes s1 = nr_bytes r1 @ m" "read_until 10 s = (Inr line, s1)"
          using ext [OF m] by blast
        obtain s2 where "net_read_exact (len + 2) s1 = (Inr data, s2)" "nr_bytes s2 = nr_bytes r2 @ m"
          by (rule net_read_exact_more [OF bulk(4) s1(1)])
        with s1 step show ?thesis by blast
      qed
    qed (rule line(2))
  qed
qed

lemma read_frame_loop_prefix:
  assumes "read_frame_loop frame pending r = (Inr (Some f), r')"
  shows "(\<exists>used. f = frame @ used \<and> nr_bytes r = used @ nr_bytes r') \<and>
         (\<forall>s ext. nr_bytes s = nr_bytes r @ ext \<longrightarrow>
            (\<exists>s'. read_frame_loop frame pending s = (Inr (Some f), s') \<and> nr_bytes s' = nr_bytes r' @ ext))"
  using assms
proof (induction "length (nr_bytes r)" arbitrary: frame pending r rule: less_induct)
  case less
  show ?case
  proof (cases "pending = 0")
    case True
    with less.prems show ?thesis by (auto simp: read_frame_loop.simps [of _ 0])
  next
    case False
    with less.prems obtain line data p r1 where
      round: "nr_bytes r = line @ data @ nr_bytes r1" "line \<noteq> []"
      "read_frame_loop (frame @ line @ data) p r1 = (Inr (Some f), r')"
      and ext: "\<And>s m. nr_bytes s = nr_bytes r @ m \<Longrightarrow>
        \<exists>s1. nr_bytes s1 = nr_bytes r1 @ m \<and>
          read_frame_loop frame pending s = read_frame_loop (frame @ line @ data) p s1"
      by (rule read_frame_loop_round) blast
    from round(1,2) have "length (nr_bytes r1) < length (nr_bytes r)" by (cases line) simp_all
    note ih = less.hyps [OF this round(3)]
    then obtain used where "f = (frame @ line @ data) @ used" "nr_bytes r1 = used @ nr_bytes r'" by blast
    with round(1) have "\<exists>used. f = frame @ used \<and> nr_bytes r = used @ nr_bytes r'"
      by (intro exI [of _ "line @ data @ used"]) simp
    moreover have "\<exists>s'. read_frame_loop frame pending s = (Inr (Some f), s') \<and> nr_bytes s' = nr_bytes r' @ m"
      if m: "nr_bytes s = nr_bytes r @ m" for s m
    proof -
      obtain s1 where s1: "nr_bytes s1 = nr_bytes r1 @ m"
        "read_frame_loop frame pending s = read_frame_loop (frame @ line @ data) p s1"
        using ext [OF m] by blast
      with ih show ?thesis by auto
    qed
    ultimately show ?thesis by blast
  qed
qed

end
