(* ===== verification/Resp_Replies.thy ===== *)
theory Resp_Replies
  imports Resp_Correct
begin

text \<open>
  RESP commands and replies: what \<open>decode_request_resp\<close> makes of a command sent as an array of bulk
  strings, and that every reply the server writes is the encoding of exactly one value.
\<close>

section \<open>Commands\<close>

definition resp_cmd :: "bytes list \<Rightarrow> resp_value" where
  "resp_cmd args = Resp_Array (Some (map (\<lambda>b. Resp_BulkString (Some b)) args))"

definition args_ok :: "bytes list \<Rightarrow> bool" where
  "args_ok args \<longleftrightarrow> length args < MAX_ARRAY_LEN \<and> (\<forall>b \<in> set args. length b \<le> unat MAX_PAYLOAD)"

fun request_name :: "request \<Rightarrow> string" where
  "request_name (Request_Get key) = ''GET''"
| "request_name (Request_Set key v) = ''SET''"
| "request_name (Request_Rm key) = ''DEL''"

fun request_args :: "request \<Rightarrow> bytes list" where
  "request_args (Request_Get key) = [key]"
| "request_args (Request_Set key v) = [key, v]"
| "request_args (Request_Rm key) = [key]"

lemma resp_cmd_wf: "args_ok args \<Longrightarrow> resp_wf 0 (resp_cmd args)"
  by (simp add: resp_cmd_def args_ok_def MAX_DEPTH_def list_all_iff)

lemma nodes_bulk: "sum_list (map resp_nodes (map (\<lambda>b. Resp_BulkString (Some b)) args)) = length args"
  by (induction args) simp_all

lemma resp_cmd_nodes: "args_ok args \<Longrightarrow> resp_nodes (resp_cmd args) \<le> MAX_ARRAY_LEN"
  using nodes_bulk [of args] by (simp add: resp_cmd_def args_ok_def)

lemma bulk_args_cmd [simp]: "bulk_args (map (\<lambda>b. Resp_BulkString (Some b)) args) = Inr args"
  by (induction args) simp_all

lemma parse_resp_encode: "resp_wf 0 v \<Longrightarrow> parse_resp (resp_encode v) = Inr v"
  using parse_value_encode [of 0 v "[]"] by (simp add: parse_resp_def)

lemma eq_ignore_ascii_case_trans:
  "eq_ignore_ascii_case a b \<Longrightarrow> eq_ignore_ascii_case a c \<longleftrightarrow> eq_ignore_ascii_case b c"
  by (simp add: eq_ignore_ascii_case_def)

lemma command_names:
  "\<not> eq_ignore_ascii_case (to_bytes ''SET'') (to_bytes ''GET'')"
  "\<not> eq_ignore_ascii_case (to_bytes ''DEL'') (to_bytes ''GET'')"
  "\<not> eq_ignore_ascii_case (to_bytes ''DEL'') (to_bytes ''SET'')"
  "eq_ignore_ascii_case a a"
  by (code_simp, code_simp, code_simp, simp add: eq_ignore_ascii_case_def)

lemma decode_command:
  assumes "args_ok (name # request_args req)" and "request_ok req"
    and "eq_ignore_ascii_case name (to_bytes (request_name req))"
  shows "decode_request_resp (resp_encode (resp_cmd (name # request_args req))) = Inr (RespRequest_Kv req)"
  using parse_resp_encode [OF resp_cmd_wf [OF assms(1)]] assms(2)
    eq_ignore_ascii_case_trans [OF assms(3)] command_names
  by (cases req) (simp_all add: decode_request_resp_def resp_cmd_def check_args_def)

text \<open>The message about a wrong number of arguments.\<close>

definition arity_message :: "request \<Rightarrow> string" where
  "arity_message req =
     ''wrong number of arguments for '' @ [CHR 0x27] @
     (case req of Request_Get _ \<Rightarrow> ''get'' | Request_Set _ _ \<Rightarrow> ''set'' | Request_Rm _ \<Rightarrow> ''del'') @
     [CHR 0x27] @ '' command''"

lemma lossy_ascii: "(\<And>b. b \<in> set bs \<Longrightarrow> b < 0x80) \<Longrightarrow> from_utf8_lossy bs = bs"
proof (induction bs)
  case Nil
  show ?case by (simp add: from_utf8_lossy.simps)
next
  case (Cons b bs)
  then have "b < 0x80" by simp
  then have "utf8_char (b # bs) = Inr 1" by (simp add: utf8_char_width_def)
  with Cons show ?case by (simp add: from_utf8_lossy.simps [of "b # bs"])
qed

lemma ascii_lower_less: "ascii_lower b < 0x80 \<Longrightarrow> b < 0x80"
  by (auto simp: ascii_lower_def word_less_nat_alt word_le_nat_alt split: if_splits)

lemma name_lossy:
  assumes "eq_ignore_ascii_case name (to_bytes n)" and "\<And>b. b \<in> set (map ascii_lower (to_bytes n)) \<Longrightarrow> b < 0x80"
  shows "map ascii_lower (from_utf8_lossy name) = map ascii_lower (to_bytes n)"
proof -
  have eq: "map ascii_lower name = map ascii_lower (to_bytes n)" using assms(1) by (simp add: eq_ignore_ascii_case_def)
  have "from_utf8_lossy name = name"
  proof (rule lossy_ascii)
    fix b assume "b \<in> set name"
    then have "ascii_lower b \<in> set (map ascii_lower (to_bytes n))" using eq by (metis image_eqI set_map)
    then show "b < 0x80" using assms(2) ascii_lower_less by blast
  qed
  with eq show ?thesis by simp
qed

lemma lower_names:
  "of_bytes (map ascii_lower (to_bytes ''GET'')) = ''get''"
  "of_bytes (map ascii_lower (to_bytes ''SET'')) = ''set''"
  "of_bytes (map ascii_lower (to_bytes ''DEL'')) = ''del''"
  "list_all (\<lambda>b. b < 0x80) (map ascii_lower (to_bytes ''GET''))"
  "list_all (\<lambda>b. b < 0x80) (map ascii_lower (to_bytes ''SET''))"
  "list_all (\<lambda>b. b < 0x80) (map ascii_lower (to_bytes ''DEL''))"
  by code_simp+

lemma config_name:
  "\<not> eq_ignore_ascii_case (to_bytes ''CONFIG'') (to_bytes ''GET'')"
  "\<not> eq_ignore_ascii_case (to_bytes ''CONFIG'') (to_bytes ''SET'')"
  "\<not> eq_ignore_ascii_case (to_bytes ''CONFIG'') (to_bytes ''DEL'')"
  by code_simp+

lemma arity_error:
  assumes "eq_ignore_ascii_case name (to_bytes (request_name req))" and "length args \<noteq> n"
  shows "check_args name args n = Inl (InvalidData (arity_message req))"
proof -
  have low: "list_all (\<lambda>b. b < 0x80) (map ascii_lower (to_bytes (request_name req)))"
    by (cases req) (simp_all only: request_name.simps lower_names)
  have "map ascii_lower (from_utf8_lossy name) = map ascii_lower (to_bytes (request_name req))"
    using low by (intro name_lossy [OF assms(1)]) (auto simp only: list_all_iff)
  then show ?thesis
    using assms(2) by (cases req) (simp_all add: check_args_def arity_message_def lower_names)
qed

lemma decode_wrong_arity:
  assumes "args_ok (name # args)" and "eq_ignore_ascii_case name (to_bytes (request_name req))"
    and "length args \<noteq> length (request_args req)"
  shows "decode_request_resp (resp_encode (resp_cmd (name # args))) = Inl (InvalidData (arity_message req))"
proof -
  note names = eq_ignore_ascii_case_trans [OF assms(2)] command_names
  have "check_args name args (length (request_args req)) = Inl (InvalidData (arity_message req))"
    by (rule arity_error [OF assms(2,3)])
  then show ?thesis
    using parse_resp_encode [OF resp_cmd_wf [OF assms(1)]] names
    by (cases req) (simp_all add: decode_request_resp_def resp_cmd_def numeral_2_eq_2)
qed

lemma utf8_Inl: "\<not> utf8_valid b \<Longrightarrow> utf8 b = Inl (InvalidData ''invalid utf-8'')"
  by (auto simp: utf8_def from_utf8_def utf8_valid_def split: option.split)

lemma utf8_Inr: "utf8_valid b \<Longrightarrow> utf8 b = Inr b"
  by (simp add: utf8_def from_utf8_valid)

lemma decode_not_utf8:
  assumes "args_ok (name # args)" and "eq_ignore_ascii_case name (to_bytes (request_name req))"
    and "length args = length (request_args req)" and "\<not> list_all utf8_valid args"
  shows "decode_request_resp (resp_encode (resp_cmd (name # args))) = Inl (InvalidData ''invalid utf-8'')"
proof -
  note names = eq_ignore_ascii_case_trans [OF assms(2)] command_names
  note frame = parse_resp_encode [OF resp_cmd_wf [OF assms(1)]]
  show ?thesis
  proof (cases req)
    case (Request_Get key)
    then obtain a where "args = [a]" using assms(3) by (auto simp: length_Suc_conv)
    with assms(4) frame names Request_Get show ?thesis
      by (simp add: decode_request_resp_def resp_cmd_def check_args_def utf8_Inl)
  next
    case (Request_Set key v)
    then obtain a b where "args = [a, b]" using assms(3) by (auto simp: length_Suc_conv)
    with assms(4) frame names Request_Set show ?thesis
      by (cases "utf8_valid a") (simp_all add: decode_request_resp_def resp_cmd_def check_args_def utf8_Inl utf8_Inr)
  next
    case (Request_Rm key)
    then obtain a where "args = [a]" using assms(3) by (auto simp: length_Suc_conv)
    with assms(4) frame names Request_Rm show ?thesis
      by (simp add: decode_request_resp_def resp_cmd_def check_args_def utf8_Inl)
  qed
qed

lemma decode_config:
  assumes "args_ok (name # args)" and "eq_ignore_ascii_case name (to_bytes ''CONFIG'')"
  shows "decode_request_resp (resp_encode (resp_cmd (name # args))) =
     (if args \<noteq> [] \<and> eq_ignore_ascii_case (hd args) (to_bytes ''GET'') then Inr (RespRequest_ConfigGet (tl args))
      else Inl (InvalidData (''unknown subcommand for '' @ [CHR 0x27] @ ''config'' @ [CHR 0x27] @ '' command'')))"
  using parse_resp_encode [OF resp_cmd_wf [OF assms(1)]] assms(2)
    eq_ignore_ascii_case_trans [OF assms(2)] config_name
  by (cases args) (simp_all add: decode_request_resp_def resp_cmd_def)

lemma decode_unknown:
  assumes "args_ok (name # args)"
    and "\<forall>known \<in> {''GET'', ''SET'', ''DEL'', ''CONFIG''}. \<not> eq_ignore_ascii_case name (to_bytes known)"
  shows "decode_request_resp (resp_encode (resp_cmd (name # args))) =
     Inl (InvalidData (''unknown command '' @ [CHR 0x27] @ of_bytes (from_utf8_lossy name) @ [CHR 0x27]))"
  using parse_resp_encode [OF resp_cmd_wf [OF assms(1)]] assms(2)
  by (simp add: decode_request_resp_def resp_cmd_def)

section \<open>Replies\<close>

definition error_reply :: "string \<Rightarrow> resp_value" where
  "error_reply msg =
     Resp_Error (to_bytes ''ERR '' @ map (\<lambda>b. if b = 13 \<or> b = 10 then 32 else b) (to_bytes msg))"

fun resp_reply :: "resp_command \<Rightarrow> response \<Rightarrow> resp_value" where
  "resp_reply cmd (Response_Value v) = Resp_BulkString (Some v)"
| "resp_reply RespCommand_Del Response_Ok = Resp_Integer 1"
| "resp_reply RespCommand_Del (Response_Error EC_KeyNotFound) = Resp_Integer 0"
| "resp_reply RespCommand_Get (Response_Error EC_KeyNotFound) = Resp_BulkString None"
| "resp_reply cmd Response_Ok = Resp_SimpleString (to_bytes ''OK'')"
| "resp_reply cmd (Response_Error code) = error_reply (error_code_to_string code)"

definition config_reply :: "bytes list \<Rightarrow> resp_value" where
  "config_reply names = Resp_Array (Some (concat (map (\<lambda>n. [Resp_BulkString (Some n), Resp_BulkString (Some [])]) names)))"

lemma write_error_sends: "healthy w \<Longrightarrow> sends (resp_encode (error_reply msg)) w (write_error w msg)"
proof -
  assume w: "healthy w"
  let ?msg = "map (\<lambda>b. if b = 13 \<or> b = 10 then 32 else b) (to_bytes msg)"
  have "sends (concat [to_bytes ''-ERR '', ?msg, [13, 10]] @ []) w (write_error w msg)"
    unfolding write_error_def Let_def using w by (intro sends_bind write_fmt_sends sends_Ok)
  moreover have "to_bytes ''-ERR '' = 45 # to_bytes ''ERR ''" by (simp add: to_bytes_def)
  ultimately show ?thesis by (simp add: error_reply_def resp_line_def)
qed

lemma error_reply_wf: "resp_wf 0 (error_reply msg)"
  by (auto simp: error_reply_def to_bytes_def MAX_DEPTH_def)

lemma write_bulk_sends:
  assumes "healthy w"
  shows "sends (resp_encode (Resp_BulkString (Some v))) w
     (st_bind (write_fmt [to_bytes ''$'', to_bytes (show_nat (length v)), [13, 10]] w) (\<lambda>_ w.
      st_bind (nw_write_all v w) (\<lambda>_ w. nw_write_all [13, 10] w)))"
proof -
  have "to_bytes ''$'' = [36]" by (simp add: to_bytes_def)
  then have "resp_encode (Resp_BulkString (Some v)) =
      concat [to_bytes ''$'', to_bytes (show_nat (length v)), [13, 10]] @ v @ [13, 10]"
    by (simp add: len_line_def resp_line_def)
  then show ?thesis
    using assms by (simp only:) (intro sends_bind write_fmt_sends nw_write_all_sends)
qed

lemma fixed_replies:
  "to_bytes '':1'' @ [13, 10] = resp_encode (Resp_Integer 1)"
  "to_bytes '':0'' @ [13, 10] = resp_encode (Resp_Integer 0)"
  "to_bytes ''$-1'' @ [13, 10] = resp_encode (Resp_BulkString None)"
  "to_bytes ''+OK'' @ [13, 10] = resp_encode (Resp_SimpleString (to_bytes ''OK''))"
  by code_simp+

lemma write_response_resp_sends:
  "healthy w \<Longrightarrow> sends (resp_encode (resp_reply cmd resp)) w (write_response_resp w cmd resp)"
  unfolding write_response_resp_def fixed_replies
  by (cases "(cmd, resp)" rule: resp_reply.cases)
     (simp_all add: write_bulk_sends write_error_sends nw_write_all_sends
        del: resp_encode.simps append.simps write_fmt.simps split: resp_command.split error_code.split)

lemma config_names_sends:
  "healthy w \<Longrightarrow>
     sends (concat (map (\<lambda>n. resp_encode (Resp_BulkString (Some n)) @ resp_encode (Resp_BulkString (Some []))) names))
       w (config_names names w)"
proof (induction names arbitrary: w)
  case Nil
  then show ?case by (simp add: sends_Ok)
next
  case (Cons n names)
  have "[13, 10] @ to_bytes ''$0'' @ [13, 10, 13, 10] = [13, 10] @ resp_encode (Resp_BulkString (Some []))"
    by code_simp
  moreover have "to_bytes ''$'' = [36]" by (simp add: to_bytes_def)
  ultimately have eq: "concat (map (\<lambda>n. resp_encode (Resp_BulkString (Some n)) @ resp_encode (Resp_BulkString (Some []))) (n # names)) =
      concat [to_bytes ''$'', to_bytes (show_nat (length n)), [13, 10]] @ n @
      ([13, 10] @ to_bytes ''$0'' @ [13, 10, 13, 10]) @
      concat (map (\<lambda>n. resp_encode (Resp_BulkString (Some n)) @ resp_encode (Resp_BulkString (Some []))) names)"
    by (simp add: len_line_def resp_line_def)
  show ?case
    unfolding eq config_names.simps(2)
    using Cons.prems by (intro sends_bind write_fmt_sends nw_write_all_sends Cons.IH)
qed

lemma config_pairs:
  "length (concat (map (\<lambda>n. [Resp_BulkString (Some n), Resp_BulkString (Some [])]) names)) = length names * 2"
  "concat (map resp_encode (concat (map (\<lambda>n. [Resp_BulkString (Some n), Resp_BulkString (Some [])]) names))) =
   concat (map (\<lambda>n. resp_encode (Resp_BulkString (Some n)) @ resp_encode (Resp_BulkString (Some []))) names)"
  by (induction names) simp_all

lemma write_config_get_sends: "healthy w \<Longrightarrow> sends (resp_encode (config_reply names)) w (write_config_get w names)"
proof -
  assume w: "healthy w"
  have "to_bytes ''*'' = [42]" by (simp add: to_bytes_def)
  then have "resp_encode (config_reply names) =
      concat [to_bytes ''*'', to_bytes (show_nat (length names * 2)), [13, 10]] @
      concat (map (\<lambda>n. resp_encode (Resp_BulkString (Some n)) @ resp_encode (Resp_BulkString (Some []))) names)"
    by (simp only: config_reply_def resp_encode.simps(7) config_pairs) (simp add: len_line_def resp_line_def)
  then show ?thesis
    unfolding write_config_get_def using w
    by (simp only:) (intro sends_bind write_fmt_sends config_names_sends)
qed

lemma resp_reply_wf:
  assumes "\<And>v. resp = Response_Value v \<Longrightarrow> length v \<le> unat MAX_PAYLOAD"
  shows "resp_wf 0 (resp_reply cmd resp)"
proof -
  have "10 \<notin> set (to_bytes ''OK'')" by code_simp
  with assms show ?thesis
    by (cases "(cmd, resp)" rule: resp_reply.cases) (simp_all add: error_reply_wf MAX_DEPTH_def)
qed

lemma config_reply_wf:
  assumes "\<And>n. n \<in> set names \<Longrightarrow> length n \<le> unat MAX_PAYLOAD" and "2 * length names \<le> MAX_ARRAY_LEN"
  shows "resp_wf 0 (config_reply names)"
  using assms config_pairs(1) [of names] by (auto simp: config_reply_def list_all_iff MAX_DEPTH_def)

lemma refuse_length:
  assumes "n < 10 ^ 10" and "nr_bytes r = len_line kind n @ rest"
    and "kind = 42 \<and> MAX_ARRAY_LEN < n \<or> kind = 36 \<and> unat MAX_PAYLOAD < n"
  shows "\<exists>r'. read_frame_loop frame (Suc pending) r =
     (Inl (protocol_error (if kind = 42 then ''array too large'' else ''bulk string too large'')), r') \<and> nr_bytes r' = rest"
proof -
  let ?l = "to_bytes (show_nat n)"
  have "nr_bytes r = resp_line kind ?l @ rest" using assms(2) by (simp add: len_line_def)
  moreover have "kind \<noteq> 10" using assms(3) by auto
  ultimately obtain r1 where r1: "read_until 10 r = (Inr (resp_line kind ?l), r1)" "nr_bytes r1 = rest"
    by (rule read_line) (simp add: nat_line)
  have "parse_len ?l = Inr (Some n)" using assms(1) by (rule parse_len_show)
  then show ?thesis
    using r1 assms(3) line_parts [of kind ?l]
    by (subst read_frame_loop.simps) (elim disjE conjE; simp add: Let_def)
qed

lemma refuse_array:
  assumes "n < 10 ^ 10" and "MAX_ARRAY_LEN < n" and "nr_bytes r = len_line 42 n @ rest"
  shows "\<exists>r'. read_frame_resp r = (Inl (protocol_error ''array too large''), r') \<and> nr_bytes r' = rest"
  using refuse_length [OF assms(1,3), of "[]" 0] assms(2) by (simp add: read_frame_resp_def)

lemma refuse_argument:
  assumes "n < 10 ^ 10" and n: "unat MAX_PAYLOAD < n" and m: "m \<le> MAX_ARRAY_LEN" "length args < m"
    and args: "\<forall>b \<in> set args. length b \<le> unat MAX_PAYLOAD"
    and r: "nr_bytes r = len_line 42 m @ concat (map (\<lambda>b. resp_encode (Resp_BulkString (Some b))) args) @ len_line 36 n @ rest"
  shows "\<exists>r'. read_frame_resp r = (Inl (protocol_error ''bulk string too large''), r') \<and> nr_bytes r' = rest"
proof -
  let ?vs = "map (\<lambda>b. Resp_BulkString (Some b)) args"
  have bytes: "concat (map (\<lambda>b. resp_encode (Resp_BulkString (Some b))) args) = concat (map resp_encode ?vs)"
    by (simp only: map_map o_def)
  obtain r1 where r1: "read_frame_loop [] 1 r = read_frame_loop (len_line 42 m) m r1"
    "nr_bytes r1 = concat (map resp_encode ?vs) @ len_line 36 n @ rest"
    using skips_array [of r "replicate m (Resp_Integer 0)" "concat (map resp_encode ?vs) @ len_line 36 n @ rest" 0 "[]"] r m(1) bytes
    by (auto simp: skips_def)
  obtain k where k: "m = Suc k + length args" using m(2) less_imp_Suc_add by (metis add.commute add_Suc)
  have one: "skips (frame @ resp_encode v) pending rest' r' (read_frame_loop frame (Suc pending) r')"
    if "v \<in> set ?vs" "nr_bytes r' = resp_encode v @ rest'" "pending + resp_nodes v \<le> Suc MAX_ARRAY_LEN" for v frame pending r' rest'
    using that args by (intro skips_value [of 0]) (auto simp: MAX_DEPTH_def)
  have "Suc k + sum_list (map resp_nodes ?vs) \<le> Suc MAX_ARRAY_LEN" using m(1) k nodes_bulk [of args] by simp
  from skips_list [OF one r1(2) this, of "len_line 42 m"] obtain r2 where
    r2: "read_frame_loop (len_line 42 m) m r1 = read_frame_loop (len_line 42 m @ concat (map resp_encode ?vs)) (Suc k) r2"
    "nr_bytes r2 = len_line 36 n @ rest"
    using k by (auto simp: skips_def)
  from refuse_length [OF assms(1) r2(2), of "len_line 42 m @ concat (map resp_encode ?vs)" k] n show ?thesis
    using r1(1) r2(1) by (simp add: read_frame_resp_def)
qed

section \<open>Properties\<close>

text \<open>
  C31. The RESP codec: \<open>parse_resp\<close> gives back every value from its encoding, and \<open>read_frame_resp\<close>
  cuts the encoding out of the stream, whatever the chunks it arrives in, and leaves what follows.
\<close>

theorem resp_roundtrip:
  assumes "resp_wf 0 v"
  shows "parse_resp (resp_encode v) = Inr v \<and>
         (resp_nodes v \<le> MAX_ARRAY_LEN \<longrightarrow>
            (\<forall>r rest. nr_bytes r = resp_encode v @ rest \<longrightarrow>
               (\<exists>r'. read_frame_resp r = (Inr (Some (resp_encode v)), r') \<and> nr_bytes r' = rest)))"
  using parse_resp_encode [OF assms] read_frame_resp_encode [OF assms] by metis

theorem resp_roundtrip_witness:
  "\<exists>r'. read_frame_resp (one_reader (to_bytes ''*1'' @ [13, 10] @ to_bytes '':-7'' @ [13, 10, 43])) =
      (Inr (Some (to_bytes ''*1'' @ [13, 10] @ to_bytes '':-7'' @ [13, 10])), r') \<and> nr_bytes r' = [43]"
proof -
  let ?v = "Resp_Array (Some [Resp_Integer (-7)])"
  have e: "resp_encode ?v = to_bytes ''*1'' @ [13, 10] @ to_bytes '':-7'' @ [13, 10]" by code_simp
  have ok: "resp_wf 0 ?v" "resp_nodes ?v \<le> MAX_ARRAY_LEN" by code_simp+
  have "nr_bytes (one_reader (resp_encode ?v @ [43])) = resp_encode ?v @ [43]"
    by (simp add: one_reader_def nr_bytes_def)
  with resp_roundtrip [OF ok(1)] ok(2)
  have "\<exists>r'. read_frame_resp (one_reader (resp_encode ?v @ [43])) = (Inr (Some (resp_encode ?v)), r') \<and> nr_bytes r' = [43]"
    by blast
  then show ?thesis unfolding e by simp
qed

text \<open>
  C32. Parsing any bytes is safe: the number of bytes a value takes never exceeds the buffer, so no
  slice of \<open>parse_value\<close> is out of range; no returned value is nested deeper than the limit; and each
  value, inside arrays too, took at least three bytes of the input, so that what is built is bounded
  by the input and not by the lengths the input announces.
\<close>

theorem resp_parse_bounds:
  assumes "parse_value buf depth = Inr (v, used)"
  shows "used \<le> length buf \<and> resp_depth v + depth \<le> MAX_DEPTH + 1 \<and> 3 * resp_nodes v \<le> used"
  using parse_in_bounds(1) [OF assms] by simp

theorem resp_parse_bounds_witness:
  "parse_value (to_bytes '':7'' @ [13, 10, 99]) 32 = Inr (Resp_Integer 7, 4) \<and>
   4 \<le> length (to_bytes '':7'' @ [13, 10, 99 :: byte]) \<and> resp_depth (Resp_Integer 7) + 32 \<le> MAX_DEPTH + 1 \<and>
   3 * resp_nodes (Resp_Integer 7) \<le> 4"
proof -
  have "parse_value (to_bytes '':7'' @ [13, 10, 99]) 32 = Inr (Resp_Integer 7, 4)" by code_simp
  with resp_parse_bounds [OF this] show ?thesis by simp
qed

text \<open>
  C33. The reader refuses lengths above the limits as soon as it has seen them: an array of more
  than \<open>MAX_ARRAY_LEN\<close> elements, and an argument of a command of more than \<open>MAX_PAYLOAD\<close> bytes,
  whatever arguments came before it. Nothing after the line with the length is consumed, let alone
  allocated.
\<close>

theorem resp_frame_limits:
  assumes "n < 10 ^ 10"
  shows "(MAX_ARRAY_LEN < n \<and> nr_bytes r = len_line 42 n @ rest \<longrightarrow>
            (\<exists>r'. read_frame_resp r = (Inl (protocol_error ''array too large''), r') \<and> nr_bytes r' = rest)) \<and>
         (unat MAX_PAYLOAD < n \<and> m \<le> MAX_ARRAY_LEN \<and> length args < m \<and>
          (\<forall>b \<in> set args. length b \<le> unat MAX_PAYLOAD) \<and>
          nr_bytes r = len_line 42 m @ concat (map (\<lambda>b. resp_encode (Resp_BulkString (Some b))) args) @ len_line 36 n @ rest \<longrightarrow>
            (\<exists>r'. read_frame_resp r = (Inl (protocol_error ''bulk string too large''), r') \<and> nr_bytes r' = rest))"
  using refuse_array [OF assms] refuse_argument [OF assms] by blast

theorem resp_frame_limits_witness:
  "\<exists>r'. read_frame_resp (one_reader (len_line 42 2 @ resp_encode (Resp_BulkString (Some [71])) @ len_line 36 9999999999 @ [65])) =
     (Inl (protocol_error ''bulk string too large''), r') \<and> nr_bytes r' = [65]"
proof -
  have "nr_bytes (one_reader bs) = bs" for bs by (simp add: one_reader_def nr_bytes_def)
  then show ?thesis
    using resp_frame_limits [of 9999999999 "one_reader (len_line 42 2 @ resp_encode (Resp_BulkString (Some [71])) @ len_line 36 9999999999 @ [65])" "[65]" 2 "[[71]]"]
    by (simp add: MAX_ARRAY_LEN_def MAX_PAYLOAD_def del: resp_encode.simps)
qed

lemma read_until_Nil:
  assumes "read_until d r = (Inr [], r')"
  shows "nr_bytes r = []"
proof (cases "d \<in> set (nr_bytes r)")
  case True
  then obtain pre rest where "nr_bytes r = pre @ [d] @ rest" "d \<notin> set pre"
    by (metis append_Cons append_Nil split_list_first)
  then obtain r'' where "read_until d r = (Inr (pre @ [d]), r'')" by (rule read_until_line)
  with assms show ?thesis by simp
next
  case False
  with assms show ?thesis by (auto simp: read_until_missing split: option.splits)
qed

lemma read_frame_loop_not_None:
  "frame \<noteq> [] \<Longrightarrow> read_frame_loop frame pending r \<noteq> (Inr None, r')"
proof (induction "length (nr_bytes r)" arbitrary: frame pending r rule: less_induct)
  case less
  show ?case
  proof (cases "\<exists>line r1. read_until 10 r = (Inr line, r1) \<and> line \<noteq> []")
    case False
    with less.prems show ?thesis
      by (subst read_frame_loop.simps) (auto simp: Let_def res_iffs)
  next
    case True
    then obtain line r1 where line: "read_until 10 r = (Inr line, r1)" "line \<noteq> []" by blast
    from read_until_consumes [OF line(1)] line(2) have r1: "length (nr_bytes r1) < length (nr_bytes r)" by auto
    have ih1: "read_frame_loop f p r1 \<noteq> (Inr None, r')" if "f \<noteq> []" for f p
      using r1 that by (rule less.hyps)
    have ih2: "read_frame_loop f p r2 \<noteq> (Inr None, r')"
      if "net_read_exact n r1 = (Inr d, r2)" "f \<noteq> []" for n d r2 f p
      using net_read_exact_consumes [OF that(1)] r1 that(2) by (intro less.hyps) auto
    let ?body = "slice_of line 1 (length line - 2)"
    from less.prems line ih1 ih2 show ?thesis
      by (subst read_frame_loop.simps, cases "parse_len ?body"; cases "projr (parse_len ?body)")
         (simp_all add: Let_def res_iffs)
  qed
qed

lemma read_frame_resp_None:
  assumes "read_frame_resp r = (Inr None, r')"
  shows "nr_bytes r = []"
proof -
  obtain line r1 where line: "read_until 10 r = (Inr line, r1)"
    using assms unfolding read_frame_resp_def
    by (subst (asm) read_frame_loop.simps) (auto simp: Let_def res_iffs)
  have "line = []"
  proof (rule ccontr)
    assume "line \<noteq> []"
    then have no: "read_frame_loop (line @ d) p s \<noteq> (Inr None, r')" for d p s
      by (intro read_frame_loop_not_None) simp
    let ?body = "slice_of line 1 (length line - 2)"
    from assms line \<open>line \<noteq> []\<close> no no [of "[]"] show False
      unfolding read_frame_resp_def
      by (subst (asm) read_frame_loop.simps, cases "parse_len ?body"; cases "projr (parse_len ?body)")
         (simp_all add: Let_def res_iffs split: if_splits)
  qed
  with line show ?thesis using read_until_Nil by simp
qed

text \<open>
  C34. A connection that ends inside a RESP frame never yields a request: every non-empty strict
  prefix of an encoded value is an error.
\<close>

theorem resp_frame_cut:
  assumes "resp_wf 0 v" and "resp_nodes v \<le> MAX_ARRAY_LEN"
    and "0 < k" and "k < length (resp_encode v)" and "nr_bytes r = take k (resp_encode v)"
  shows "\<exists>e r'. read_frame_resp r = (Inl e, r')"
proof -
  obtain res r' where run: "read_frame_resp r = (res, r')" by fastforce
  have "res \<noteq> Inr None"
  proof
    assume "res = Inr None"
    with run have "nr_bytes r = []" using read_frame_resp_None by simp
    with assms(3,4,5) show False by auto
  qed
  moreover have "res \<noteq> Inr (Some f)" for f
  proof
    assume "res = Inr (Some f)"
    with run have loop: "read_frame_loop [] 1 r = (Inr (Some f), r')" by (simp add: read_frame_resp_def)
    note pre = read_frame_loop_prefix [OF loop]
    let ?s = "one_reader (resp_encode v)"
    have bytes: "nr_bytes ?s = nr_bytes r @ drop k (resp_encode v)" "nr_bytes ?s = resp_encode v @ []"
      using assms(5) by (simp_all add: one_reader_def nr_bytes_def)
    obtain s' where "read_frame_resp ?s = (Inr (Some f), s')"
      using conjunct2 [OF pre, rule_format, OF bytes(1)] unfolding read_frame_resp_def by blast
    moreover obtain s'' where "read_frame_resp ?s = (Inr (Some (resp_encode v)), s'')"
      by (rule read_frame_resp_encode [OF assms(1,2) bytes(2)])
    ultimately have "f = resp_encode v" by simp
    with pre have "length (resp_encode v) \<le> length (nr_bytes r)" by auto
    with assms(4,5) show False by simp
  qed
  ultimately have "\<exists>e. res = Inl e" by (cases res; cases "projr res") auto
  with run show ?thesis by blast
qed

theorem resp_frame_cut_witness:
  "\<exists>e r'. read_frame_resp (one_reader (to_bytes ''$2'' @ [13, 10, 97])) = (Inl e, r')"
proof -
  let ?v = "Resp_BulkString (Some [97, 98])"
  have v: "resp_encode ?v = to_bytes ''$2'' @ [13, 10, 97, 98, 13, 10]" by code_simp
  have "resp_wf 0 ?v" "resp_nodes ?v \<le> MAX_ARRAY_LEN" by code_simp+
  then show ?thesis
    using resp_frame_cut [of ?v 5 "one_reader (to_bytes ''$2'' @ [13, 10, 97])"]
    unfolding v by (simp add: one_reader_def nr_bytes_def)
qed

text \<open>
  C35. What becomes of a command sent as an array of bulk strings: it is read from the stream, and
  nothing behind it is consumed. Its name may be in any mixture of cases. With the right number of
  arguments, all of them strings, it is decoded as the request it stands for; any other number of
  arguments, an argument that is not UTF-8 and an unknown name are the errors the client is told, and
  \<open>CONFIG GET\<close> is decoded with its names, every other \<open>CONFIG\<close> refused.
\<close>

theorem resp_command_decoded:
  assumes "args_ok (name # args)" and "nr_bytes r = resp_encode (resp_cmd (name # args)) @ rest"
  shows "\<exists>frame r'. read_frame_resp r = (Inr (Some frame), r') \<and> nr_bytes r' = rest \<and>
     (\<forall>req. eq_ignore_ascii_case name (to_bytes (request_name req)) \<longrightarrow>
        (request_ok req \<and> args = request_args req \<longrightarrow> decode_request_resp frame = Inr (RespRequest_Kv req)) \<and>
        (length args \<noteq> length (request_args req) \<longrightarrow>
           decode_request_resp frame = Inl (InvalidData (arity_message req))) \<and>
        (length args = length (request_args req) \<and> \<not> list_all utf8_valid args \<longrightarrow>
           decode_request_resp frame = Inl (InvalidData ''invalid utf-8''))) \<and>
     (eq_ignore_ascii_case name (to_bytes ''CONFIG'') \<longrightarrow>
        decode_request_resp frame =
          (if args \<noteq> [] \<and> eq_ignore_ascii_case (hd args) (to_bytes ''GET'') then Inr (RespRequest_ConfigGet (tl args))
           else Inl (InvalidData (''unknown subcommand for '' @ [CHR 0x27] @ ''config'' @ [CHR 0x27] @ '' command'')))) \<and>
     ((\<forall>known \<in> {''GET'', ''SET'', ''DEL'', ''CONFIG''}. \<not> eq_ignore_ascii_case name (to_bytes known)) \<longrightarrow>
        decode_request_resp frame =
          Inl (InvalidData (''unknown command '' @ [CHR 0x27] @ of_bytes (from_utf8_lossy name) @ [CHR 0x27])))"
proof -
  obtain r' where rd: "read_frame_resp r = (Inr (Some (resp_encode (resp_cmd (name # args)))), r')" "nr_bytes r' = rest"
    using read_frame_resp_encode [OF resp_cmd_wf [OF assms(1)] resp_cmd_nodes [OF assms(1)] assms(2)] by metis
  show ?thesis
    using rd decode_command [of name _] decode_wrong_arity [OF assms(1)] decode_not_utf8 [OF assms(1)]
      decode_config [OF assms(1)] decode_unknown [OF assms(1)] assms(1)
    by (intro exI [of _ "resp_encode (resp_cmd (name # args))"] exI [of _ r'] conjI allI impI) auto
qed

theorem resp_command_decoded_witness:
  "\<exists>frame r'. read_frame_resp (one_reader (resp_encode (resp_cmd [to_bytes ''gEt'', [107]]))) = (Inr (Some frame), r') \<and>
     decode_request_resp frame = Inr (RespRequest_Kv (Request_Get [107]))"
proof -
  let ?r = "one_reader (resp_encode (resp_cmd [to_bytes ''gEt'', [107]]))"
  have ok: "args_ok [to_bytes ''gEt'', [107]]" "utf8_valid [107 :: byte]"
    "eq_ignore_ascii_case (to_bytes ''gEt'') (to_bytes ''GET'')"
    by code_simp+
  have "nr_bytes ?r = resp_encode (resp_cmd [to_bytes ''gEt'', [107]]) @ []" by (simp add: one_reader_def nr_bytes_def)
  from resp_command_decoded [OF ok(1) this] obtain frame r' where "read_frame_resp ?r = (Inr (Some frame), r')"
    and "eq_ignore_ascii_case (to_bytes ''gEt'') (to_bytes (request_name (Request_Get [107]))) \<longrightarrow>
      request_ok (Request_Get [107]) \<and> [[107]] = request_args (Request_Get [107]) \<longrightarrow>
      decode_request_resp frame = Inr (RespRequest_Kv (Request_Get [107]))" by blast
  then show ?thesis using ok(2,3) by auto
qed

text \<open>
  C36. Replies keep the client in step: a reply to a key-value request, an error line, whatever its
  message contains, and the reply to \<open>CONFIG GET\<close>, a pair of the name and an empty value for each
  name, are written as the encoding of exactly one RESP value, which is parsed back.
\<close>

theorem resp_replies_in_step:
  assumes "healthy w" and "\<And>v. resp = Response_Value v \<Longrightarrow> length v \<le> unat MAX_PAYLOAD"
    and "\<And>n. n \<in> set names \<Longrightarrow> length n \<le> unat MAX_PAYLOAD" and "2 * length names \<le> MAX_ARRAY_LEN"
  shows "(\<exists>w'. write_response_resp w cmd resp = (Inr (), w') \<and>
            nw_total w' = nw_total w @ resp_encode (resp_reply cmd resp) \<and>
            parse_resp (resp_encode (resp_reply cmd resp)) = Inr (resp_reply cmd resp)) \<and>
         (\<exists>w'. write_error w msg = (Inr (), w') \<and> nw_total w' = nw_total w @ resp_encode (error_reply msg) \<and>
            parse_resp (resp_encode (error_reply msg)) = Inr (error_reply msg)) \<and>
         (\<exists>w'. write_config_get w names = (Inr (), w') \<and> nw_total w' = nw_total w @ resp_encode (config_reply names) \<and>
            parse_resp (resp_encode (config_reply names)) = Inr (config_reply names))"
  using write_response_resp_sends [OF assms(1), of cmd resp] write_error_sends [OF assms(1), of msg]
    write_config_get_sends [OF assms(1), of names] parse_resp_encode [OF resp_reply_wf]
    parse_resp_encode [OF error_reply_wf] parse_resp_encode [OF config_reply_wf [OF assms(3,4)]] assms(2)
  by (auto simp: sends_def)

theorem resp_replies_in_step_witness:
  "\<exists>w'. write_config_get idle_writer [to_bytes ''save'', to_bytes ''appendonly''] = (Inr (), w') \<and>
     parse_resp (nw_total w') = Inr (Resp_Array (Some
       [Resp_BulkString (Some (to_bytes ''save'')), Resp_BulkString (Some []),
        Resp_BulkString (Some (to_bytes ''appendonly'')), Resp_BulkString (Some [])]))"
proof -
  let ?ns = "[to_bytes ''save'', to_bytes ''appendonly'']"
  have "length n \<le> unat MAX_PAYLOAD" if "n \<in> set ?ns" for n using that by (auto simp: MAX_PAYLOAD_def)
  moreover have "2 * length ?ns \<le> MAX_ARRAY_LEN" by (simp add: MAX_ARRAY_LEN_def)
  ultimately show ?thesis
    using resp_replies_in_step [OF idle_writer_healthy, of Response_Ok ?ns RespCommand_Get "''x''"]
    by (auto simp: nw_total_def idle_writer_def config_reply_def)
qed

end
