(* ===== verification/Server.thy ===== *)
theory Server
  imports Resp_Correct
begin

text \<open>
  One connection of the server, \<open>src/src/bin/kvs-server.rs\<close>: \<open>handle\<close> looks at the first byte to tell
  the two protocols apart and serves requests until the peer closes the connection or an error
  ends it. The store is the one all connections share. The result is None only if a \<open>get\<close> of the
  store does not return.
\<close>

text \<open>
  A connection from the side of the server: the outcome of duplicating its handle, the chunks in
  which the data of the peer arrives, the error (if any) after them, and the number of bytes the
  peer takes before an error.
\<close>

record tcp_stream =
  ts_clone :: "io_error option"
  ts_chunks :: "bytes list"
  ts_fail :: "io_error option"
  ts_out_fail :: "(nat \<times> io_error) option"

definition DEFAULT_BUF_SIZE :: nat where
  "DEFAULT_BUF_SIZE = 8192"

section \<open>The binary protocol\<close>

lemma read_frame_consumes:
  "read_frame r = (Inr (Some f), r') \<Longrightarrow> length (nr_bytes r') < length (nr_bytes r)"
  using read_frame_Some(2) [of r "fst f" "snd f" r'] by simp

function serve_frames ::
  "'s kv_store_ops \<Rightarrow> net_reader \<Rightarrow> net_writer \<Rightarrow> 's \<Rightarrow> ((kvs_error + unit) \<times> net_writer \<times> 's) option" where
  "serve_frames ops reader writer store =
     (case read_frame reader of
        (Inl e, reader) \<Rightarrow> Some (Inl e, writer, store)
      | (Inr None, reader) \<Rightarrow> Some (Inr (), writer, store)
      | (Inr (Some (msg_type, payload)), reader) \<Rightarrow>
          Option.bind
            (case decode_request msg_type payload of
               Inr req \<Rightarrow> execute ops store req
             | Inl _ \<Rightarrow> Some (Response_Error EC_InvalidRequest, store)) (\<lambda>(resp, store).
          case write_response writer resp of
            (Inl e, writer) \<Rightarrow> Some (Inl e, writer, store)
          | (Inr _, writer) \<Rightarrow> serve_frames ops reader writer store))"
  by pat_completeness auto
termination
  by (relation "measure (\<lambda>(_, reader, _, _). length (nr_bytes reader))")
     (auto dest!: read_frame_consumes [OF sym])

declare serve_frames.simps [simp del]

section \<open>RESP\<close>

text \<open>One frame: the request is served and the reply is written.\<close>

definition serve_resp_frame ::
  "'s kv_store_ops \<Rightarrow> bytes \<Rightarrow> net_writer \<Rightarrow> 's \<Rightarrow> ((kvs_error + unit) \<times> net_writer \<times> 's) option" where
  "serve_resp_frame ops frame writer store =
     (case decode_request_resp frame of
        Inr (RespRequest_Kv req) \<Rightarrow>
          (let cmd = resp_command_from req in
           map_option (\<lambda>(resp, store).
               case write_response_resp writer cmd resp of (r, writer) \<Rightarrow> (r, writer, store))
             (execute ops store req))
      | Inr (RespRequest_ConfigGet names) \<Rightarrow>
          Some (case write_config_get writer names of (r, writer) \<Rightarrow> (r, writer, store))
      | Inl e \<Rightarrow>
          Some (case write_error writer (decode_error_message e) of (r, writer) \<Rightarrow> (r, writer, store)))"

lemma read_frame_resp_consumes:
  assumes "read_frame_resp r = (Inr (Some f), r')"
  shows "length (nr_bytes r') < length (nr_bytes r)"
proof -
  from assms have "read_frame_loop [] 1 r = (Inr (Some f), r')" by (simp add: read_frame_resp_def)
  then obtain line data p r1 where round: "nr_bytes r = line @ data @ nr_bytes r1" "line \<noteq> []"
    "read_frame_loop ([] @ line @ data) p r1 = (Inr (Some f), r')"
    by (rule read_frame_loop_round) simp
  from read_frame_loop_prefix [OF round(3)] have "length (nr_bytes r') \<le> length (nr_bytes r1)" by auto
  with round show ?thesis by (cases line) auto
qed

function handle_resp ::
  "'s kv_store_ops \<Rightarrow> net_reader \<Rightarrow> net_writer \<Rightarrow> 's \<Rightarrow> ((kvs_error + unit) \<times> net_writer \<times> 's) option" where
  "handle_resp ops reader writer store =
     (case read_frame_resp reader of
        (Inl e, reader) \<Rightarrow> Some (Inl e, writer, store)
      | (Inr None, reader) \<Rightarrow>
          Some (case nw_flush writer of (r, writer) \<Rightarrow> (r, writer, store))
      | (Inr (Some frame), reader) \<Rightarrow>
          Option.bind (serve_resp_frame ops frame writer store) (\<lambda>(r, writer, store).
          case r of
            Inl e \<Rightarrow> Some (Inl e, writer, store)
          | Inr _ \<Rightarrow>
              (case (if nr_buffer reader = [] then nw_flush writer else (Inr (), writer)) of
                 (Inl e, writer) \<Rightarrow> Some (Inl e, writer, store)
               | (Inr _, writer) \<Rightarrow> handle_resp ops reader writer store)))"
  by pat_completeness auto
termination
  by (relation "measure (\<lambda>(_, reader, _, _). length (nr_bytes reader))")
     (auto dest!: read_frame_resp_consumes [OF sym])

declare handle_resp.simps [simp del]

section \<open>A connection\<close>

text \<open>When \<open>handle\<close> returns, the buffered writer is dropped and with it flushed.\<close>

definition handle ::
  "'s kv_store_ops \<Rightarrow> tcp_stream \<Rightarrow> 's \<Rightarrow> ((kvs_error + unit) \<times> bytes \<times> 's) option" where
  "handle ops stream store =
     (case ts_clone stream of
        Some e \<Rightarrow> Some (Inl (Io e), [], store)
      | None \<Rightarrow>
          (let reader = \<lparr>nr_buffer = [], nr_chunks = ts_chunks stream, nr_fail = ts_fail stream\<rparr>;
               writer = \<lparr>nw_out = [], nw_buf = [], nw_capacity = DEFAULT_BUF_SIZE, nw_fail = ts_out_fail stream\<rparr>
           in
           map_option (\<lambda>(r, writer, store). (r, nw_out (nw_drop writer), store))
             (case fill_buf reader of
                (Inl e, reader) \<Rightarrow> Some (Inl e, writer, store)
              | (Inr [], reader) \<Rightarrow> Some (Inr (), writer, store)
              | (Inr (first # _), reader) \<Rightarrow>
                  if is_resp first then handle_resp ops reader writer store
                  else serve_frames ops reader writer store)))"

end
