(* ===== verification/Kv_Store.thy ===== *)
theory Kv_Store
  imports Kv_Trait Lock_Correct Bitcask_Correct Loader
begin

text \<open>
  The engines behind the trait \<open>KvStore\<close>: Bitcask, the wrapper of the third-party store sled
  (\<open>src/src/storage/sled_store.rs\<close>) and the enum \<open>Store\<close> that dispatches between them
  (\<open>src/src/storage/kvstore.rs\<close>). The sled database itself is a parameter, the record \<open>sled_api\<close>
  of the five functions the sources call; \<open>sled_documented\<close> is what its documentation promises
  of the calls that succeed.
\<close>

section \<open>Bitcask\<close>

definition bitcask_ops :: "(bytes \<Rightarrow> u32) \<Rightarrow> store kv_store_ops" where
  "bitcask_ops crc =
     \<lparr>kv_set = bitcask_set crc, kv_remove = bitcask_remove crc, kv_get = bitcask_get crc\<rparr>"

section \<open>SledStore\<close>

datatype sled_error = Sled_Io io_error | Sled_Corruption | Sled_Other string

record 'd sled_api =
  sa_open :: "string \<Rightarrow> u64 option \<Rightarrow> os \<Rightarrow> (sled_error + 'd) \<times> os"
  sa_insert :: "bytes \<Rightarrow> bytes \<Rightarrow> 'd \<Rightarrow> (sled_error + bytes option) \<times> 'd"
  sa_remove :: "bytes \<Rightarrow> 'd \<Rightarrow> (sled_error + bytes option) \<times> 'd"
  sa_get :: "bytes \<Rightarrow> 'd \<Rightarrow> (sled_error + bytes option) \<times> 'd"
  sa_flush :: "'d \<Rightarrow> (sled_error + nat) \<times> 'd"

record 'd sled_store =
  sl_db :: 'd
  sl_sync_every_put :: bool
  sl_lock_file :: nat

fun error_from_sled :: "sled_error \<Rightarrow> kvs_error" where
  "error_from_sled (Sled_Io io) = Io io"
| "error_from_sled Sled_Corruption = Corruption"
| "error_from_sled (Sled_Other msg) = InvalidData msg"

text \<open>A call on the database inside the wrapper, its error converted by the question mark operator.\<close>

definition on_db ::
  "('d \<Rightarrow> (sled_error + 'a) \<times> 'd) \<Rightarrow> 'd sled_store \<Rightarrow> (kvs_error + 'a) \<times> 'd sled_store" where
  "on_db f s = (case f (sl_db s) of (r, db) \<Rightarrow> map_err error_from_sled (r, s\<lparr>sl_db := db\<rparr>))"

definition sled_open ::
  "'d sled_api \<Rightarrow> config \<Rightarrow> os \<Rightarrow> (kvs_error + 'd sled_store) \<times> os" where
  "sled_open api config st =
     st_bind (create_dir_all st) (\<lambda>_ st.
     st_bind (lock_acquire StoreType_Sled st) (\<lambda>lock st.
     let flush = (case cfg_durability_policy config of
                    SyncOnInterval \<Rightarrow> Some (cfg_flush_threshold_millis config)
                  | _ \<Rightarrow> None)
     in
     case sa_open api (cfg_dir config) flush st of
       (Inl e, st) \<Rightarrow> (Inl (error_from_sled e), unlock lock st)
     | (Inr db, st) \<Rightarrow>
         (Inr \<lparr>sl_db = db, sl_sync_every_put = (cfg_durability_policy config = SyncOnEveryPut),
               sl_lock_file = lock\<rparr>, st)))"

definition sled_set ::
  "'d sled_api \<Rightarrow> bytes \<Rightarrow> bytes \<Rightarrow> 'd sled_store \<Rightarrow> (kvs_error + unit) \<times> 'd sled_store" where
  "sled_set api key v s =
     st_bind (on_db (sa_insert api key v) s) (\<lambda>_ s.
     if sl_sync_every_put s then st_bind (on_db (sa_flush api) s) (\<lambda>_ s. (Inr (), s))
     else (Inr (), s))"

definition sled_remove ::
  "'d sled_api \<Rightarrow> bytes \<Rightarrow> 'd sled_store \<Rightarrow> (kvs_error + unit) \<times> 'd sled_store" where
  "sled_remove api key s =
     st_bind (on_db (sa_remove api key) s) (\<lambda>old s.
     case old of
       Some _ \<Rightarrow>
         if sl_sync_every_put s then st_bind (on_db (sa_flush api) s) (\<lambda>_ s. (Inr (), s))
         else (Inr (), s)
     | None \<Rightarrow> (Inl KeyNotFound, s))"

definition sled_get ::
  "'d sled_api \<Rightarrow> bytes \<Rightarrow> 'd sled_store \<Rightarrow> (kvs_error + bytes option) \<times> 'd sled_store" where
  "sled_get api key s =
     st_bind (on_db (sa_get api key) s) (\<lambda>v s.
     case v of
       None \<Rightarrow> (Inr None, s)
     | Some v \<Rightarrow>
         (case from_utf8 v of
            Inr str \<Rightarrow> (Inr (Some str), s)
          | Inl e \<Rightarrow> (Inl (Utf8 e), s)))"

definition sled_ops :: "'d sled_api \<Rightarrow> 'd sled_store kv_store_ops" where
  "sled_ops api =
     \<lparr>kv_set = sled_set api, kv_remove = sled_remove api, kv_get = (\<lambda>key s. Some (sled_get api key s))\<rparr>"

section \<open>Store\<close>

datatype 'd any_store = Store_Bitcask store | Store_Sled "'d sled_store"

definition any_open ::
  "(bytes \<Rightarrow> u32) \<Rightarrow> 'd sled_api \<Rightarrow> config \<Rightarrow> os \<Rightarrow> (kvs_error + 'd any_store) \<times> os" where
  "any_open crc api config st =
     (case cfg_store_type config of
        StoreType_Bitcask \<Rightarrow>
          (case bitcask_open crc config st of
             Inl (e, st) \<Rightarrow> (Inl e, st)
           | Inr s \<Rightarrow> (Inr (Store_Bitcask s), os.truncate s))
      | StoreType_Sled \<Rightarrow>
          st_bind (sled_open api config st) (\<lambda>s st. (Inr (Store_Sled s), st)))"

fun any_set ::
  "(bytes \<Rightarrow> u32) \<Rightarrow> 'd sled_api \<Rightarrow> bytes \<Rightarrow> bytes \<Rightarrow> 'd any_store \<Rightarrow> (kvs_error + unit) \<times> 'd any_store" where
  "any_set crc api key v (Store_Bitcask s) = map_prod id Store_Bitcask (bitcask_set crc key v s)"
| "any_set crc api key v (Store_Sled s) = map_prod id Store_Sled (sled_set api key v s)"

fun any_remove ::
  "(bytes \<Rightarrow> u32) \<Rightarrow> 'd sled_api \<Rightarrow> bytes \<Rightarrow> 'd any_store \<Rightarrow> (kvs_error + unit) \<times> 'd any_store" where
  "any_remove crc api key (Store_Bitcask s) = map_prod id Store_Bitcask (bitcask_remove crc key s)"
| "any_remove crc api key (Store_Sled s) = map_prod id Store_Sled (sled_remove api key s)"

fun any_get ::
  "(bytes \<Rightarrow> u32) \<Rightarrow> 'd sled_api \<Rightarrow> bytes \<Rightarrow> 'd any_store \<Rightarrow>
   ((kvs_error + bytes option) \<times> 'd any_store) option" where
  "any_get crc api key (Store_Bitcask s) =
     map_option (map_prod id Store_Bitcask) (bitcask_get crc key s)"
| "any_get crc api key (Store_Sled s) = Some (map_prod id Store_Sled (sled_get api key s))"

definition any_ops :: "(bytes \<Rightarrow> u32) \<Rightarrow> 'd sled_api \<Rightarrow> 'd any_store kv_store_ops" where
  "any_ops crc api =
     \<lparr>kv_set = any_set crc api, kv_remove = any_remove crc api, kv_get = any_get crc api\<rparr>"

section \<open>Bitcask keeps the contract\<close>

text \<open>
  A store without poisoned locks on a system without I/O errors can serve n more operations if
  the file ids and the space up to the largest file offset last for n rotations and n records.
\<close>

definition max_record :: nat where
  "max_record = HEADER_LEN + 17 + pair_limit"

definition bitcask_ready :: "(bytes \<Rightarrow> u32) \<Rightarrow> nat \<Rightarrow> store \<Rightarrow> bool" where
  "bitcask_ready crc n st \<longleftrightarrow>
     store_inv crc st \<and> calm st \<and> no_poison (st_index st) \<and> \<not> st_writer_poisoned st \<and>
     unat (ws_current_file_id (st_writer st)) + n < 2 ^ 64 \<and>
     length (file_content st (ws_file (st_writer st))) + n * max_record \<le> MAX_FILE_LEN"

lemma pair_ok_fits: "pair_ok key v \<Longrightarrow> pair_fits key v \<and> utf8_valid v"
  by (simp add: pair_ok_def pair_fits_def pair_limit_def)

lemma bitcask_ready_ids: "bitcask_ready crc (Suc n) st \<Longrightarrow> ws_current_file_id (st_writer st) \<noteq> - 1"
  using unat_u64_max by (auto simp: bitcask_ready_def)

lemma bitcask_ready_writable:
  assumes "bitcask_ready crc (Suc n) st" and "m \<le> max_record"
  shows "writable m st"
  using assms bitcask_ready_ids [OF assms(1)] by (simp add: writable_def bitcask_ready_def)

lemma bitcask_ready_same:
  assumes "same_store st st'" and "bitcask_ready crc (Suc n) st"
  shows "bitcask_ready crc n st'"
proof -
  have "store_inv crc st'" "calm st'"
    using assms by (simp_all add: bitcask_ready_def same_store_inv same_store_calm)
  with assms show ?thesis by (simp add: bitcask_ready_def same_store_def)
qed

text \<open>
  The record takes its share of the space before the post-write operations run; the number of
  rotations still possible is counted down after them.
\<close>

lemma store_append_ready:
  assumes ready: "bitcask_ready crc (Suc n) st" and cmd: "command_ok cmd"
    and len: "length (command_serialize crc cmd) \<le> max_record"
  shows "\<exists>st'. store_append crc cmd st = (Inr (), st') \<and> bitcask_ready crc n st'"
proof -
  have inv: "store_inv crc st" and calm: "calm st" using ready by (simp_all add: bitcask_ready_def)
  note w = bitcask_ready_writable [OF ready len] and ids = bitcask_ready_ids [OF ready]
  obtain st1 where rec: "append_record crc cmd st = (Inr (), st1)"
    using append_record_progress [OF inv calm w] by blast
  note app = append_record_appended [OF inv rec]
  have inv1: "store_inv crc st1" using appended_inv [OF inv app cmd] by simp
  have calm1: "calm st1" by (subst calm_cong [of _ st]) (use app calm in \<open>simp_all add: appended_def Let_def\<close>)
  have ids1: "ws_current_file_id (st_writer st1) \<noteq> - 1" using app ids by (simp add: appended_def Let_def)
  have np: "no_poison (st_index st1)" using ready append_record_no_poison [OF rec] by (simp add: bitcask_ready_def)
  obtain st' where post: "post_write_ops st1 = (Inr (), st')"
    using calm_post_write_ops [OF inv1 calm1 ids1] by blast
  have space: "length (file_content st1 (ws_file (st_writer st1))) + n * max_record \<le> MAX_FILE_LEN"
    using app ready len by (simp add: appended_def Let_def bitcask_ready_def)
  have id1: "unat (ws_current_file_id (st_writer st1)) + Suc n < 2 ^ 64"
    "\<not> st_writer_poisoned st1"
    using app ready by (simp_all add: appended_def Let_def bitcask_ready_def)
  from inv1 ids1 post have "bitcask_ready crc n st'"
  proof (cases rule: post_write_ops_steps)
    case (1 st2)
    then have "store_inv crc st'" "calm st'" using inv1 calm1 by (simp_all add: same_store_inv same_store_calm)
    with 1 np id1 space show ?thesis by (simp add: bitcask_ready_def same_store_def)
  next
    case (2 st2)
    have "unat (ws_current_file_id (st_writer st1) + 1) = unat (ws_current_file_id (st_writer st1)) + 1"
      using ids1 by (rule unat_u64_inc)
    moreover have "calm st' = calm st1"
      using 2 by (intro calm_cong) (simp_all add: rotated_def same_store_def Let_def)
    moreover have "store_inv crc st'" using post_write_ops_inv [OF inv1 post ids1] by simp
    ultimately show ?thesis
      using 2 np id1 space calm1 by (simp add: bitcask_ready_def rotated_def same_store_def Let_def)
  qed
  with rec post show ?thesis by (simp add: store_append_def)
qed

lemma bitcask_set_ready:
  assumes ready: "bitcask_ready crc (Suc n) st" and pair: "pair_ok key v"
  shows "\<exists>st'. bitcask_set crc key v st = (Inr (), st') \<and> bitcask_ready crc n st' \<and>
           store_view crc st' = (store_view crc st)(key \<mapsto> v)"
proof -
  have inv: "store_inv crc st" and calm: "calm st" using ready by (simp_all add: bitcask_ready_def)
  obtain ns where now: "unix_now st = (Inr ns, tick st)" using calm_unix_now [OF calm] by blast
  let ?cmd = "Command_Set (as_secs ns) key v"
  have same: "same_store st (tick st)" by simp
  have "store_inv crc (tick st)" "calm (tick st)"
    using same inv calm by (simp_all only: same_store_inv same_store_calm)
  then have "bitcask_ready crc (Suc n) (tick st)"
    using ready by (simp add: bitcask_ready_def)
  moreover have "command_ok ?cmd"
    using pair_ok_fits [OF pair] by (simp add: command_ok_def command_fits_def pair_fits_def)
  moreover have "length (command_serialize crc ?cmd) \<le> max_record"
    using pair by (simp add: pair_ok_def max_record_def)
  ultimately obtain st' where app: "store_append crc ?cmd (tick st) = (Inr (), st')" "bitcask_ready crc n st'"
    using store_append_ready by blast
  with now have set: "bitcask_set crc key v st = (Inr (), st')" by (simp add: bitcask_set_def del: tick_def)
  moreover have "store_view crc st' = (store_view crc st)(key \<mapsto> v)"
    using bitcask_set_inv [OF inv set] pair_ok_fits [OF pair] bitcask_ready_ids [OF ready] by simp
  ultimately show ?thesis using app(2) by blast
qed

lemma bitcask_remove_ready:
  assumes ready: "bitcask_ready crc (Suc n) st" and pair: "pair_ok key []"
  shows "\<exists>st'. bitcask_remove crc key st =
             ((if store_view crc st key = None then Inl KeyNotFound else Inr ()), st') \<and>
           bitcask_ready crc n st' \<and> store_view crc st' = (store_view crc st)(key := None)"
proof (cases "store_view crc st key")
  case None
  have inv: "store_inv crc st" and np: "no_poison (st_index st)" using ready by (simp_all add: bitcask_ready_def)
  have "bitcask_ready crc n st" by (rule bitcask_ready_same [OF same_store_refl ready])
  with None bitcask_remove_absent [OF inv np None] show ?thesis by (auto simp: fun_upd_idem)
next
  case (Some v)
  have inv: "store_inv crc st" and calm: "calm st" and np: "no_poison (st_index st)"
    using ready by (simp_all add: bitcask_ready_def)
  obtain ns where now: "unix_now st = (Inr ns, tick st)" using calm_unix_now [OF calm] by blast
  let ?cmd = "Command_Rm (as_secs ns) key"
  have same: "same_store st (tick st)" by simp
  have "store_inv crc (tick st)" "calm (tick st)"
    using same inv calm by (simp_all only: same_store_inv same_store_calm)
  then have "bitcask_ready crc (Suc n) (tick st)"
    using ready by (simp add: bitcask_ready_def)
  moreover have "command_ok ?cmd"
    using pair by (simp add: command_ok_def command_fits_def pair_ok_def pair_limit_def)
  moreover have "length (command_serialize crc ?cmd) \<le> max_record"
    using pair by (simp add: pair_ok_def max_record_def)
  ultimately obtain st' where app: "store_append crc ?cmd (tick st) = (Inr (), st')" "bitcask_ready crc n st'"
    using store_append_ready by blast
  have "index_lookup (st_index st) key \<noteq> None"
    using Some store_view_None_iff [OF inv, of key] by simp
  with now app(1) np inv have rm: "bitcask_remove crc key st = (Inr (), st')"
    by (simp add: bitcask_remove_def access_Inr store_inv_def index_lookup_def del: tick_def)
  moreover have "store_view crc st' = (store_view crc st)(key := None)"
    using bitcask_remove_inv [OF inv rm bitcask_ready_ids [OF ready]] by simp
  ultimately show ?thesis using app(2) Some by auto
qed

lemma bitcask_get_ready:
  assumes ready: "bitcask_ready crc (Suc n) st"
  shows "\<exists>st'. bitcask_get crc key st = Some (Inr (store_view crc st key), st') \<and>
           bitcask_ready crc n st' \<and> store_view crc st' = store_view crc st"
proof -
  have "\<exists>st'. bitcask_get crc key st = Some (Inr (store_view crc st key), st') \<and> same_store st st'"
    using ready by (intro bitcask_get_view) (simp_all add: bitcask_ready_def calm_def)
  then show ?thesis using bitcask_ready_same [OF _ ready] same_store_view by blast
qed

interpretation bc: kv_contract "bitcask_ops crc" "bitcask_ready crc" "store_view crc" for crc
  by unfold_locales
     (simp_all add: bitcask_ops_def bitcask_set_ready bitcask_get_ready bitcask_remove_ready
       bitcask_ready_same [OF same_store_refl])

section \<open>SledStore\<close>

text \<open>
  What sled documents of its functions: the database is a map from byte strings to byte strings, the
  operations that succeed return the value the key had, and a \<open>flush\<close> that succeeds changes nothing
  visible and makes every write before it durable, so that it is what a recovery after a crash
  finds, \<open>db_durable\<close>. Any of the calls may fail, and nothing is known of a database whose call failed.
\<close>

definition sled_documented ::
  "'d sled_api \<Rightarrow> ('d \<Rightarrow> bytes \<rightharpoonup> bytes) \<Rightarrow> ('d \<Rightarrow> bytes \<rightharpoonup> bytes) \<Rightarrow> bool" where
  "sled_documented api db_view db_durable \<longleftrightarrow>
     (\<forall>db key v old db'. sa_insert api key v db = (Inr old, db') \<longrightarrow>
        old = db_view db key \<and> db_view db' = (db_view db)(key \<mapsto> v)) \<and>
     (\<forall>db key old db'. sa_remove api key db = (Inr old, db') \<longrightarrow>
        old = db_view db key \<and> db_view db' = (db_view db)(key := None)) \<and>
     (\<forall>db key v db'. sa_get api key db = (Inr v, db') \<longrightarrow> v = db_view db key \<and> db_view db' = db_view db) \<and>
     (\<forall>db n db'. sa_flush api db = (Inr n, db') \<longrightarrow> db_view db' = db_view db \<and> db_durable db' = db_view db)"

lemma sled_documentedD:
  assumes "sled_documented api db_view db_durable"
  shows "sa_insert api key v db = (Inr old, db') \<Longrightarrow> old = db_view db key \<and> db_view db' = (db_view db)(key \<mapsto> v)"
    and "sa_remove api key db = (Inr old, db') \<Longrightarrow> old = db_view db key \<and> db_view db' = (db_view db)(key := None)"
    and "sa_get api key db = (Inr old, db') \<Longrightarrow> old = db_view db key \<and> db_view db' = db_view db"
    and "sa_flush api db = (Inr n, db') \<Longrightarrow> db_view db' = db_view db \<and> db_durable db' = db_view db"
  using assms unfolding sled_documented_def by blast+

lemma error_from_sled_kind [simp]: "error_from_sled e \<noteq> KeyNotFound" "error_from_sled e \<noteq> Utf8 u"
  by (cases e; simp)+

lemma on_db_Inr: "on_db f s = (Inr a, s') \<longleftrightarrow> (\<exists>db. f (sl_db s) = (Inr a, db) \<and> s' = s\<lparr>sl_db := db\<rparr>)"
  by (auto simp: on_db_def map_err_def split: prod.splits sum.splits)

lemma on_db_Inl: "on_db f s = (Inl e, s') \<Longrightarrow> e \<noteq> KeyNotFound \<and> (\<forall>u. e \<noteq> Utf8 u)"
  by (auto simp: on_db_def map_err_def split: prod.splits sum.splits)

text \<open>The store is flushed if it has to be.\<close>

definition flushed :: "('d \<Rightarrow> bytes \<rightharpoonup> bytes) \<Rightarrow> ('d \<Rightarrow> bytes \<rightharpoonup> bytes) \<Rightarrow> 'd sled_store \<Rightarrow> bool" where
  "flushed db_view db_durable s \<longleftrightarrow> (sl_sync_every_put s \<longrightarrow> db_durable (sl_db s) = db_view (sl_db s))"

lemma sled_set_ok:
  assumes doc: "sled_documented api db_view db_durable" and "sled_set api key v s = (Inr (), s')"
  shows "db_view (sl_db s') = (db_view (sl_db s))(key \<mapsto> v) \<and> flushed db_view db_durable s' \<and>
         sl_sync_every_put s' = sl_sync_every_put s"
proof -
  from assms(2) obtain old s1 where s1: "on_db (sa_insert api key v) s = (Inr old, s1)"
    and rest: "if sl_sync_every_put s1 then \<exists>n. on_db (sa_flush api) s1 = (Inr n, s') else s' = s1"
    by (auto simp: sled_set_def res_iffs split: if_splits)
  then show ?thesis
    using sled_documentedD(1) [OF doc, of key v "sl_db s" old] sled_documentedD(4) [OF doc, of "sl_db s1"]
    by (auto simp: on_db_Inr flushed_def split: if_splits)
qed

lemma sled_remove_ok:
  assumes doc: "sled_documented api db_view db_durable" and "sled_remove api key s = (Inr (), s')"
  shows "db_view (sl_db s) key \<noteq> None \<and> db_view (sl_db s') = (db_view (sl_db s))(key := None) \<and>
         flushed db_view db_durable s' \<and> sl_sync_every_put s' = sl_sync_every_put s"
proof -
  from assms(2) obtain old s1 where s1: "on_db (sa_remove api key) s = (Inr (Some old), s1)"
    and rest: "if sl_sync_every_put s1 then \<exists>n. on_db (sa_flush api) s1 = (Inr n, s') else s' = s1"
    by (auto simp: sled_remove_def res_iffs split: if_splits option.splits)
  then show ?thesis
    using sled_documentedD(2) [OF doc, of key "sl_db s" "Some old"] sled_documentedD(4) [OF doc, of "sl_db s1"]
    by (auto simp: on_db_Inr flushed_def dest: sym split: if_splits)
qed

lemma sled_remove_absent:
  assumes doc: "sled_documented api db_view db_durable" and "sled_remove api key s = (Inl KeyNotFound, s')"
  shows "db_view (sl_db s) key = None \<and> db_view (sl_db s') = db_view (sl_db s)"
proof -
  from assms(2) have "on_db (sa_remove api key) s = (Inr None, s')"
    by (auto simp: sled_remove_def st_bind_def split: prod.splits sum.splits option.splits if_splits dest: on_db_Inl)
  then show ?thesis using sled_documentedD(2) [OF doc, of key "sl_db s" None] by (auto simp: on_db_Inr fun_upd_idem)
qed

lemma sled_get_ok:
  assumes doc: "sled_documented api db_view db_durable"
  shows "sled_get api key s = (Inr v, s') \<Longrightarrow> v = db_view (sl_db s) key \<and> db_view (sl_db s') = db_view (sl_db s)"
    and "sled_get api key s = (Inl (Utf8 u), s') \<Longrightarrow> \<exists>v. db_view (sl_db s) key = Some v \<and> \<not> utf8_valid v"
proof -
  assume "sled_get api key s = (Inr v, s')"
  then obtain w where "on_db (sa_get api key) s = (Inr w, s')" "w = v"
    by (auto simp: sled_get_def st_bind_def from_utf8_Inr_iff split: prod.splits sum.splits option.splits)
  then show "v = db_view (sl_db s) key \<and> db_view (sl_db s') = db_view (sl_db s)"
    using sled_documentedD(3) [OF doc] by (auto simp: on_db_Inr)
next
  assume "sled_get api key s = (Inl (Utf8 u), s')"
  then obtain w s1 where w: "on_db (sa_get api key) s = (Inr (Some w), s1)" "from_utf8 w = Inl u"
    by (auto simp: sled_get_def st_bind_def split: prod.splits sum.splits option.splits dest: on_db_Inl)
  then have "db_view (sl_db s) key = Some w"
    using sled_documentedD(3) [OF doc, of key "sl_db s" "Some w"] by (auto simp: on_db_Inr)
  moreover have "\<not> utf8_valid w" using w(2) from_utf8_valid [of w] by auto
  ultimately show "\<exists>v. db_view (sl_db s) key = Some v \<and> \<not> utf8_valid v" by blast
qed

lemma calm_store_ready: "n \<le> 1000 \<Longrightarrow> bitcask_ready crc n calm_store"
  using calm_store_facts(1) [of crc] calm_store_facts(3,4)
  by (simp add: bitcask_ready_def calm_store_def new_store_def file_content_def max_record_def pair_limit_def
      HEADER_LEN_def MAX_FILE_LEN_def)

text \<open>A store with one key, on which a \<open>get\<close> finds the value and a \<open>remove\<close> has a key to remove.\<close>

lemma one_key_store:
  obtains st where "bitcask_set sum_crc [107] [118] calm_store = (Inr (), st)" "bitcask_ready sum_crc 2 st"
    "store_view sum_crc st = [[107] \<mapsto> [118]]"
proof -
  have "pair_ok [107] [118]" by code_simp
  from bitcask_set_ready [OF calm_store_ready this, of 2 sum_crc] that calm_store_facts(2) show ?thesis by auto
qed

theorem get_refines_witness:
  "\<exists>st st'. bitcask_set sum_crc [107] [118] calm_store = (Inr (), st) \<and>
     bitcask_get sum_crc [107] st = Some (Inr (Some [118]), st')"
proof -
  obtain st where st: "bitcask_set sum_crc [107] [118] calm_store = (Inr (), st)" "bitcask_ready sum_crc 2 st"
    "store_view sum_crc st = [[107] \<mapsto> [118]]" by (rule one_key_store)
  then have "store_inv sum_crc st" "no_poison (st_index st)" "os_faults st (os_ticks st) = None"
    by (simp_all add: bitcask_ready_def calm_def)
  from get_refines [OF this, of "[107]"] st(1,3) show ?thesis by auto
qed

theorem remove_refines_witness:
  "\<exists>st st'. bitcask_set sum_crc [107] [118] calm_store = (Inr (), st) \<and>
     bitcask_remove sum_crc [108] st = (Inl KeyNotFound, st) \<and>
     bitcask_remove sum_crc [107] st = (Inr (), st') \<and> store_view sum_crc st' = Map.empty"
proof -
  obtain st where st: "bitcask_set sum_crc [107] [118] calm_store = (Inr (), st)" "bitcask_ready sum_crc (Suc 1) st"
    "store_view sum_crc st = [[107] \<mapsto> [118]]" using one_key_store by (metis one_add_one plus_1_eq_Suc)
  have pre: "store_inv sum_crc st" "no_poison (st_index st)" using st(2) by (simp_all add: bitcask_ready_def)
  have "pair_ok [107] []" by code_simp
  from bitcask_remove_ready [OF st(2) this] st(3) obtain st' where
    "bitcask_remove sum_crc [107] st = (Inr (), st')" by auto
  with remove_refines [OF pre bitcask_ready_ids [OF st(2)], of "[107]"]
    remove_refines [OF pre bitcask_ready_ids [OF st(2)], of "[108]"] st(1,3) show ?thesis by auto
qed

text \<open>
  C25. \<open>Store\<close> on a sled database, any call of which may fail. A \<open>set\<close> that returns Ok updated the
  map, and under the policy \<open>SyncOnEveryPut\<close> the update survives a crash. A \<open>remove\<close> that returns Ok
  had the key to remove and is as durable; one that returns \<open>KeyNotFound\<close> found no key and changed
  nothing, and no failure of the database is mistaken for it. A \<open>get\<close> that returns Ok returns the value of
  the key, and it reports invalid UTF-8 only when the stored value is not a string.
\<close>

theorem sled_store_durable:
  assumes "sled_documented api db_view db_durable"
  shows "(any_set crc api key v (Store_Sled s) = (Inr (), t) \<longrightarrow>
            (\<exists>s'. t = Store_Sled s' \<and> db_view (sl_db s') = (db_view (sl_db s))(key \<mapsto> v) \<and>
                  (sl_sync_every_put s \<longrightarrow> db_durable (sl_db s') = db_view (sl_db s')))) \<and>
         (any_remove crc api key (Store_Sled s) = (Inr (), t) \<longrightarrow>
            db_view (sl_db s) key \<noteq> None \<and>
            (\<exists>s'. t = Store_Sled s' \<and> db_view (sl_db s') = (db_view (sl_db s))(key := None) \<and>
                  (sl_sync_every_put s \<longrightarrow> db_durable (sl_db s') = db_view (sl_db s')))) \<and>
         (any_remove crc api key (Store_Sled s) = (Inl KeyNotFound, t) \<longrightarrow>
            db_view (sl_db s) key = None \<and> (\<exists>s'. t = Store_Sled s' \<and> db_view (sl_db s') = db_view (sl_db s))) \<and>
         (any_get crc api key (Store_Sled s) = Some (Inr found, t) \<longrightarrow>
            found = db_view (sl_db s) key \<and> (\<exists>s'. t = Store_Sled s' \<and> db_view (sl_db s') = db_view (sl_db s))) \<and>
         (any_get crc api key (Store_Sled s) = Some (Inl (Utf8 u), t) \<longrightarrow>
            (\<exists>w. db_view (sl_db s) key = Some w \<and> \<not> utf8_valid w))"
  using sled_set_ok [OF assms, of key v s] sled_remove_ok [OF assms, of key s]
    sled_remove_absent [OF assms, of key s] sled_get_ok [OF assms, of key s]
  by (auto simp: flushed_def map_prod_def split: prod.splits)

text \<open>A database in memory that makes its contents durable when flushed.\<close>

definition map_api :: "((bytes \<rightharpoonup> bytes) \<times> (bytes \<rightharpoonup> bytes)) sled_api" where
  "map_api =
     \<lparr>sa_open = (\<lambda>_ _ st. (Inr (Map.empty, Map.empty), st)),
      sa_insert = (\<lambda>k v (m, d). (Inr (m k), (m(k \<mapsto> v), d))),
      sa_remove = (\<lambda>k (m, d). (Inr (m k), (m(k := None), d))), sa_get = (\<lambda>k (m, d). (Inr (m k), (m, d))),
      sa_flush = (\<lambda>(m, d). (Inr 0, (m, m)))\<rparr>"

lemma map_api_documented: "sled_documented map_api fst snd"
  by (simp add: sled_documented_def map_api_def)

theorem sled_store_durable_witness:
  "\<exists>s'. any_set sum_crc map_api [107] [118]
       (Store_Sled \<lparr>sl_db = (Map.empty, Map.empty), sl_sync_every_put = True, sl_lock_file = 0\<rparr>) = (Inr (), Store_Sled s') \<and>
     snd (sl_db s') = [[107] \<mapsto> [118]]"
proof -
  let ?s = "\<lparr>sl_db = (Map.empty, Map.empty), sl_sync_every_put = True, sl_lock_file = 0\<rparr>"
  obtain t where t: "any_set sum_crc map_api [107] [118] (Store_Sled ?s) = (Inr (), t)"
    by (simp add: sled_set_def on_db_def map_api_def)
  note sled_store_durable [OF map_api_documented, of sum_crc "[107]" "[118]" ?s t, THEN conjunct1, rule_format, OF t]
  with t show ?thesis by auto
qed

end
