(* ===== verification/Server_Correct.thy ===== *)
theory Server_Correct
  imports Server Resp_Replies Kv_Store
begin

text \<open>
  What a client of the server sees: the replies of a session are those of a key-value map, in the
  order of the requests, over either protocol and whatever the engine that keeps the contract of
  \<open>KvStore\<close>.
\<close>

section \<open>The session on an abstract map\<close>

fun spec_execute :: "request \<Rightarrow> (bytes \<rightharpoonup> bytes) \<Rightarrow> response \<times> (bytes \<rightharpoonup> bytes)" where
  "spec_execute (Request_Get key) m =
     (case m key of Some v \<Rightarrow> Response_Value v | None \<Rightarrow> Response_Error EC_KeyNotFound, m)"
| "spec_execute (Request_Set key v) m = (Response_Ok, m(key \<mapsto> v))"
| "spec_execute (Request_Rm key) m =
     (if m key = None then Response_Error EC_KeyNotFound else Response_Ok, m(key := None))"

fun spec_replies :: "request list \<Rightarrow> (bytes \<rightharpoonup> bytes) \<Rightarrow> (request \<times> response) list" where
  "spec_replies [] m = []"
| "spec_replies (req # reqs) m =
     (req, fst (spec_execute req m)) # spec_replies reqs (snd (spec_execute req m))"

fun spec_final :: "request list \<Rightarrow> (bytes \<rightharpoonup> bytes) \<Rightarrow> (bytes \<rightharpoonup> bytes)" where
  "spec_final [] m = m"
| "spec_final (req # reqs) m = spec_final reqs (snd (spec_execute req m))"

text \<open>Values that fit a reply.\<close>

definition small_values :: "(bytes \<rightharpoonup> bytes) \<Rightarrow> bool" where
  "small_values m \<longleftrightarrow> (\<forall>v \<in> ran m. length v \<le> unat MAX_PAYLOAD)"

fun request_fits :: "request \<Rightarrow> bool" where
  "request_fits (Request_Get key) = (length key \<le> unat MAX_PAYLOAD)"
| "request_fits (Request_Set key v) = (length key \<le> unat MAX_PAYLOAD \<and> length v \<le> unat MAX_PAYLOAD)"
| "request_fits (Request_Rm key) = (length key \<le> unat MAX_PAYLOAD)"

lemma small_values_step: "small_values m \<Longrightarrow> request_fits req \<Longrightarrow> small_values (snd (spec_execute req m))"
  by (cases req) (auto simp: small_values_def ran_def)

lemma small_reply:
  "small_values m \<Longrightarrow> fst (spec_execute req m) = Response_Value v \<Longrightarrow> length v \<le> unat MAX_PAYLOAD"
  by (cases req) (auto simp: small_values_def ranI split: option.splits if_splits)

lemma frame_fits: "length (snd (request_frame req)) \<le> unat MAX_PAYLOAD \<Longrightarrow> request_fits req"
  by (cases req) auto

context kv_contract
begin

lemma execute_spec:
  assumes "invar (Suc n) s" and "request_ok req" and "request_fits req"
  shows "\<exists>s'. execute ops s req = Some (fst (spec_execute req (view s)), s') \<and> invar n s' \<and>
           view s' = snd (spec_execute req (view s))"
proof (cases req)
  case (Request_Get key)
  with assms obtain s' where "kv_get ops key s = Some (Inr (view s key), s')" "invar n s'" "view s' = view s"
    using get_law [OF assms(1), of key] by (auto simp: pair_ok_def pair_limit_def)
  with Request_Get show ?thesis by (cases "view s key") (simp_all add: execute_def)
next
  case (Request_Set key v)
  with assms obtain s' where "kv_set ops key v s = (Inr (), s')" "invar n s'" "view s' = (view s)(key \<mapsto> v)"
    using set_law [OF assms(1), of key v] by (auto simp: pair_ok_def pair_limit_def)
  with Request_Set show ?thesis by (simp add: execute_def)
next
  case (Request_Rm key)
  with assms obtain s' where
    "kv_remove ops key s = ((if view s key = None then Inl KeyNotFound else Inr ()), s')"
    "invar n s'" "view s' = (view s)(key := None)"
    using remove_law [OF assms(1), of key] by (auto simp: pair_ok_def pair_limit_def)
  with Request_Rm show ?thesis by (simp add: execute_def)
qed

end

section \<open>Sessions over the binary protocol\<close>

definition request_bytes :: "request \<Rightarrow> bytes" where
  "request_bytes req = frame_bytes (fst (request_frame req)) (snd (request_frame req))"

definition response_bytes :: "response \<Rightarrow> bytes" where
  "response_bytes resp = frame_bytes (fst (response_frame resp)) (snd (response_frame resp))"

definition wire_ok :: "request \<Rightarrow> bool" where
  "wire_ok req \<longleftrightarrow> request_ok req \<and> length (snd (request_frame req)) \<le> unat MAX_PAYLOAD"

lemma write_response_delivers:
  assumes "healthy w" and "\<And>v. resp = Response_Value v \<Longrightarrow> length v \<le> unat MAX_PAYLOAD"
  shows "delivers (response_bytes resp) w (write_response w resp)"
proof -
  have "length (snd (response_frame resp)) < 2 ^ 32"
    using assms(2) by (cases resp) auto
  then show ?thesis
    using write_frame_delivers [OF assms(1), of "snd (response_frame resp)" "fst (response_frame resp)"]
    by (simp add: write_response_frame response_bytes_def case_prod_unfold)
qed

context kv_contract
begin

lemma serve_frames_session:
  assumes "invar (length reqs + n) s" and "list_all wire_ok reqs" and "small_values (view s)"
    and "nr_bytes r = concat (map request_bytes reqs)" and "nr_fail r = None" and "healthy w" and "nw_buf w = []"
  shows "\<exists>w' s'. serve_frames ops r w s = Some (Inr (), w', s') \<and> healthy w' \<and> nw_buf w' = [] \<and>
           nw_out w' = nw_out w @ concat (map (\<lambda>c. response_bytes (snd c)) (spec_replies reqs (view s))) \<and>
           invar n s' \<and> view s' = spec_final reqs (view s)"
  using assms
proof (induction reqs arbitrary: s r w)
  case Nil
  then have "length (nr_bytes r) < 1" by simp
  then have "read_frame r = (Inr None, r\<lparr>nr_buffer := [], nr_chunks := []\<rparr>)"
    using Nil.prems(5) by (simp add: read_frame_def net_read_exact_short short_read_def del: One_nat_def)
  with Nil.prems show ?case by (simp add: serve_frames.simps [of ops r])
next
  case (Cons req reqs)
  let ?t = "fst (request_frame req)" and ?p = "snd (request_frame req)"
  have ok: "request_ok req" "length ?p \<le> 2 ^ 24" "request_fits req"
    using Cons.prems(2) frame_fits by (auto simp: wire_ok_def)
  have "nr_bytes r = frame_bytes ?t ?p @ concat (map request_bytes reqs)"
    using Cons.prems(4) request_bytes_def [of req] by simp
  then obtain r' where r': "read_frame r = (Inr (Some (?t, ?p)), r')"
    "nr_bytes r' = concat (map request_bytes reqs)" "nr_fail r' = nr_fail r"
    using ok(2) by (rule read_frame_bytes)
  have dec: "decode_request ?t ?p = Inr req" using decode_request_frame [OF ok(1)] ok(2) by simp
  obtain s1 where s1: "execute ops s req = Some (fst (spec_execute req (view s)), s1)"
    "invar (length reqs + n) s1" "view s1 = snd (spec_execute req (view s))"
    using execute_spec [of "length reqs + n" s req] ok Cons.prems(1) by auto
  have "delivers (response_bytes (fst (spec_execute req (view s)))) w (write_response w (fst (spec_execute req (view s))))"
    by (rule write_response_delivers [OF Cons.prems(6)]) (rule small_reply [OF Cons.prems(3)])
  then obtain w1 where w1: "write_response w (fst (spec_execute req (view s))) = (Inr (), w1)"
    "nw_out w1 = nw_out w @ response_bytes (fst (spec_execute req (view s)))" "healthy w1" "nw_buf w1 = []"
    using Cons.prems(7) by (auto simp: delivers_def nw_total_def)
  have "small_values (view s1)" using small_values_step [OF Cons.prems(3) ok(3)] s1(3) by simp
  with Cons.IH [of s1 r' w1] Cons.prems r' s1 w1 obtain w' s' where
    "serve_frames ops r' w1 s1 = Some (Inr (), w', s')" "healthy w'" "nw_buf w' = []"
    "nw_out w' = nw_out w1 @ concat (map (\<lambda>c. response_bytes (snd c)) (spec_replies reqs (view s1)))"
    "invar n s'" "view s' = spec_final reqs (view s1)"
    by auto
  moreover obtain t p where "request_frame req = (t, p)" by fastforce
  ultimately show ?case using r' dec s1 w1 by (simp add: serve_frames.simps [of ops r])
qed

end

section \<open>Sessions over RESP\<close>

text \<open>A command with its name spelled in any mixture of cases.\<close>

definition spelled :: "bytes \<Rightarrow> request \<Rightarrow> bool" where
  "spelled name req \<longleftrightarrow>
     request_ok req \<and> request_fits req \<and> eq_ignore_ascii_case name (to_bytes (request_name req))"

definition command_bytes :: "bytes \<times> request \<Rightarrow> bytes" where
  "command_bytes c = resp_encode (resp_cmd (fst c # request_args (snd c)))"

definition reply_bytes :: "request \<times> response \<Rightarrow> bytes" where
  "reply_bytes c = resp_encode (resp_reply (resp_command_from (fst c)) (snd c))"

lemma spelled_args:
  assumes "spelled name req"
  shows "args_ok (name # request_args req)"
proof -
  have "length name = length (to_bytes (request_name req))"
    using assms by (auto simp: spelled_def eq_ignore_ascii_case_def dest: arg_cong [where f = length])
  then have "length name \<le> unat MAX_PAYLOAD" by (cases req) simp_all
  then show ?thesis
    using assms by (cases req) (auto simp: args_ok_def spelled_def MAX_ARRAY_LEN_def)
qed

lemma spelled_decode:
  "spelled name req \<Longrightarrow> decode_request_resp (command_bytes (name, req)) = Inr (RespRequest_Kv req)"
  using decode_command [OF spelled_args] by (simp add: spelled_def command_bytes_def)

lemma read_command:
  assumes "spelled name req" and "nr_bytes r = command_bytes (name, req) @ rest"
  obtains r' where "read_frame_resp r = (Inr (Some (command_bytes (name, req))), r')" "nr_bytes r' = rest"
    "nr_fail r' = nr_fail r"
  using read_frame_resp_encode [OF resp_cmd_wf [OF spelled_args [OF assms(1)]]
      resp_cmd_nodes [OF spelled_args [OF assms(1)]]] assms(2)
  by (auto simp: command_bytes_def)

lemma read_frame_resp_end:
  assumes "nr_bytes r = []" and "nr_fail r = None"
  shows "read_frame_resp r = (Inr None, r\<lparr>nr_buffer := [], nr_chunks := []\<rparr>)"
  using assms by (simp add: read_frame_resp_def read_frame_loop.simps [of "[]" "Suc 0"] read_until_missing)

context kv_contract
begin

lemma serve_command:
  assumes "invar (Suc n) s" and "spelled name req" and "small_values (view s)" and "healthy w"
  shows "\<exists>w' s'. serve_resp_frame ops (command_bytes (name, req)) w s = Some (Inr (), w', s') \<and> healthy w' \<and>
           nw_total w' = nw_total w @ reply_bytes (req, fst (spec_execute req (view s))) \<and>
           invar n s' \<and> view s' = snd (spec_execute req (view s)) \<and> small_values (view s')"
proof -
  have ok: "request_ok req" "request_fits req" using assms(2) by (simp_all add: spelled_def)
  obtain s1 where s1: "execute ops s req = Some (fst (spec_execute req (view s)), s1)"
    "invar n s1" "view s1 = snd (spec_execute req (view s))"
    using execute_spec [OF assms(1) ok] by auto
  obtain w1 where "write_response_resp w (resp_command_from req) (fst (spec_execute req (view s))) = (Inr (), w1)"
    "nw_total w1 = nw_total w @ reply_bytes (req, fst (spec_execute req (view s)))" "healthy w1"
    using write_response_resp_sends [OF assms(4)] by (fastforce simp: sends_def reply_bytes_def)
  with s1 spelled_decode [OF assms(2)] small_values_step [OF assms(3) ok(2)] show ?thesis
    by (simp add: serve_resp_frame_def)
qed

lemma handle_resp_session:
  assumes "invar (length cmds + n) s" and "list_all (\<lambda>(name, req). spelled name req) cmds"
    and "small_values (view s)" and "nr_bytes r = concat (map command_bytes cmds)" and "nr_fail r = None"
    and "healthy w"
  shows "\<exists>w' s'. handle_resp ops r w s = Some (Inr (), w', s') \<and> healthy w' \<and> nw_buf w' = [] \<and>
           nw_out w' = nw_total w @ concat (map reply_bytes (spec_replies (map snd cmds) (view s))) \<and>
           invar n s' \<and> view s' = spec_final (map snd cmds) (view s)"
  using assms
proof (induction cmds arbitrary: s r w)
  case Nil
  then show ?case
    by (simp add: handle_resp.simps [of ops r] read_frame_resp_end nw_flush_ok healthy_def)
next
  case (Cons cmd cmds)
  obtain name req where cmd: "cmd = (name, req)" by fastforce
  have sp: "spelled name req" using Cons.prems(2) cmd by simp
  have "nr_bytes r = command_bytes (name, req) @ concat (map command_bytes cmds)"
    using Cons.prems(4) cmd by simp
  with sp obtain r' where r': "read_frame_resp r = (Inr (Some (command_bytes (name, req))), r')"
    "nr_bytes r' = concat (map command_bytes cmds)" "nr_fail r' = nr_fail r"
    by (rule read_command)
  obtain w1 s1 where s1: "serve_resp_frame ops (command_bytes (name, req)) w s = Some (Inr (), w1, s1)" "healthy w1"
    "nw_total w1 = nw_total w @ reply_bytes (req, fst (spec_execute req (view s)))"
    "invar (length cmds + n) s1" "view s1 = snd (spec_execute req (view s))" "small_values (view s1)"
    using serve_command [of "length cmds + n" s name req w] Cons.prems sp by auto
  define w2 where "w2 = (if nr_buffer r' = [] then w1\<lparr>nw_out := nw_total w1, nw_buf := []\<rparr> else w1)"
  have fl: "(if nr_buffer r' = [] then nw_flush w1 else (Inr (), w1)) = (Inr (), w2)"
    using s1(2) by (simp add: w2_def healthy_def nw_flush_ok)
  have w2: "healthy w2" "nw_total w2 = nw_total w1" using s1(2) by (simp_all add: w2_def healthy_def nw_total_def)
  have "\<exists>w' s'. handle_resp ops r' w2 s1 = Some (Inr (), w', s') \<and> healthy w' \<and> nw_buf w' = [] \<and>
      nw_out w' = nw_total w2 @ concat (map reply_bytes (spec_replies (map snd cmds) (view s1))) \<and>
      invar n s' \<and> view s' = spec_final (map snd cmds) (view s1)"
    using Cons.prems r' s1 w2 by (intro Cons.IH) simp_all
  with r' s1 fl w2 cmd show ?case by (auto simp: handle_resp.simps [of ops r])
qed

end

section \<open>Connections\<close>

lemma fill_buf_front:
  assumes "nr_bytes r = b # rest"
  obtains buf r' where "fill_buf r = (Inr (b # buf), r')" "nr_bytes r' = nr_bytes r" "nr_fail r' = nr_fail r"
proof (cases "nr_buffer r")
  case (Cons c buf)
  with assms that show ?thesis by (simp add: fill_buf_def nr_bytes_def)
next
  case Nil
  have drop: "concat (dropWhile (\<lambda>c. c = []) cs) = concat cs" for cs :: "bytes list"
    by (induction cs) simp_all
  from Nil assms have "concat (dropWhile (\<lambda>c. c = []) (nr_chunks r)) = b # rest"
    by (simp add: nr_bytes_def drop)
  then obtain c cs where c: "dropWhile (\<lambda>c. c = []) (nr_chunks r) = c # cs"
    by (cases "dropWhile (\<lambda>c. c = []) (nr_chunks r)") simp_all
  then have "c \<noteq> []" using hd_dropWhile [of "\<lambda>c. c = []" "nr_chunks r"] by auto
  with c \<open>concat _ = b # rest\<close> obtain buf where "c = b # buf" by (cases c) simp_all
  with Nil c drop [of "nr_chunks r"] show ?thesis
    by (intro that [of buf "r\<lparr>nr_buffer := c, nr_chunks := cs\<rparr>"])
       (simp_all add: fill_buf_def nr_bytes_def)
qed

lemma fill_buf_end:
  assumes "nr_bytes r = []" and "nr_fail r = None"
  shows "\<exists>r'. fill_buf r = (Inr [], r')"
proof -
  from assms have "nr_buffer r = []" "\<forall>c \<in> set (nr_chunks r). c = []" by (simp_all add: nr_bytes_def)
  then have "dropWhile (\<lambda>c. c = []) (nr_chunks r) = []" by simp
  with \<open>nr_buffer r = []\<close> assms(2) show ?thesis by (simp add: fill_buf_def del: dropWhile_eq_Nil_conv)
qed

text \<open>A healthy connection on which the bytes arrive in some chunks, followed by the end of the stream.\<close>

definition stream_of :: "bytes \<Rightarrow> tcp_stream \<Rightarrow> bool" where
  "stream_of bs stream \<longleftrightarrow>
     ts_clone stream = None \<and> concat (ts_chunks stream) = bs \<and> ts_fail stream = None \<and> ts_out_fail stream = None"

lemma nw_drop_out: "nw_buf w = [] \<Longrightarrow> nw_out (nw_drop w) = nw_out w"
  by (simp add: nw_drop_def nw_flush_def)

lemma handle_start:
  assumes "stream_of bs stream"
  obtains r w where "nr_bytes r = bs" "nr_fail r = None" "healthy w" "nw_out w = []" "nw_buf w = []"
    "bs = [] \<longrightarrow> handle ops stream s = Some (Inr (), [], s)"
    "\<And>b rest. bs = b # rest \<Longrightarrow> handle ops stream s =
        map_option (\<lambda>(res, w, s). (res, nw_out (nw_drop w), s))
          (if is_resp b then handle_resp ops r w s else serve_frames ops r w s)"
proof -
  define r0 where "r0 = \<lparr>nr_buffer = [], nr_chunks = ts_chunks stream, nr_fail = ts_fail stream\<rparr>"
  define w where "w = \<lparr>nw_out = [], nw_buf = [], nw_capacity = DEFAULT_BUF_SIZE, nw_fail = ts_out_fail stream\<rparr>"
  have r0: "nr_bytes r0 = bs" "nr_fail r0 = None" using assms by (simp_all add: stream_of_def r0_def nr_bytes_def)
  have w: "healthy w" "nw_out w = []" "nw_buf w = []" "nw_out (nw_drop w) = []"
    using assms by (simp_all add: stream_of_def w_def healthy_def nw_drop_out)
  have h: "handle ops stream s = map_option (\<lambda>(r, w, s). (r, nw_out (nw_drop w), s))
      (case fill_buf r0 of
         (Inl e, r) \<Rightarrow> Some (Inl e, w, s)
       | (Inr [], r) \<Rightarrow> Some (Inr (), w, s)
       | (Inr (first # _), r) \<Rightarrow> if is_resp first then handle_resp ops r w s else serve_frames ops r w s)"
    using assms unfolding handle_def r0_def w_def Let_def by (simp add: stream_of_def)
  show thesis
  proof (cases bs)
    case Nil
    with fill_buf_end [OF _ r0(2)] r0 h w show ?thesis by (intro that [of r0 w]) auto
  next
    case (Cons b rest)
    with r0(1) obtain buf r' where "fill_buf r0 = (Inr (b # buf), r')" "nr_bytes r' = nr_bytes r0" "nr_fail r' = nr_fail r0"
      using fill_buf_front [of r0 b rest] by metis
    with Cons r0 h w show ?thesis by (intro that [of r' w]) auto
  qed
qed

lemma request_type_not_resp: "\<not> is_resp (fst (request_frame req))"
  by (cases req) (simp_all add: is_resp_def msg_types)

context kv_contract
begin

lemma handle_binary:
  assumes "invar (length reqs + n) s" and "list_all wire_ok reqs" and "small_values (view s)"
    and "stream_of (concat (map request_bytes reqs)) stream"
  shows "\<exists>s'. handle ops stream s =
           Some (Inr (), concat (map (\<lambda>c. response_bytes (snd c)) (spec_replies reqs (view s))), s') \<and>
           invar n s' \<and> view s' = spec_final reqs (view s)"
proof -
  let ?bs = "concat (map request_bytes reqs)"
  from assms(4) obtain r w where rw: "nr_bytes r = ?bs" "nr_fail r = None" "healthy w" "nw_out w = []" "nw_buf w = []"
    and empty: "?bs = [] \<longrightarrow> handle ops stream s = Some (Inr (), [], s)"
    and run: "\<And>b rest. ?bs = b # rest \<Longrightarrow> handle ops stream s =
        map_option (\<lambda>(res, w, s). (res, nw_out (nw_drop w), s))
          (if is_resp b then handle_resp ops r w s else serve_frames ops r w s)"
    by (rule handle_start [where ops = ops and s = s]) blast
  show ?thesis
  proof (cases reqs)
    case Nil
    with empty assms(1) show ?thesis by simp
  next
    case (Cons req rest)
    then obtain tl where front: "?bs = fst (request_frame req) # tl"
      by (simp add: request_bytes_def frame_bytes_def)
    obtain w' s' where "serve_frames ops r w s = Some (Inr (), w', s')" "nw_buf w' = []"
      "nw_out w' = concat (map (\<lambda>c. response_bytes (snd c)) (spec_replies reqs (view s)))"
      "invar n s'" "view s' = spec_final reqs (view s)"
      using serve_frames_session [OF assms(1-3) rw(1,2,3,5)] rw(4) by auto
    with run [OF front] request_type_not_resp show ?thesis by (simp add: nw_drop_out)
  qed
qed

lemma handle_commands:
  assumes "invar (length cmds + n) s" and "list_all (\<lambda>(name, req). spelled name req) cmds"
    and "small_values (view s)" and "stream_of (concat (map command_bytes cmds)) stream"
  shows "\<exists>s'. handle ops stream s =
           Some (Inr (), concat (map reply_bytes (spec_replies (map snd cmds) (view s))), s') \<and>
           invar n s' \<and> view s' = spec_final (map snd cmds) (view s)"
proof -
  let ?bs = "concat (map command_bytes cmds)"
  from assms(4) obtain r w where rw: "nr_bytes r = ?bs" "nr_fail r = None" "healthy w" "nw_out w = []" "nw_buf w = []"
    and empty: "?bs = [] \<longrightarrow> handle ops stream s = Some (Inr (), [], s)"
    and run: "\<And>b rest. ?bs = b # rest \<Longrightarrow> handle ops stream s =
        map_option (\<lambda>(res, w, s). (res, nw_out (nw_drop w), s))
          (if is_resp b then handle_resp ops r w s else serve_frames ops r w s)"
    by (rule handle_start [where ops = ops and s = s]) blast
  show ?thesis
  proof (cases cmds)
    case Nil
    with empty assms(1) show ?thesis by simp
  next
    case (Cons cmd rest)
    then obtain tl where front: "?bs = 42 # tl"
      by (simp add: command_bytes_def resp_cmd_def len_line_def resp_line_def)
    obtain w' s' where "handle_resp ops r w s = Some (Inr (), w', s')" "nw_buf w' = []"
      "nw_out w' = concat (map reply_bytes (spec_replies (map snd cmds) (view s)))"
      "invar n s'" "view s' = spec_final (map snd cmds) (view s)"
      using handle_resp_session [OF assms(1-3) rw(1,2,3)] rw(4,5) by (auto simp: nw_total_def)
    with run [OF front] show ?thesis by (simp add: nw_drop_out is_resp_def)
  qed
qed

end

section \<open>Properties\<close>

text \<open>
  C21. A session over the binary protocol on a Bitcask store: however the bytes of the requests are cut
  into chunks, the peer gets the replies of a key-value map to its requests, in their order, and
  the store afterwards is that map. The store must be able to serve the number of requests.
\<close>

theorem binary_session:
  assumes "bitcask_ready crc (length reqs) st" and "list_all wire_ok reqs" and "small_values (store_view crc st)"
    and "stream_of (concat (map request_bytes reqs)) stream"
  shows "\<exists>st'. handle (bitcask_ops crc) stream st =
           Some (Inr (), concat (map (\<lambda>c. response_bytes (snd c)) (spec_replies reqs (store_view crc st))), st') \<and>
           store_view crc st' = spec_final reqs (store_view crc st)"
  using bc.handle_binary [of crc reqs 0 st stream] assms by auto

lemma small_values_empty: "small_values Map.empty"
  by (simp add: small_values_def)

theorem binary_session_witness:
  "\<exists>st'. handle (bitcask_ops sum_crc)
      \<lparr>ts_clone = None, ts_chunks = [[1, 6], [0, 0, 0, 1, 0, 0, 0, 107, 118, 0], [1, 0, 0, 0, 107]],
       ts_fail = None, ts_out_fail = None\<rparr> calm_store =
    Some (Inr (), [0, 0, 0, 0, 0, 1, 1, 0, 0, 0, 118], st') \<and> store_view sum_crc st' = [[107] \<mapsto> [118]]"
proof -
  let ?reqs = "[Request_Set [107] [118], Request_Get [107]]"
  have "utf8_valid [107 :: byte]" "utf8_valid [118 :: byte]" by code_simp+
  then have ok: "list_all wire_ok ?reqs" by (simp add: wire_ok_def)
  have in_bytes: "concat (map request_bytes ?reqs) = [1, 6, 0, 0, 0, 1, 0, 0, 0, 107, 118, 0, 1, 0, 0, 0, 107]"
    by code_simp
  have out: "concat (map (\<lambda>c. response_bytes (snd c)) (spec_replies ?reqs Map.empty)) = [0, 0, 0, 0, 0, 1, 1, 0, 0, 0, 118]"
    by code_simp
  let ?stream = "\<lparr>ts_clone = None, ts_chunks = [[1, 6], [0, 0, 0, 1, 0, 0, 0, 107, 118, 0], [1, 0, 0, 0, 107]],
       ts_fail = None, ts_out_fail = None\<rparr>"
  have "stream_of (concat (map request_bytes ?reqs)) ?stream" unfolding in_bytes by (simp add: stream_of_def)
  from binary_session [OF _ ok _ this, of sum_crc calm_store]
  have "\<exists>st'. handle (bitcask_ops sum_crc) ?stream calm_store =
      Some (Inr (), concat (map (\<lambda>c. response_bytes (snd c)) (spec_replies ?reqs Map.empty)), st') \<and>
      store_view sum_crc st' = spec_final ?reqs Map.empty"
    using calm_store_ready calm_store_facts(2) by (simp add: small_values_empty)
  then show ?thesis unfolding out by simp
qed

text \<open>
  C22. A RESP session on a Bitcask store: commands with names in any case, pipelined and cut into chunks
  in any way, get the RESP replies of a key-value map in their order, all of them delivered
  when the connection ends.
\<close>

theorem resp_session:
  assumes "bitcask_ready crc (length cmds) st" and "list_all (\<lambda>(name, req). spelled name req) cmds"
    and "small_values (store_view crc st)" and "stream_of (concat (map command_bytes cmds)) stream"
  shows "\<exists>st'. handle (bitcask_ops crc) stream st =
           Some (Inr (), concat (map reply_bytes (spec_replies (map snd cmds) (store_view crc st))), st') \<and>
           store_view crc st' = spec_final (map snd cmds) (store_view crc st)"
  using bc.handle_commands [of crc cmds 0 st stream] assms by auto

theorem resp_session_witness:
  "\<exists>st'. handle (bitcask_ops sum_crc)
      \<lparr>ts_clone = None, ts_chunks = [to_bytes ''*2'' @ [13], [10] @ to_bytes ''$3'' @ [13, 10] @ to_bytes ''dEl'' @ [13, 10],
         to_bytes ''$1'' @ [13, 10, 107, 13, 10]],
       ts_fail = None, ts_out_fail = None\<rparr> calm_store =
    Some (Inr (), to_bytes '':0'' @ [13, 10], st') \<and> store_view sum_crc st' = Map.empty"
proof -
  let ?cmds = "[(to_bytes ''dEl'', Request_Rm [107])]"
  have "utf8_valid [107 :: byte]" "eq_ignore_ascii_case (to_bytes ''dEl'') (to_bytes ''DEL'')" by code_simp+
  then have ok: "list_all (\<lambda>(name, req). spelled name req) ?cmds" by (simp add: spelled_def)
  have in_bytes: "concat (map command_bytes ?cmds) =
      concat [to_bytes ''*2'' @ [13], [10] @ to_bytes ''$3'' @ [13, 10] @ to_bytes ''dEl'' @ [13, 10],
         to_bytes ''$1'' @ [13, 10, 107, 13, 10]]"
    by code_simp
  have out: "concat (map reply_bytes (spec_replies (map snd ?cmds) Map.empty)) = to_bytes '':0'' @ [13, 10]"
    by code_simp
  let ?stream = "\<lparr>ts_clone = None, ts_chunks = [to_bytes ''*2'' @ [13], [10] @ to_bytes ''$3'' @ [13, 10] @ to_bytes ''dEl'' @ [13, 10],
         to_bytes ''$1'' @ [13, 10, 107, 13, 10]], ts_fail = None, ts_out_fail = None\<rparr>"
  have "stream_of (concat (map command_bytes ?cmds)) ?stream" unfolding in_bytes by (simp add: stream_of_def)
  from resp_session [OF _ ok _ this, of sum_crc calm_store]
  have "\<exists>st'. handle (bitcask_ops sum_crc) ?stream calm_store =
      Some (Inr (), concat (map reply_bytes (spec_replies (map snd ?cmds) Map.empty)), st') \<and>
      store_view sum_crc st' = spec_final (map snd ?cmds) Map.empty"
    using calm_store_ready calm_store_facts(2) by (simp add: small_values_empty)
  then show ?thesis unfolding out by simp
qed

text \<open>
  C24. A request that does not decode harms nobody: the client gets \<open>InvalidRequest\<close>, the store is not
  touched and the connection goes on with the next frame.
\<close>

theorem bad_request_isolated:
  assumes "decode_request t p = Inl e" and "length p \<le> unat MAX_PAYLOAD"
    and "nr_bytes r = frame_bytes t p @ rest" and "healthy w"
  shows "\<exists>r' w'. serve_frames ops r w st = serve_frames ops r' w' st \<and> nr_bytes r' = rest \<and> healthy w' \<and>
           nw_out w' = nw_total w @ response_bytes (Response_Error EC_InvalidRequest)"
proof -
  have len: "length p \<le> 2 ^ 24" using assms(2) by simp
  obtain r' where r': "read_frame r = (Inr (Some (t, p)), r')" "nr_bytes r' = rest"
    by (rule read_frame_bytes [OF assms(3) len])
  have "delivers (response_bytes (Response_Error EC_InvalidRequest)) w (write_response w (Response_Error EC_InvalidRequest))"
    by (rule write_response_delivers [OF assms(4)]) simp
  then obtain w' where "write_response w (Response_Error EC_InvalidRequest) = (Inr (), w')" "healthy w'"
    "nw_out w' = nw_total w @ response_bytes (Response_Error EC_InvalidRequest)"
    by (auto simp: delivers_def)
  with r' assms(1) show ?thesis by (intro exI [of _ r'] exI [of _ w']) (simp add: serve_frames.simps [of ops r])
qed

theorem bad_request_isolated_witness:
  "\<exists>r' w'. serve_frames (bitcask_ops sum_crc) (one_reader [9, 0, 0, 0, 0, 0]) idle_writer calm_store =
       serve_frames (bitcask_ops sum_crc) r' w' calm_store \<and> nr_bytes r' = [0] \<and> nw_out w' = [2, 1, 0, 0, 0, 3]"
proof -
  have d: "decode_request 9 [] = Inl UnexpectedCommandType" "frame_bytes 9 [] = [9, 0, 0, 0, 0]"
    "response_bytes (Response_Error EC_InvalidRequest) = [2, 1, 0, 0, 0, 3]" by code_simp+
  have "nr_bytes (one_reader [9, 0, 0, 0, 0, 0]) = frame_bytes 9 [] @ [0]"
    unfolding d by (simp add: one_reader_def nr_bytes_def)
  from bad_request_isolated [OF d(1) _ this idle_writer_healthy, of "bitcask_ops sum_crc" calm_store]
  show ?thesis unfolding d by (auto simp: nw_total_def idle_writer_def)
qed

end
