(* ===== verification/Repl.thy ===== *)
theory Repl
  imports Protocol
begin

text \<open>
  The command line programs: \<open>parse_command\<close> of \<open>src/src/repl_helper.rs\<close>, the client
  \<open>src/src/bin/kvs-client.rs\<close> with its \<open>call\<close> over the binary protocol, and the REPL on a local store,
  \<open>src/src/bin/kvs.rs\<close>. The line editor is a sequence of events; what a program prints is a list of
  lines with the stream they go to. The debug rendering of an unexpected response is left as the
  response itself; log messages are not modelled.
\<close>

datatype out_line = Stdout bytes | Stderr bytes | Stderr_Unexpected response

datatype readline = Line bytes | Readline_Eof | Readline_Interrupted | Readline_Error string

section \<open>Commands\<close>

datatype repl_command =
    ReplCommand_Set bytes bytes
  | ReplCommand_Get bytes
  | ReplCommand_Rm bytes

definition parse_command :: "bytes \<Rightarrow> repl_command option" where
  "parse_command input =
     (case split_whitespace input of
        [] \<Rightarrow> None
      | command # parts \<Rightarrow>
          if command = to_bytes ''set'' then
            (case parts of key # v # _ \<Rightarrow> Some (ReplCommand_Set key v) | _ \<Rightarrow> None)
          else if command = to_bytes ''get'' then
            (case parts of key # _ \<Rightarrow> Some (ReplCommand_Get key) | _ \<Rightarrow> None)
          else if command = to_bytes ''rm'' then
            (case parts of key # _ \<Rightarrow> Some (ReplCommand_Rm key) | _ \<Rightarrow> None)
          else None)"

definition print_help :: "out_line list" where
  "print_help = map (\<lambda>s. Stdout (to_bytes s))
     [''Available commands:'',
      ''  set <KEY> <VALUE>  Set the value of a key'',
      ''  get <KEY>          Get the value of a key'',
      ''  rm <KEY>           Remove a key'',
      ''  help               Show this help'',
      ''  quit               Exit'']"

definition error_line :: "kvs_error \<Rightarrow> out_line" where
  "error_line e = Stderr (to_bytes (''Error: '' @ kvs_error_to_string e))"

section \<open>The client\<close>

record client_conn =
  cc_writer :: net_writer
  cc_reader :: net_reader

definition call :: "client_conn \<Rightarrow> request \<Rightarrow> (kvs_error + response) \<times> client_conn" where
  "call stream req =
     st_bind (case write_request (cc_writer stream) req of (r, w) \<Rightarrow> (r, stream\<lparr>cc_writer := w\<rparr>)) (\<lambda>_ stream.
     st_bind (case read_frame (cc_reader stream) of (r, rd) \<Rightarrow> (r, stream\<lparr>cc_reader := rd\<rparr>)) (\<lambda>frame stream.
     case frame of
       None \<Rightarrow> (Inl (Io (Io_Error UnexpectedEof ''server closed the connection'')), stream)
     | Some (msg_type, payload) \<Rightarrow>
         st_bind (decode_response msg_type payload, stream) (\<lambda>resp stream.
         case resp of
           Response_Error code \<Rightarrow> (Inl (error_from_error_code code), stream)
         | _ \<Rightarrow> (Inr resp, stream))))"

definition client_set :: "bytes \<Rightarrow> bytes \<Rightarrow> client_conn \<Rightarrow> out_line \<times> client_conn" where
  "client_set key v stream =
     (case call stream (Request_Set key v) of
        (Inr Response_Ok, stream) \<Rightarrow> (Stdout (to_bytes ''SET '' @ key @ to_bytes '' = '' @ v), stream)
      | (Inr other, stream) \<Rightarrow> (Stderr_Unexpected other, stream)
      | (Inl e, stream) \<Rightarrow> (error_line e, stream))"

definition client_get :: "bytes \<Rightarrow> client_conn \<Rightarrow> out_line \<times> client_conn" where
  "client_get key stream =
     (case call stream (Request_Get key) of
        (Inr (Response_Value v), stream) \<Rightarrow> (Stdout v, stream)
      | (Inr other, stream) \<Rightarrow> (Stderr_Unexpected other, stream)
      | (Inl KeyNotFound, stream) \<Rightarrow> (Stdout (to_bytes ''Key not found''), stream)
      | (Inl e, stream) \<Rightarrow> (error_line e, stream))"

definition client_rm :: "bytes \<Rightarrow> client_conn \<Rightarrow> out_line \<times> client_conn" where
  "client_rm key stream =
     (case call stream (Request_Rm key) of
        (Inr Response_Ok, stream) \<Rightarrow> (Stdout (to_bytes ''Removed key: '' @ key), stream)
      | (Inr other, stream) \<Rightarrow> (Stderr_Unexpected other, stream)
      | (Inl e, stream) \<Rightarrow> (error_line e, stream))"

text \<open>The loop of \<open>main\<close>, from the connected stream on.\<close>

fun client_loop :: "readline list \<Rightarrow> client_conn \<Rightarrow> out_line list \<times> client_conn" where
  "client_loop [] stream = ([], stream)"
| "client_loop (Line line # events) stream =
     (let line = trim line in
      if line = [] then client_loop events stream
      else if line = to_bytes ''quit'' \<or> line = to_bytes ''exit'' then ([], stream)
      else if line = to_bytes ''help'' then
        (let (out, stream) = client_loop events stream in (print_help @ out, stream))
      else
        (case parse_command line of
           Some (ReplCommand_Set key v) \<Rightarrow>
             (let (o1, stream) = client_set key v stream; (out, stream) = client_loop events stream
              in (o1 # out, stream))
         | Some (ReplCommand_Get key) \<Rightarrow>
             (let (o1, stream) = client_get key stream; (out, stream) = client_loop events stream
              in (o1 # out, stream))
         | Some (ReplCommand_Rm key) \<Rightarrow>
             (let (o1, stream) = client_rm key stream; (out, stream) = client_loop events stream
              in (o1 # out, stream))
         | None \<Rightarrow> client_loop events stream))"
| "client_loop (Readline_Eof # events) stream = ([], stream)"
| "client_loop (Readline_Interrupted # events) stream =
     (let (out, stream) = client_loop events stream in (Stdout (to_bytes ''^C'') # out, stream))"
| "client_loop (Readline_Error err # events) stream = ([Stderr (to_bytes (''Error: '' @ err))], stream)"

section \<open>The REPL on a local store\<close>

definition repl_set :: "'s kv_store_ops \<Rightarrow> bytes \<Rightarrow> bytes \<Rightarrow> 's \<Rightarrow> out_line \<times> 's" where
  "repl_set ops key v kvstore =
     (case kv_set ops key v kvstore of
        (Inl e, kvstore) \<Rightarrow> (error_line e, kvstore)
      | (Inr _, kvstore) \<Rightarrow> (Stdout (to_bytes ''SET '' @ key @ to_bytes '' = '' @ v), kvstore))"

definition repl_get :: "'s kv_store_ops \<Rightarrow> bytes \<Rightarrow> 's \<Rightarrow> (out_line \<times> 's) option" where
  "repl_get ops key kvstore =
     map_option (\<lambda>(res, kvstore).
         (case res of
            Inr (Some v) \<Rightarrow> Stdout v
          | Inr None \<Rightarrow> Stdout (to_bytes ''Key not found'')
          | Inl e \<Rightarrow> error_line e, kvstore))
       (kv_get ops key kvstore)"

definition repl_rm :: "'s kv_store_ops \<Rightarrow> bytes \<Rightarrow> 's \<Rightarrow> out_line \<times> 's" where
  "repl_rm ops key kvstore =
     (case kv_remove ops key kvstore of
        (Inl e, kvstore) \<Rightarrow> (error_line e, kvstore)
      | (Inr _, kvstore) \<Rightarrow> (Stdout (to_bytes ''Removed key: '' @ key), kvstore))"

definition prepend :: "out_line list \<Rightarrow> (out_line list \<times> 's) option \<Rightarrow> (out_line list \<times> 's) option" where
  "prepend out r = map_option (\<lambda>(outs, s). (out @ outs, s)) r"

fun repl_loop :: "'s kv_store_ops \<Rightarrow> readline list \<Rightarrow> 's \<Rightarrow> (out_line list \<times> 's) option" where
  "repl_loop ops [] kvstore = Some ([], kvstore)"
| "repl_loop ops (Line line # events) kvstore =
     (let line = trim line in
      if line = [] then repl_loop ops events kvstore
      else if line = to_bytes ''quit'' \<or> line = to_bytes ''exit'' then Some ([], kvstore)
      else if line = to_bytes ''help'' then prepend print_help (repl_loop ops events kvstore)
      else
        (case parse_command line of
           Some (ReplCommand_Set key v) \<Rightarrow>
             (let (o1, kvstore) = repl_set ops key v kvstore in prepend [o1] (repl_loop ops events kvstore))
         | Some (ReplCommand_Get key) \<Rightarrow>
             Option.bind (repl_get ops key kvstore) (\<lambda>(o1, kvstore).
             prepend [o1] (repl_loop ops events kvstore))
         | Some (ReplCommand_Rm key) \<Rightarrow>
             (let (o1, kvstore) = repl_rm ops key kvstore in prepend [o1] (repl_loop ops events kvstore))
         | None \<Rightarrow> repl_loop ops events kvstore))"
| "repl_loop ops (Readline_Eof # events) kvstore = Some ([], kvstore)"
| "repl_loop ops (Readline_Interrupted # events) kvstore =
     prepend [Stdout (to_bytes ''^C'')] (repl_loop ops events kvstore)"
| "repl_loop ops (Readline_Error err # events) kvstore =
     Some ([Stderr (to_bytes (''Error: '' @ err))], kvstore)"

end
