(* ===== verification/Server_Sim.thy ===== *)
theory Server_Sim
  imports Server Kv_Store Repl
begin

text \<open>
  Programs on top of a store cannot tell it from the reference store, a map in memory: on any input
  the server and the REPL produce the same bytes, results and lines on both, and the stores stay
  in step. The number of operations is bounded by the length of the input.
\<close>

section \<open>Sizes\<close>

fun request_size :: "request \<Rightarrow> nat" where
  "request_size (Request_Get key) = length key"
| "request_size (Request_Set key v) = length key + length v"
| "request_size (Request_Rm key) = length key"

fun resp_size :: "resp_value \<Rightarrow> nat" where
  "resp_size (Resp_BulkString (Some b)) = length b"
| "resp_size (Resp_Array (Some vs)) = sum_list (map resp_size vs)"
| "resp_size _ = 0"

lemma parse_size:
  "parse_value buf depth = Inr (v, used) \<Longrightarrow> resp_size v \<le> used"
  "parse_items n buf start depth = Inr (vs, used) \<Longrightarrow> start + sum_list (map resp_size vs) \<le> used"
proof (induction buf depth and n buf start depth arbitrary: v used and vs used rule: parse_value_parse_items.induct)
  case (1 buf depth)
  from "1.prems" have d: "\<not> MAX_DEPTH < depth"
    by (auto simp: parse_value.simps [of buf depth] split: if_splits)
  with "1.prems" obtain kind body k where line: "take_line buf = Inr (kind, body, k)"
    by (auto simp: parse_value.simps [of buf depth] res_iffs split: if_splits)
  show ?case
  proof (cases "kind = 42")
    case False
    with "1.prems" d line show ?thesis
      by (auto simp: parse_value.simps [of buf depth] res_iffs split: if_splits option.splits)
  next
    case True
    with "1.prems" d line consider "v = Resp_Array None" "used = k"
      | n vs where "parse_len body = Inr (Some n)" "v = Resp_Array (Some vs)"
          "parse_items n buf k (depth + 1) = Inr (vs, used)"
      by (auto simp: parse_value.simps [of buf depth] res_iffs split: if_splits option.splits)
    then show ?thesis
    proof cases
      case 2
      from "1.IH" [OF d line refl refl _ _ _ _ True 2(1) refl 2(3)] True 2(2) show ?thesis by auto
    qed simp
  qed
next
  case (2 n buf start depth)
  show ?case
  proof (cases "n = 0")
    case True
    with "2.prems" show ?thesis by (simp add: parse_items.simps [of 0])
  next
    case False
    with "2.prems" obtain item k items where
      item: "parse_value (drop start buf) depth = Inr (item, k)"
      and items: "parse_items (n - 1) buf (start + k) depth = Inr (items, used)" and vs: "vs = item # items"
      by (auto simp: parse_items.simps [of n] res_iffs)
    from "2.IH"(1) [OF False item] "2.IH"(2) [OF False item refl items] vs show ?thesis by simp
  qed
qed

lemma bulk_args_size: "bulk_args vs = Inr args \<Longrightarrow> sum_list (map length args) = sum_list (map resp_size vs)"
  by (induction vs arbitrary: args rule: bulk_args.induct) (auto simp: res_iffs)

lemma decode_request_resp_Kv:
  assumes "decode_request_resp frame = Inr (RespRequest_Kv req)"
  shows "request_ok req \<and> request_size req \<le> length frame"
proof -
  obtain v where v: "parse_resp frame = Inr v"
    using assms by (cases "parse_resp frame") (simp_all add: decode_request_resp_def)
  with assms obtain items where p: "parse_resp frame = Inr (Resp_Array (Some items))" "items \<noteq> []"
    by (cases v rule: resp_size.cases) (auto simp: decode_request_resp_def split: if_splits)
  with assms obtain args where a: "bulk_args items = Inr args"
    by (cases "bulk_args items") (simp_all add: decode_request_resp_def)
  from a p(2) obtain name rest where args: "args = name # rest"
    by (cases items rule: bulk_args.cases) (auto simp: res_iffs)
  have req: "request_ok req \<and> (request_size req = length (rest ! 0) \<and> length rest = 1 \<or>
      request_size req = length (rest ! 0) + length (rest ! 1) \<and> length rest = 2)"
    using assms p a args
    by (simp add: decode_request_resp_def Let_def split: if_splits list.splits)
       (auto simp: res_iffs check_args_def split: if_splits)
  then have "request_size req \<le> sum_list (map length args)"
    using args by (auto simp: length_Suc_conv numeral_2_eq_2)
  also have "\<dots> = resp_size (Resp_Array (Some items))" using bulk_args_size [OF a] by simp
  also have "parse_value frame 0 = Inr (Resp_Array (Some items), length frame)"
    using p(1) by (auto simp: parse_resp_def res_iffs split: if_splits)
  note parse_size(1) [OF this]
  finally show ?thesis using req by simp
qed

lemma decode_request_size:
  "decode_request t p = Inr req \<Longrightarrow> request_ok req \<and> request_size req \<le> length p"
  using decode_request_Inr [of t p req] by (cases req) auto

lemma read_frame_resp_bytes:
  assumes "read_frame_resp r = (Inr (Some f), r')"
  shows "nr_bytes r = f @ nr_bytes r'"
  using assms read_frame_loop_prefix [of "[]" 1 r f r'] by (simp add: read_frame_resp_def)

section \<open>The server\<close>

context kv_contract
begin

lemma execute_sim:
  assumes "invar (Suc n) s" and "request_ok req" and "request_size req \<le> pair_limit"
  shows "\<exists>resp s'. execute ops s req = Some (resp, s') \<and> execute map_ops (view s) req = Some (resp, view s') \<and>
           invar n s'"
proof (cases req)
  case (Request_Get key)
  with assms obtain s' where "kv_get ops key s = Some (Inr (view s key), s')" "invar n s'" "view s' = view s"
    using get_law [OF assms(1), of key] by (auto simp: pair_ok_def)
  with Request_Get show ?thesis by (cases "view s key") (simp_all add: execute_def map_ops_def)
next
  case (Request_Set key v)
  with assms obtain s' where "kv_set ops key v s = (Inr (), s')" "invar n s'" "view s' = (view s)(key \<mapsto> v)"
    using set_law [OF assms(1), of key v] by (auto simp: pair_ok_def)
  with Request_Set show ?thesis by (simp add: execute_def map_ops_def)
next
  case (Request_Rm key)
  with assms obtain s' where
    "kv_remove ops key s = ((if view s key = None then Inl KeyNotFound else Inr ()), s')"
    "invar n s'" "view s' = (view s)(key := None)"
    using remove_law [OF assms(1), of key] by (auto simp: pair_ok_def)
  with Request_Rm show ?thesis by (simp add: execute_def map_ops_def)
qed

definition in_step ::
  "('r \<times> net_writer \<times> 's) option \<Rightarrow> ('r \<times> net_writer \<times> (bytes \<rightharpoonup> bytes)) option \<Rightarrow> bool" where
  "in_step x y \<longleftrightarrow> (\<exists>res w s. x = Some (res, w, s) \<and> y = Some (res, w, view s))"

lemma serve_frames_sim:
  "invar (length (nr_bytes r)) s \<Longrightarrow> length (nr_bytes r) \<le> pair_limit \<Longrightarrow>
     in_step (serve_frames ops r w s) (serve_frames map_ops r w (view s))"
proof (induction "length (nr_bytes r)" arbitrary: r w s rule: less_induct)
  case less
  obtain res r' where rd: "read_frame r = (res, r')" by fastforce
  consider e where "res = Inl e" | "res = Inr None" | t p where "res = Inr (Some (t, p))"
    by (cases res; cases "projr res") auto
  then show ?case
  proof cases
    case (3 t p)
    note len = read_frame_Some(2) [OF rd [unfolded 3]]
    let ?dec = "\<lambda>ops s. case decode_request t p of Inr req \<Rightarrow> execute ops s req
        | Inl _ \<Rightarrow> Some (Response_Error EC_InvalidRequest, s)"
    have "\<exists>resp s1. ?dec ops s = Some (resp, s1) \<and> ?dec map_ops (view s) = Some (resp, view s1) \<and>
        invar (length (nr_bytes r')) s1"
    proof (cases "decode_request t p")
      case (Inl e)
      then show ?thesis using invar_antimono [OF less.prems(1), of "length (nr_bytes r')"] len by auto
    next
      case (Inr req)
      have "invar (Suc (length (nr_bytes r'))) s" using invar_antimono [OF less.prems(1)] len by simp
      moreover have "request_ok req" "request_size req \<le> pair_limit"
        using decode_request_size [OF Inr] len less.prems(2) by auto
      ultimately show ?thesis using execute_sim Inr by simp
    qed
    then obtain resp s1 where d: "?dec ops s = Some (resp, s1)" "?dec map_ops (view s) = Some (resp, view s1)"
      "invar (length (nr_bytes r')) s1"
      by blast
    obtain wr w1 where wr: "write_response w resp = (wr, w1)" by fastforce
    have "in_step (serve_frames ops r' w1 s1) (serve_frames map_ops r' w1 (view s1))"
      using len d(3) less.prems(2) by (intro less.hyps) auto
    then show ?thesis
      using rd 3 d(1,2) wr
      by (cases wr) (simp_all add: serve_frames.simps [of _ r] in_step_def)
  qed (use rd in \<open>simp_all add: serve_frames.simps [of _ r] in_step_def\<close>)
qed

lemma serve_resp_frame_sim:
  assumes "invar (Suc n) s" and "length frame \<le> pair_limit"
  shows "\<exists>res w' s'. serve_resp_frame ops frame w s = Some (res, w', s') \<and>
           serve_resp_frame map_ops frame w (view s) = Some (res, w', view s') \<and> invar n s'"
proof (cases "decode_request_resp frame")
  case (Inl e)
  with invar_less [OF assms(1)] show ?thesis by (simp add: serve_resp_frame_def split: prod.split)
next
  case (Inr rr)
  show ?thesis
  proof (cases rr)
    case (RespRequest_Kv req)
    with Inr decode_request_resp_Kv [of frame req] assms(2)
    have "request_ok req" "request_size req \<le> pair_limit" by auto
    from execute_sim [OF assms(1) this] obtain resp s1 where
      ex: "execute ops s req = Some (resp, s1)" "execute map_ops (view s) req = Some (resp, view s1)" "invar n s1"
      by blast
    obtain fr w1 where "write_response_resp w (resp_command_from req) resp = (fr, w1)" by fastforce
    with ex Inr RespRequest_Kv show ?thesis by (simp add: serve_resp_frame_def)
  next
    case (RespRequest_ConfigGet names)
    with Inr invar_less [OF assms(1)] show ?thesis by (simp add: serve_resp_frame_def split: prod.split)
  qed
qed

lemma handle_resp_sim:
  "invar (length (nr_bytes r)) s \<Longrightarrow> length (nr_bytes r) \<le> pair_limit \<Longrightarrow>
     in_step (handle_resp ops r w s) (handle_resp map_ops r w (view s))"
proof (induction "length (nr_bytes r)" arbitrary: r w s rule: less_induct)
  case less
  obtain res r' where rd: "read_frame_resp r = (res, r')" by fastforce
  consider e where "res = Inl e" | "res = Inr None" | f where "res = Inr (Some f)"
    by (cases res; cases "projr res") auto
  then show ?case
  proof cases
    case (3 f)
    note len = read_frame_resp_bytes [OF rd [unfolded 3]] read_frame_resp_consumes [OF rd [unfolded 3]]
    have "invar (Suc (length (nr_bytes r'))) s" using invar_antimono [OF less.prems(1)] len(2) Suc_leI by blast
    moreover have "length f \<le> pair_limit" using len less.prems(2) by simp
    ultimately obtain fr w1 s1 where f: "serve_resp_frame ops f w s = Some (fr, w1, s1)"
      "serve_resp_frame map_ops f w (view s) = Some (fr, w1, view s1)" "invar (length (nr_bytes r')) s1"
      using serve_resp_frame_sim by blast
    obtain fl w2 where fl: "(if nr_buffer r' = [] then nw_flush w1 else (Inr (), w1)) = (fl, w2)" by fastforce
    have "in_step (handle_resp ops r' w2 s1) (handle_resp map_ops r' w2 (view s1))"
      using len f(3) less.prems(2) by (intro less.hyps) auto
    then show ?thesis
      using rd 3 f(1,2) fl
      by (cases fr; cases fl) (simp_all add: handle_resp.simps [of _ r] in_step_def)
  qed (use rd in \<open>simp_all add: handle_resp.simps [of _ r] in_step_def split: prod.split\<close>)
qed

lemma fill_buf_bytes: "fill_buf r = (res, r') \<Longrightarrow> nr_bytes r' = nr_bytes r"
proof -
  have drop: "concat (dropWhile (\<lambda>c. c = []) cs) = concat cs" for cs :: "bytes list"
    by (induction cs) simp_all
  show "fill_buf r = (res, r') \<Longrightarrow> nr_bytes r' = nr_bytes r"
    using drop [of "nr_chunks r"]
    by (auto simp: fill_buf_def nr_bytes_def split: if_splits list.splits option.splits)
qed

lemma handle_sim:
  assumes "invar (length (concat (ts_chunks stream))) s" and "length (concat (ts_chunks stream)) \<le> pair_limit"
  shows "\<exists>res out s'. handle ops stream s = Some (res, out, s') \<and> handle map_ops stream (view s) = Some (res, out, view s')"
proof (cases "ts_clone stream")
  case (Some e)
  then show ?thesis by (simp add: handle_def)
next
  case None
  define r0 where "r0 = \<lparr>nr_buffer = [], nr_chunks = ts_chunks stream, nr_fail = ts_fail stream\<rparr>"
  define w where "w = \<lparr>nw_out = [], nw_buf = [], nw_capacity = DEFAULT_BUF_SIZE, nw_fail = ts_out_fail stream\<rparr>"
  obtain res r where fb: "fill_buf r0 = (res, r)" by fastforce
  have bytes: "nr_bytes r = concat (ts_chunks stream)"
    using fill_buf_bytes [OF fb] by (simp add: r0_def nr_bytes_def)
  have h: "handle ops' stream s' = map_option (\<lambda>(r, w, s). (r, nw_out (nw_drop w), s))
      (case res of
         Inl e \<Rightarrow> Some (Inl e, w, s')
       | Inr [] \<Rightarrow> Some (Inr (), w, s')
       | Inr (first # _) \<Rightarrow> if is_resp first then handle_resp ops' r w s' else serve_frames ops' r w s')"
    for ops' :: "'x kv_store_ops" and s'
    using None fb unfolding handle_def r0_def w_def Let_def
    by (simp split: sum.split list.split)
  have "in_step (handle_resp ops r w s) (handle_resp map_ops r w (view s))"
    "in_step (serve_frames ops r w s) (serve_frames map_ops r w (view s))"
    using assms by (simp_all only: bytes [symmetric] handle_resp_sim serve_frames_sim)
  then show ?thesis
    unfolding h by (auto simp: in_step_def split: sum.split list.split)
qed

end

end
