(* ===== verification/Utf8_Split.thy ===== *)
theory Utf8_Split
  imports Text
begin

text \<open>
  Cutting a string at a character boundary: the parts of a valid UTF-8 string are valid where the
  second part does not start with a continuation byte. White space is made of whole characters, so
  the words of a string are strings.
\<close>

lemma cont_run_Inr:
  "utf8_cont_run i n bs = Inr () \<longleftrightarrow> n \<le> length bs \<and> (\<forall>j < n. utf8_cont (bs ! j))"
proof (induction n arbitrary: i bs)
  case (Suc n)
  then show ?case
    by (cases bs) (auto simp: less_Suc_eq_0_disj)
qed simp

lemma second_ok_cont: "utf8_second_ok b0 b1 \<Longrightarrow> utf8_cont b1"
  by (auto simp: utf8_second_ok_def utf8_cont_def in_range_def word_le_nat_alt split: if_splits)

lemma utf8_char_Inr_iff:
  "utf8_char (b0 # bs) = Inr n \<longleftrightarrow>
     n = utf8_char_width b0 \<and> n \<noteq> 0 \<and> n \<le> Suc (length bs) \<and>
     (1 < n \<longrightarrow> utf8_second_ok b0 (bs ! 0) \<and> (\<forall>j < n - 2. utf8_cont (bs ! Suc j)))"
  by (cases bs) (auto simp: Let_def res_iffs cont_run_Inr)

lemma utf8_char_cont:
  assumes "utf8_char bs = Inr n" and "0 < i" and "i < n"
  shows "n \<le> length bs \<and> utf8_cont (bs ! i)"
proof (cases bs)
  case (Cons b0 rest)
  with assms have n: "n \<le> Suc (length rest)" "1 < n \<longrightarrow> utf8_second_ok b0 (rest ! 0)"
    "\<forall>j < n - 2. 1 < n \<longrightarrow> utf8_cont (rest ! Suc j)"
    by (auto simp: utf8_char_Inr_iff simp del: utf8_char.simps)
  have "utf8_cont (rest ! (i - 1))"
  proof (cases "i = 1")
    case True
    with n assms show ?thesis using second_ok_cont by auto
  next
    case False
    with n(3) [rule_format, of "i - 2"] assms show ?thesis by (simp add: Suc_diff_Suc numeral_2_eq_2)
  qed
  with Cons n assms(2) show ?thesis by (cases i) simp_all
qed (use assms in simp)

lemma utf8_char_append:
  assumes "utf8_char (xs @ ys) = Inr n" and "n \<le> length xs" and "xs \<noteq> []"
  shows "utf8_char xs = Inr n"
proof (cases xs)
  case (Cons x xs')
  with assms show ?thesis
    by (cases xs') (auto simp: utf8_char_Inr_iff nth_append simp del: utf8_char.simps split: if_splits)
qed (use assms in simp)

lemma utf8_validate_shift: "utf8_validate i bs = None \<longleftrightarrow> utf8_validate j bs = None"
proof (induction bs arbitrary: i j rule: length_induct)
  case (1 bs)
  show ?case
  proof (cases "bs = []")
    case True
    then show ?thesis by (simp add: utf8_validate.simps)
  next
    case False
    show ?thesis
    proof (cases "utf8_char bs")
      case (Inr n)
      then have "length (drop n bs) < length bs" using False utf8_char_pos by auto
      with 1 have "utf8_validate (i + n) (drop n bs) = None \<longleftrightarrow> utf8_validate (j + n) (drop n bs) = None" by blast
      with Inr False show ?thesis by (simp add: utf8_validate.simps [of _ bs])
    qed (use False in \<open>simp add: utf8_validate.simps [of _ bs]\<close>)
  qed
qed

lemma utf8_valid_rec:
  "bs \<noteq> [] \<Longrightarrow> utf8_valid bs \<longleftrightarrow> (\<exists>n. utf8_char bs = Inr n \<and> utf8_valid (drop n bs))"
  using utf8_validate_shift [of "projr (utf8_char bs)" "drop (projr (utf8_char bs)) bs" 0]
  by (cases "utf8_char bs") (simp_all add: utf8_valid_def utf8_validate.simps [of 0 bs])

lemma utf8_valid_split:
  assumes "utf8_valid (xs @ ys)" and "ys = [] \<or> \<not> utf8_cont (hd ys)"
  shows "utf8_valid xs \<and> utf8_valid ys"
  using assms(1)
proof (induction xs rule: length_induct)
  case (1 xs)
  show ?case
  proof (cases "xs = []")
    case False
    with 1 obtain n where n: "utf8_char (xs @ ys) = Inr n" "utf8_valid (drop n (xs @ ys))"
      by (auto simp: utf8_valid_rec)
    have le: "n \<le> length xs"
    proof (rule ccontr)
      assume "\<not> n \<le> length xs"
      with utf8_char_cont [OF n(1), of "length xs"] False have "n \<le> length (xs @ ys)" "utf8_cont ((xs @ ys) ! length xs)"
        by auto
      with \<open>\<not> n \<le> length xs\<close> assms(2) show False by (cases ys) auto
    qed
    have "length (drop n xs) < length xs" using utf8_char_pos [OF n(1)] False by simp
    moreover have "utf8_valid (drop n xs @ ys)" using n(2) le by simp
    ultimately have "utf8_valid (drop n xs) \<and> utf8_valid ys" using 1 by blast
    then show ?thesis using utf8_char_append [OF n(1) le False] False by (auto simp: utf8_valid_rec)
  qed (use 1 in simp)
qed

section \<open>White space\<close>

declare white_space.simps [simp del]

lemma white_space_cases:
  assumes "white_space bs = Some n"
  obtains (ascii) a rest where "bs = a # rest" "n = 1" "a < 0x80"
    | (two) b rest where "bs = 0xC2 # b # rest" "n = 2" "utf8_cont b"
    | (three) a b c rest where "bs = a # b # c # rest" "n = 3" "a \<in> {0xE1, 0xE2, 0xE3}" "utf8_cont b" "utf8_cont c"
proof (cases bs)
  case (Cons a rest)
  show ?thesis
  proof (cases "ascii_space a")
    case True
    then have "a < 0x80" by (auto simp: ascii_space_def word_le_nat_alt word_less_nat_alt)
    with True Cons assms ascii show ?thesis by (simp add: white_space.simps)
  next
    case False
    with Cons assms obtain b rest' where rest: "rest = b # rest'"
      by (cases rest) (simp_all add: white_space.simps)
    show ?thesis
    proof (cases "a = 0xC2 \<and> (b = 0x85 \<or> b = 0xA0)")
      case True
      then have "utf8_cont b" by (auto simp: utf8_cont_def in_range_def)
      moreover have "n = 2" using True False Cons rest assms by (simp add: white_space.simps)
      ultimately show ?thesis using True Cons rest two by blast
    next
      case not_two: False
      with False Cons rest assms obtain c rest'' where r: "rest' = c # rest''"
        by (cases rest') (simp_all add: white_space.simps)
      with False not_two Cons rest assms have
        "(a = 0xE1 \<and> b = 0x9A \<and> c = 0x80) \<or>
         (a = 0xE2 \<and> b = 0x80 \<and> ((0x80 \<le> c \<and> c \<le> 0x8A) \<or> c = 0xA8 \<or> c = 0xA9 \<or> c = 0xAF)) \<or>
         (a = 0xE2 \<and> b = 0x81 \<and> c = 0x9F) \<or> (a = 0xE3 \<and> b = 0x80 \<and> c = 0x80)" "n = 3"
        by (simp_all add: white_space.simps split: if_splits)
      moreover from this(1) have "a \<in> {0xE1, 0xE2, 0xE3}" "utf8_cont b" "utf8_cont c"
        by (auto simp: utf8_cont_def in_range_def word_le_nat_alt)
      ultimately show ?thesis using three Cons rest r by blast
    qed
  qed
qed (use assms in \<open>simp add: white_space.simps\<close>)

lemma white_space_char:
  assumes "white_space bs = Some n"
  shows "\<not> utf8_cont (hd bs)" and "utf8_valid bs \<Longrightarrow> utf8_char bs = Inr n"
proof -
  from assms show "\<not> utf8_cont (hd bs)"
  proof (cases rule: white_space_cases)
    case (ascii a rest)
    then show ?thesis by (auto simp: utf8_cont_def in_range_def word_le_nat_alt word_less_nat_alt)
  qed (auto simp: utf8_cont_def in_range_def)
  assume v: "utf8_valid bs"
  have "bs \<noteq> []" using white_space_pos [OF assms] by simp
  with v obtain k where k: "utf8_char bs = Inr k" by (auto simp: utf8_valid_rec)
  from assms have "utf8_char_width (hd bs) = n"
  proof (cases rule: white_space_cases)
    case (ascii a rest)
    then show ?thesis by (simp add: utf8_char_width_def)
  qed (auto simp: utf8_char_width_def in_range_def)
  with k \<open>bs \<noteq> []\<close> show "utf8_char bs = Inr n"
    by (cases bs) (auto simp: utf8_char_Inr_iff simp del: utf8_char.simps)
qed

lemma white_space_drop:
  assumes "utf8_valid bs" and "white_space bs = Some n"
  shows "utf8_valid (drop n bs)"
  using assms white_space_char(2) [OF assms(2,1)] white_space_pos [OF assms(2)] by (auto simp: utf8_valid_rec)

lemma trim_start_valid: "utf8_valid bs \<Longrightarrow> utf8_valid (trim_start bs)"
proof (induction bs rule: trim_start.induct)
  case (1 bs)
  then show ?case
    by (cases "white_space bs") (auto simp: trim_start.simps [of bs] white_space_drop)
qed

lemma take_word_split: "take_word bs = (w, rest) \<Longrightarrow> bs = w @ rest \<and> (rest = [] \<or> white_space rest \<noteq> None)"
proof (induction bs arbitrary: w rest)
  case Nil
  then show ?case by (simp add: take_word.simps)
next
  case (Cons b bs)
  obtain w' rest' where t: "take_word bs = (w', rest')" by fastforce
  note ih = Cons.IH [OF t]
  show ?case
  proof (cases "white_space (b # bs)")
    case None
    with Cons.prems t have "w = b # w'" "rest = rest'"
      by (simp_all add: take_word.simps [of "b # bs"] del: white_space.simps)
    with ih show ?thesis by simp
  next
    case (Some n)
    with Cons.prems have "w = []" "rest = b # bs"
      by (simp_all add: take_word.simps [of "b # bs"] del: white_space.simps)
    with Some show ?thesis by simp
  qed
qed

lemma take_word_valid:
  assumes "utf8_valid bs" and "take_word bs = (w, rest)"
  shows "utf8_valid w \<and> utf8_valid rest"
proof -
  from take_word_split [OF assms(2)] have s: "bs = w @ rest" "rest = [] \<or> white_space rest \<noteq> None" by auto
  then have "rest = [] \<or> \<not> utf8_cont (hd rest)" using white_space_char(1) by blast
  with assms(1) s(1) utf8_valid_split show ?thesis by blast
qed

lemma split_whitespace_valid:
  "utf8_valid bs \<Longrightarrow> \<forall>w \<in> set (split_whitespace bs). utf8_valid w \<and> w \<noteq> []"
proof (induction bs rule: split_whitespace.induct)
  case (1 bs)
  show ?case
  proof (cases "trim_start bs = []")
    case True
    then show ?thesis by (simp add: split_whitespace.simps [of bs])
  next
    case False
    obtain w rest where t: "take_word (trim_start bs) = (w, rest)" by fastforce
    from take_word_valid [OF trim_start_valid [OF 1(2)] t] have v: "utf8_valid w" "utf8_valid rest" by auto
    have "w \<noteq> []"
      using t False trim_start_front [of bs]
      by (cases "trim_start bs") (auto simp: take_word.simps [of "_ # _"] split: prod.splits)
    with v 1(1) [OF refl False t [symmetric] refl] False t show ?thesis
      by (simp add: split_whitespace.simps [of bs])
  qed
qed

lemma split_whitespace_length: "sum_list (map length (split_whitespace bs)) \<le> length bs"
proof (induction bs rule: split_whitespace.induct)
  case (1 bs)
  show ?case
  proof (cases "trim_start bs = []")
    case True
    then show ?thesis by (simp add: split_whitespace.simps [of bs])
  next
    case False
    obtain w rest where t: "take_word (trim_start bs) = (w, rest)" by fastforce
    from 1 [OF refl False t [symmetric] refl] take_word_length [OF t] trim_start_length [of bs] False t
    show ?thesis by (simp add: split_whitespace.simps [of bs])
  qed
qed

lemma trim_end_valid: "utf8_valid bs \<Longrightarrow> utf8_valid (trim_end bs) \<and> length (trim_end bs) \<le> length bs"
proof (induction bs rule: trim_end.induct)
  case (1 bs)
  show ?case
  proof (cases "white_space_end bs")
    case None
    with 1 show ?thesis by (simp add: trim_end.simps [of bs])
  next
    case (Some k)
    let ?n = "length bs - k"
    from Some have "white_space (drop ?n bs) = Some k" "k \<le> length bs"
      by (auto simp: white_space_end_def split: if_splits)
    then have "utf8_valid (take ?n bs)"
      using utf8_valid_split [of "take ?n bs" "drop ?n bs"] white_space_char(1) 1(2) by simp
    with 1(1) [OF Some] Some show ?thesis by (auto simp: trim_end.simps [of bs])
  qed
qed

lemma trim_valid: "utf8_valid bs \<Longrightarrow> utf8_valid (trim bs) \<and> length (trim bs) \<le> length bs"
  using trim_end_valid [OF trim_start_valid] trim_start_length [of bs] by (force simp: trim_def)

end
