(* ===== verification/Words.thy ===== *)
theory Words
  imports Utf8_Split
begin

text \<open>
  The words of a line: \<open>split_whitespace\<close> and \<open>trim\<close> of the standard library on strings that are
  spelled out as words with white space, any Unicode white space, around them. Every string can be
  spelled out so.
\<close>

section \<open>Lines spelled out\<close>

definition white_char :: "bytes \<Rightarrow> bool" where
  "white_char c \<longleftrightarrow> white_space c = Some (length c)"

text \<open>A word: a string in which no white space starts.\<close>

definition is_word :: "bytes \<Rightarrow> bool" where
  "is_word w \<longleftrightarrow> w \<noteq> [] \<and> utf8_valid w \<and> list_all (\<lambda>i. white_space (drop i w) = None) [0..<length w]"

text \<open>White space in front, then the words, each with the white space that follows it.\<close>

type_synonym spaced_words = "(bytes \<times> bytes list) list"

definition line_of :: "bytes list \<Rightarrow> spaced_words \<Rightarrow> bytes" where
  "line_of lead ws = concat lead @ concat (map (\<lambda>(w, sp). w @ concat sp) ws)"

text \<open>Two words are apart; there may be white space behind the last one.\<close>

fun spaced :: "spaced_words \<Rightarrow> bool" where
  "spaced [] = True"
| "spaced ((w, sp) # ws) \<longleftrightarrow> is_word w \<and> list_all white_char sp \<and> (ws \<noteq> [] \<longrightarrow> sp \<noteq> []) \<and> spaced ws"

section \<open>White space\<close>

lemma white_char_ne: "white_char c \<Longrightarrow> c \<noteq> []"
  by (auto simp: white_char_def white_space.simps)

lemma white_space_three: "white_space (x # y # z # r) = white_space [x, y, z]"
  by (simp only: white_space.simps list.case)

lemma white_space_more:
  assumes "white_space c = Some n"
  shows "white_space (c @ rest) = Some n"
proof -
  consider "c = []" | x where "c = [x]" | x y where "c = [x, y]" | x y z c' where "c = x # y # z # c'"
    by (metis neq_Nil_conv)
  then show ?thesis
  proof cases
    case (2 x)
    with assms show ?thesis by (simp add: white_space.simps split: if_splits)
  next
    case (3 x y)
    with assms show ?thesis by (auto simp: white_space.simps split: if_splits)
  next
    case (4 x y z c')
    with assms white_space_three [of x y z "c' @ rest"] white_space_three [of x y z c'] show ?thesis by simp
  qed (use assms in \<open>simp add: white_space.simps\<close>)
qed

lemma white_space_char_front:
  assumes "white_space bs = Some n"
  shows "n \<le> length bs \<and> white_char (take n bs)"
proof -
  consider "bs = []" | x where "bs = [x]" | x y where "bs = [x, y]" | x y z r where "bs = x # y # z # r"
    by (metis neq_Nil_conv)
  then show ?thesis
  proof cases
    case (2 x)
    with assms show ?thesis by (simp add: white_char_def white_space.simps split: if_splits)
  next
    case (3 x y)
    with assms show ?thesis by (auto simp: white_char_def white_space.simps split: if_splits)
  next
    case (4 x y z c')
    with assms show ?thesis by (auto simp: white_char_def white_space.simps split: if_splits)
  qed (use assms in \<open>simp add: white_space.simps\<close>)
qed

lemma white_space_before:
  assumes "white_space x = None" and "x \<noteq> []" and "rest = [] \<or> \<not> utf8_cont (hd rest)"
  shows "white_space (x @ rest) = None"
proof (rule ccontr)
  assume "white_space (x @ rest) \<noteq> None"
  then obtain n where n: "white_space (x @ rest) = Some n" by blast
  note front = white_space_char_front [OF n]
  have less: "length x < n"
  proof (rule ccontr)
    assume "\<not> length x < n"
    then have "take n (x @ rest) = take n x" by simp
    with front have "white_space (take n x) = Some (length (take n x))" by (simp only: white_char_def)
    from white_space_more [OF this, of "drop n x"] assms(1) show False by simp
  qed
  obtain a x' where x: "x = a # x'" using assms(2) by (cases x) auto
  from less front obtain c rest' where rest: "rest = c # rest'" by (cases rest) auto
  from n have "utf8_cont c"
  proof (cases rule: white_space_cases)
    case (two b r)
    with less x have "x' = []" by simp
    with two x rest show ?thesis by simp
  next
    case (three a b d r)
    with less x have "x' = [] \<or> (\<exists>y. x' = [y])" by (cases x') auto
    with three x rest show ?thesis by auto
  qed (use less x in simp)
  with rest assms(3) show False by simp
qed

lemma trim_start_white: "list_all white_char sp \<Longrightarrow> trim_start (concat sp @ bs) = trim_start bs"
proof (induction sp)
  case (Cons c sp)
  then have "white_space (c @ concat sp @ bs) = Some (length c)"
    by (auto simp: white_char_def intro: white_space_more)
  with Cons show ?case by (simp add: trim_start.simps [of "c @ concat sp @ bs"])
qed simp

lemma valid_front: "utf8_valid w \<Longrightarrow> w \<noteq> [] \<Longrightarrow> \<not> utf8_cont (hd w)"
proof
  assume "utf8_valid w" "w \<noteq> []" "utf8_cont (hd w)"
  then obtain n where "utf8_char w = Inr n" by (auto simp: utf8_valid_rec)
  then have "utf8_char_width (hd w) \<noteq> 0"
    using \<open>w \<noteq> []\<close> by (cases w) (auto simp: utf8_char_Inr_iff simp del: utf8_char.simps)
  with \<open>utf8_cont (hd w)\<close> show False
    by (auto simp: utf8_char_width_def utf8_cont_def in_range_def word_le_nat_alt word_less_nat_alt split: if_splits)
qed

section \<open>Splitting\<close>

lemma spaced_front:
  assumes "spaced ws" and "ws \<noteq> []"
  shows "\<not> utf8_cont (hd (line_of [] ws))"
proof -
  obtain w sp ws' where ws: "ws = (w, sp) # ws'" using assms(2) by (metis neq_Nil_conv surj_pair)
  with assms(1) have "utf8_valid w" "w \<noteq> []" by (simp_all add: is_word_def)
  with valid_front ws show ?thesis by (auto simp: line_of_def)
qed

lemma white_front: "list_all white_char sp \<Longrightarrow> sp \<noteq> [] \<Longrightarrow> white_space (concat sp @ rest) \<noteq> None"
  by (cases sp) (auto simp: white_char_def dest: white_space_more)

lemma take_word_word:
  assumes "list_all (\<lambda>i. white_space (drop i w) = None) [0..<length w]"
    and "rest = [] \<or> white_space rest \<noteq> None"
  shows "take_word (w @ rest) = (w, rest)"
  using assms(1)
proof (induction w)
  case Nil
  show ?case using assms(2) by (cases rest) (auto simp: take_word.simps [of "_ # _"] take_word.simps [of "[]"])
next
  case (Cons b w)
  have all: "white_space (drop i (b # w)) = None" if "i < Suc (length w)" for i
    using Cons.prems that by (auto simp: list_all_iff less_Suc_eq)
  have "list_all (\<lambda>i. white_space (drop i w) = None) [0..<length w]"
    using all [of "Suc _"] by (auto simp: list_all_iff)
  then have ih: "take_word (w @ rest) = (w, rest)" by (rule Cons.IH)
  have "white_space (b # w) = None" using all [of 0] by simp
  moreover have "rest = [] \<or> \<not> utf8_cont (hd rest)" using assms(2) white_space_char(1) by blast
  ultimately have "white_space ((b # w) @ rest) = None" by (intro white_space_before) simp_all
  with ih show ?case by (simp add: take_word.simps [of "b # w @ rest"])
qed

lemma word_front:
  assumes "is_word w" and "rest = [] \<or> white_space rest \<noteq> None"
  shows "trim_start (w @ rest) = w @ rest" and "take_word (w @ rest) = (w, rest)"
proof -
  have w: "w \<noteq> []" "list_all (\<lambda>i. white_space (drop i w) = None) [0..<length w]"
    using assms(1) by (simp_all add: is_word_def)
  then have "white_space (drop 0 w) = None" by (force simp: list_all_iff)
  moreover have "rest = [] \<or> \<not> utf8_cont (hd rest)" using assms(2) white_space_char(1) by blast
  ultimately have "white_space (w @ rest) = None" using w(1) by (intro white_space_before) simp_all
  then show "trim_start (w @ rest) = w @ rest" by (simp add: trim_start.simps [of "w @ rest"])
  show "take_word (w @ rest) = (w, rest)" by (rule take_word_word [OF w(2) assms(2)])
qed

lemma line_of_simps [simp]:
  "line_of lead [] = concat lead"
  "line_of [] ((w, sp) # ws) = w @ line_of sp ws"
  by (simp_all add: line_of_def)

lemma line_of_lead: "line_of lead ws = concat lead @ line_of [] ws"
  by (simp add: line_of_def)

text \<open>What follows a word is the end of the line or white space.\<close>

lemma after_word: "spaced ((w, sp) # ws) \<Longrightarrow> line_of sp ws = [] \<or> white_space (line_of sp ws) \<noteq> None"
  using white_front [of sp "line_of [] ws"] by (cases "sp = []") (auto simp: line_of_lead [of sp ws])

lemma trim_start_line_of:
  assumes "spaced ws" and "list_all white_char lead"
  shows "trim_start (line_of lead ws) = line_of [] ws"
proof (cases ws)
  case Nil
  with trim_start_white [OF assms(2), of "[]"] show ?thesis by (simp add: trim_start.simps [of "[]"] white_space.simps)
next
  case (Cons p ws')
  obtain w sp where p: "p = (w, sp)" by fastforce
  with assms(1) Cons have "is_word w" "spaced ((w, sp) # ws')" by simp_all
  from word_front(1) [OF this(1) after_word [OF this(2)]] trim_start_white [OF assms(2), of "line_of [] ws"] Cons p
  show ?thesis by (simp add: line_of_lead [of lead])
qed

lemma split_line_of: "spaced ws \<Longrightarrow> list_all white_char lead \<Longrightarrow> split_whitespace (line_of lead ws) = map fst ws"
proof (induction ws arbitrary: lead)
  case Nil
  with trim_start_line_of [of "[]" lead] show ?case by (simp add: split_whitespace.simps [of "concat lead"])
next
  case (Cons p ws)
  obtain w sp where p: "p = (w, sp)" by fastforce
  have sp: "spaced ((w, sp) # ws)" using Cons.prems p by simp
  then have w: "is_word w" "w \<noteq> []" by (auto simp: is_word_def)
  have t: "trim_start (line_of lead (p # ws)) = w @ line_of sp ws"
    using trim_start_line_of [OF Cons.prems] p by simp
  have "split_whitespace (line_of sp ws) = map fst ws" using Cons.IH [of sp] sp by simp
  with t w(2) word_front(2) [OF w(1) after_word [OF sp]] p show ?case
    by (subst split_whitespace.simps) simp
qed

section \<open>Trimming\<close>

lemma white_space_end_Some:
  assumes "white_char c"
  shows "white_space_end (x @ c) = Some (length c)"
proof -
  have c: "white_space c = Some (length c)" using assms by (simp add: white_char_def)
  from c show ?thesis
  proof (cases rule: white_space_cases)
    case (ascii a rest)
    with c show ?thesis by (simp add: white_space_end_def)
  next
    case (two b rest)
    then have "white_space [b] = None" using white_space_char(1) [of "[b]"] by fastforce
    with two c show ?thesis by (simp add: white_space_end_def Suc_diff_le)
  next
    case (three a b d rest)
    then have "white_space [d] = None" "white_space [b, d] = None"
      using white_space_char(1) [of "[d]"] white_space_char(1) [of "[b, d]"] by fastforce+
    with three c show ?thesis by (simp add: white_space_end_def numeral_2_eq_2 numeral_3_eq_3)
  qed
qed

lemma trim_end_white: "list_all white_char sp \<Longrightarrow> trim_end (x @ concat sp) = trim_end x"
proof (induction sp rule: rev_induct)
  case (snoc c sp)
  then have "white_space_end ((x @ concat sp) @ c) = Some (length c)" by (intro white_space_end_Some) simp
  with snoc show ?case by (simp add: trim_end.simps [of "x @ concat sp @ c"])
qed simp

lemma white_space_inner:
  assumes "white_space (t @ w) = Some (length t + length w)" and "t \<noteq> []" and "w \<noteq> []"
  shows "utf8_cont (hd w)"
proof -
  obtain a t' c w' where tw: "t = a # t'" "w = c # w'" using assms(2,3) by (meson neq_Nil_conv)
  from assms(1) show ?thesis
  proof (cases rule: white_space_cases)
    case (two b r)
    with tw show ?thesis by (cases t') auto
  next
    case (three a b d r)
    then consider "t' = []" | y where "t' = [y]" using tw by (cases t' rule: remdups_adj.cases) auto
    then show ?thesis using three tw by cases auto
  qed (use tw in simp)
qed

lemma trim_end_word:
  assumes "is_word w"
  shows "trim_end (x @ w) = x @ w"
proof -
  have w: "w \<noteq> []" "utf8_valid w" "\<And>i. i < length w \<Longrightarrow> white_space (drop i w) = None"
    using assms by (auto simp: is_word_def list_all_iff)
  have "white_space (drop (length (x @ w) - k) (x @ w)) \<noteq> Some k" if "0 < k" "k \<le> length (x @ w)" for k
  proof
    assume k: "white_space (drop (length (x @ w) - k) (x @ w)) = Some k"
    show False
    proof (cases "k \<le> length w")
      case True
      then have "drop (length (x @ w) - k) (x @ w) = drop (length w - k) w" by simp
      with k w(3) [of "length w - k"] w(1) that(1) show False by simp
    next
      case False
      let ?t = "drop (length (x @ w) - k) x"
      have d: "drop (length (x @ w) - k) (x @ w) = ?t @ w" using False by simp
      have t: "?t \<noteq> []" "length ?t + length w = k" using False that by auto
      have "utf8_cont (hd w)" by (rule white_space_inner [OF _ t(1) w(1)]) (use k d t(2) in simp)
      with valid_front [OF w(2,1)] show False by simp
    qed
  qed
  then have "white_space_end (x @ w) = None"
    by (auto simp: white_space_end_def split: list.split dest!: filter_eq_ConsD)
  then show ?thesis by (simp add: trim_end.simps [of "x @ w"])
qed

text \<open>Trimming removes the white space in front and behind.\<close>

fun cut_end :: "spaced_words \<Rightarrow> spaced_words" where
  "cut_end [] = []"
| "cut_end [(w, sp)] = [(w, [])]"
| "cut_end (p # ws) = p # cut_end ws"

lemma cut_end_spaced: "spaced ws \<Longrightarrow> spaced (cut_end ws) \<and> map fst (cut_end ws) = map fst ws"
proof (induction ws rule: cut_end.induct)
  case (3 p q ws)
  then show ?case by (cases p) (auto simp: neq_Nil_conv)
qed simp_all

lemma trim_end_line_of: "spaced ws \<Longrightarrow> ws \<noteq> [] \<Longrightarrow> trim_end (x @ line_of [] ws) = x @ line_of [] (cut_end ws)"
proof (induction ws arbitrary: x rule: cut_end.induct)
  case (2 w sp)
  then show ?case using trim_end_white [of sp "x @ w"] trim_end_word [of w x] by simp
next
  case (3 p q ws)
  obtain w sp where p: "p = (w, sp)" by fastforce
  with 3 have "trim_end ((x @ w @ concat sp) @ line_of [] (q # ws)) = (x @ w @ concat sp) @ line_of [] (cut_end (q # ws))"
    by (intro "3.IH") simp_all
  with p show ?case by (simp add: line_of_lead [of sp])
qed simp

lemma trim_line_of:
  assumes "spaced ws" and "list_all white_char lead"
  shows "trim (line_of lead ws) = line_of [] (cut_end ws)"
proof (cases "ws = []")
  case True
  with trim_start_line_of [OF assms] show ?thesis
    by (simp add: trim_def trim_end.simps [of "[]"] white_space_end_def)
next
  case False
  with trim_end_line_of [OF assms(1), of "[]"] trim_start_line_of [OF assms] show ?thesis by (simp add: trim_def)
qed

section \<open>Every string is a line\<close>

lemma trim_start_lead: "\<exists>lead. list_all white_char lead \<and> bs = concat lead @ trim_start bs"
proof (induction bs rule: trim_start.induct)
  case (1 bs)
  show ?case
  proof (cases "white_space bs")
    case None
    then show ?thesis by (intro exI [of _ "[]"]) (simp add: trim_start.simps [of bs])
  next
    case (Some n)
    with 1 obtain lead where "list_all white_char lead" "drop n bs = concat lead @ trim_start (drop n bs)" by blast
    moreover have "trim_start bs = trim_start (drop n bs)" using Some by (simp add: trim_start.simps [of bs])
    moreover have "bs = take n bs @ drop n bs" by simp
    ultimately have "list_all white_char (take n bs # lead) \<and> bs = concat (take n bs # lead) @ trim_start bs"
      using white_space_char_front [OF Some] by (metis append.assoc concat.simps(2) list.pred_inject(2))
    then show ?thesis by blast
  qed
qed

lemma take_word_is_word:
  "take_word bs = (w, rest) \<Longrightarrow> i < length w \<Longrightarrow> white_space (drop i bs) = None"
proof (induction bs arbitrary: w i)
  case Nil
  then show ?case by (simp add: take_word.simps)
next
  case (Cons b bs)
  obtain w' rest' where t: "take_word bs = (w', rest')" by fastforce
  with Cons.prems have "white_space (b # bs) = None \<and> w = b # w' \<and> rest' = rest"
    by (auto simp: take_word.simps [of "b # bs"] split: if_splits)
  with Cons t show ?case by (cases i) auto
qed

lemma white_space_less: "white_space (x @ rest) = None \<Longrightarrow> white_space x = None"
  using white_space_more by (cases "white_space x") fastforce+

lemma line_of_all:
  "utf8_valid bs \<Longrightarrow> \<exists>lead ws. list_all white_char lead \<and> spaced ws \<and> bs = line_of lead ws"
proof (induction bs rule: split_whitespace.induct)
  case (1 bs)
  obtain lead where lead: "list_all white_char lead" "bs = concat lead @ trim_start bs" using trim_start_lead by blast
  show ?case
  proof (cases "trim_start bs = []")
    case True
    with lead show ?thesis by (intro exI [of _ lead] exI [of _ "[]"]) simp
  next
    case False
    obtain w rest where t: "take_word (trim_start bs) = (w, rest)" by fastforce
    note split = take_word_split [OF t]
    have valid: "utf8_valid w" "utf8_valid rest" using take_word_valid [OF trim_start_valid [OF 1(2)] t] by auto
    have "w \<noteq> []"
      using t False trim_start_front [of bs]
      by (cases "trim_start bs") (auto simp: take_word.simps [of "_ # _"] split: prod.splits)
    moreover have "white_space (drop i w) = None" if "i < length w" for i
      using take_word_is_word [OF t that] split that by (auto intro: white_space_less)
    ultimately have w: "is_word w" using valid by (simp add: is_word_def list_all_iff)
    from 1(1) [OF refl False t [symmetric] refl valid(2)] obtain sp ws where
      ws: "list_all white_char sp" "spaced ws" "rest = line_of sp ws" by blast
    have "ws \<noteq> [] \<longrightarrow> sp \<noteq> []"
    proof (intro impI notI)
      assume "ws \<noteq> []" "sp = []"
      then obtain v sp' ws' where v: "ws = (v, sp') # ws'" by (metis neq_Nil_conv surj_pair)
      with ws \<open>sp = []\<close> have "rest = v @ line_of sp' ws'" "is_word v" by simp_all
      with word_front(1) [OF this(2) after_word [of v sp' ws']] ws(2) v have "trim_start rest = rest" by simp
      with trim_start_front [of rest] split \<open>rest = v @ line_of sp' ws'\<close> \<open>is_word v\<close> show False by (auto simp: is_word_def)
    qed
    then have "spaced ((w, sp) # ws)" "bs = line_of lead ((w, sp) # ws)"
      using w ws lead(2) split by (simp_all add: line_of_lead [of lead])
    with lead(1) show ?thesis by blast
  qed
qed

section \<open>Lines and their words\<close>

lemma split_trim: "utf8_valid bs \<Longrightarrow> split_whitespace (trim bs) = split_whitespace bs"
proof -
  assume "utf8_valid bs"
  then obtain lead ws where l: "list_all white_char lead" "spaced ws" "bs = line_of lead ws" using line_of_all by blast
  then show ?thesis using split_line_of [of "cut_end ws" "[]"] cut_end_spaced [OF l(2)]
    by (simp add: trim_line_of split_line_of)
qed

lemma trim_words:
  assumes "utf8_valid bs"
  shows "split_whitespace bs = [] \<Longrightarrow> trim bs = []" and "split_whitespace bs = [w] \<Longrightarrow> trim bs = w"
proof -
  obtain lead ws where l: "list_all white_char lead" "spaced ws" "bs = line_of lead ws" using line_of_all [OF assms] by blast
  then have "trim bs = line_of [] (cut_end ws)" "split_whitespace bs = map fst ws"
    by (simp_all add: trim_line_of split_line_of)
  then show "split_whitespace bs = [] \<Longrightarrow> trim bs = []" "split_whitespace bs = [w] \<Longrightarrow> trim bs = w" by auto
qed

end
