(* ===== verification/Front_Ends.thy ===== *)
theory Front_Ends
  imports Server_Correct Server_Sim Words
begin

text \<open>
  Properties of the programs around the store: the server and the REPL on any store that keeps the
  contract behave as on a map in memory, the client gets through the server what the map has, and
  the REPL understands its command lines.
\<close>

section \<open>The REPL\<close>

text \<open>The bytes of the lines typed, a bound on the number of commands; all lines are strings.\<close>

fun typed :: "readline list \<Rightarrow> nat" where
  "typed [] = 0"
| "typed (Line line # events) = Suc (length line) + typed events"
| "typed (_ # events) = typed events"

fun lines_ok :: "readline list \<Rightarrow> bool" where
  "lines_ok [] = True"
| "lines_ok (Line line # events) = (utf8_valid line \<and> length line \<le> pair_limit \<and> lines_ok events)"
| "lines_ok (_ # events) = lines_ok events"

fun command_args :: "repl_command \<Rightarrow> bytes list" where
  "command_args (ReplCommand_Set key v) = [key, v]"
| "command_args (ReplCommand_Get key) = [key]"
| "command_args (ReplCommand_Rm key) = [key]"

lemma parse_command_args:
  assumes "parse_command line = Some cmd"
  shows "\<exists>name rest. split_whitespace line = name # command_args cmd @ rest"
  using assms by (auto simp: parse_command_def split: list.splits if_splits)

lemma parse_command_ok:
  assumes "parse_command line = Some cmd" and "utf8_valid line" and "length line \<le> pair_limit"
  shows "(\<forall>a \<in> set (command_args cmd). utf8_valid a) \<and> sum_list (map length (command_args cmd)) \<le> pair_limit"
proof -
  obtain name rest where s: "split_whitespace line = name # command_args cmd @ rest"
    using parse_command_args [OF assms(1)] by blast
  have "\<forall>a \<in> set (command_args cmd). utf8_valid a" using split_whitespace_valid [OF assms(2)] s by simp
  moreover have "sum_list (map length (command_args cmd)) \<le> pair_limit"
    using split_whitespace_length [of line] s assms(3) by simp
  ultimately show ?thesis by simp
qed

context kv_contract
begin

definition lines_in_step :: "(out_line list \<times> 's) option \<Rightarrow> (out_line list \<times> (bytes \<rightharpoonup> bytes)) option \<Rightarrow> bool" where
  "lines_in_step x y \<longleftrightarrow> (\<exists>outs s. x = Some (outs, s) \<and> y = Some (outs, view s))"

lemma prepend_in_step: "lines_in_step x y \<Longrightarrow> lines_in_step (prepend out x) (prepend out y)"
  by (auto simp: lines_in_step_def prepend_def)

text \<open>One command line.\<close>

definition run_command ::
  "'x kv_store_ops \<Rightarrow> repl_command \<Rightarrow> 'x \<Rightarrow> (out_line \<times> 'x) option" where
  "run_command ops' cmd s =
     (case cmd of
        ReplCommand_Set key v \<Rightarrow> Some (repl_set ops' key v s)
      | ReplCommand_Get key \<Rightarrow> repl_get ops' key s
      | ReplCommand_Rm key \<Rightarrow> Some (repl_rm ops' key s))"

lemma run_command_sim:
  assumes "invar (Suc n) s" and "\<forall>a \<in> set (command_args cmd). utf8_valid a"
    and "sum_list (map length (command_args cmd)) \<le> pair_limit"
  shows "\<exists>out s'. run_command ops cmd s = Some (out, s') \<and> run_command map_ops cmd (view s) = Some (out, view s') \<and>
           invar n s'"
proof (cases cmd)
  case (ReplCommand_Set key v)
  with assms set_law [OF assms(1), of key v] show ?thesis
    by (auto simp: run_command_def repl_set_def map_ops_def pair_ok_def)
next
  case (ReplCommand_Get key)
  with assms obtain s' where "kv_get ops key s = Some (Inr (view s key), s')" "invar n s'" "view s' = view s"
    using get_law [OF assms(1), of key] by (auto simp: pair_ok_def)
  with ReplCommand_Get show ?thesis
    by (cases "view s key") (auto simp: run_command_def repl_get_def map_ops_def)
next
  case (ReplCommand_Rm key)
  with assms obtain s' where
    "kv_remove ops key s = ((if view s key = None then Inl KeyNotFound else Inr ()), s')"
    "invar n s'" "view s' = (view s)(key := None)"
    using remove_law [OF assms(1), of key] by (auto simp: pair_ok_def)
  with ReplCommand_Rm show ?thesis
    by (cases "view s key") (auto simp: run_command_def repl_rm_def map_ops_def)
qed

lemma repl_loop_command:
  assumes "trim line \<notin> {[], to_bytes ''quit'', to_bytes ''exit'', to_bytes ''help''}"
    and "parse_command (trim line) = Some cmd"
  shows "repl_loop ops' (Line line # events) s =
     Option.bind (run_command ops' cmd s) (\<lambda>(out, s). prepend [out] (repl_loop ops' events s))"
  using assms by (cases cmd) (simp_all add: run_command_def Let_def split: prod.split)

lemma repl_loop_sim:
  "lines_ok events \<Longrightarrow> invar (typed events) s \<Longrightarrow>
     lines_in_step (repl_loop ops events s) (repl_loop map_ops events (view s))"
proof (induction events arbitrary: s)
  case Nil
  then show ?case by (simp add: lines_in_step_def)
next
  case (Cons ev events)
  show ?case
  proof (cases ev)
    case (Line line)
    have inv: "invar (Suc (typed events)) s" "invar (typed events) s"
      using Cons.prems(2) Line by (auto intro: invar_antimono)
    have rest: "lines_in_step (repl_loop ops events s') (repl_loop map_ops events (view s'))"
      if "invar (typed events) s'" for s'
      using Cons.prems(1) Line that by (intro Cons.IH) simp_all
    show ?thesis
    proof (cases "trim line \<in> {[], to_bytes ''quit'', to_bytes ''exit'', to_bytes ''help''}")
      case True
      with rest [OF inv(2)] Line prepend_in_step show ?thesis
        by (auto simp: Let_def) (auto simp: lines_in_step_def)
    next
      case False
      show ?thesis
      proof (cases "parse_command (trim line)")
        case None
        with False rest [OF inv(2)] Line show ?thesis by (simp add: Let_def)
      next
        case (Some cmd)
        have "utf8_valid (trim line)" "length (trim line) \<le> pair_limit"
          using trim_valid [of line] Cons.prems(1) Line by auto
        from parse_command_ok [OF Some this] run_command_sim [OF inv(1)] obtain out s' where
          "run_command ops cmd s = Some (out, s')" "run_command map_ops cmd (view s) = Some (out, view s')"
          "invar (typed events) s'"
          by blast
        then show ?thesis
          unfolding Line repl_loop_command [OF False Some]
          using prepend_in_step [OF rest] by simp
      qed
    qed
  qed (use Cons in \<open>auto simp: prepend_in_step\<close>, auto simp: lines_in_step_def)
qed

end

section \<open>The client\<close>

definition client_result :: "response \<Rightarrow> kvs_error + response" where
  "client_result resp =
     (case resp of Response_Error code \<Rightarrow> Inl (error_from_error_code code) | _ \<Rightarrow> Inr resp)"

lemma call_answered:
  assumes req: "wire_ok req" and w: "healthy (cc_writer conn)"
    and resp: "response_ok resp" "length (snd (response_frame resp)) \<le> 2 ^ 24"
    and r: "nr_bytes (cc_reader conn) = response_bytes resp @ rest"
  shows "\<exists>conn'. call conn req = (client_result resp, conn') \<and>
           nw_out (cc_writer conn') = nw_total (cc_writer conn) @ request_bytes req \<and>
           nr_bytes (cc_reader conn') = rest"
proof -
  obtain t p where f: "request_frame req = (t, p)" by fastforce
  have "length p < 2 ^ 32" using req f by (simp add: wire_ok_def)
  then have "delivers (request_bytes req) (cc_writer conn) (write_request (cc_writer conn) req)"
    using write_frame_delivers [OF w] f by (simp add: write_request_frame request_bytes_def)
  then obtain w' where w': "write_request (cc_writer conn) req = (Inr (), w')"
    "nw_out w' = nw_total (cc_writer conn) @ request_bytes req"
    by (auto simp: delivers_def)
  obtain rt rp where rf: "response_frame resp = (rt, rp)" by fastforce
  have "nr_bytes (cc_reader conn) = frame_bytes rt rp @ rest" using r rf by (simp add: response_bytes_def)
  then obtain rd where rd: "read_frame (cc_reader conn) = (Inr (Some (rt, rp)), rd)" "nr_bytes rd = rest"
    using resp(2) rf by (metis read_frame_bytes snd_conv)
  have "decode_response rt rp = Inr resp" using decode_response_frame [OF resp(1)] rf by simp
  with w' rd show ?thesis
    by (cases resp) (simp_all add: call_def client_result_def)
qed

lemma stored_values_strings: "store_inv crc st \<Longrightarrow> store_view crc st key = Some v \<Longrightarrow> utf8_valid v"
  by (auto simp: store_inv_view entry_holds_def)

lemma spec_response_ok:
  assumes "store_inv crc st" and "small_values (store_view crc st)"
  shows "response_ok (fst (spec_execute req (store_view crc st)))"
    and "length (snd (response_frame (fst (spec_execute req (store_view crc st))))) \<le> 2 ^ 24"
  using stored_values_strings [OF assms(1)] assms(2)
  by (cases req; cases "store_view crc st (hd (request_args req))";
      auto simp: small_values_def ranI split: option.splits)+

section \<open>What a session at the prompt is to do\<close>

text \<open>
  The reference session works on the words of a line and on a map. It does not mention the store
  operations, nor how a line is trimmed and parsed.
\<close>

definition said :: "out_line list \<Rightarrow> out_line list \<times> 'm \<Rightarrow> out_line list \<times> 'm" where
  "said out r = (out @ fst r, snd r)"

fun session :: "readline list \<Rightarrow> (bytes \<rightharpoonup> bytes) \<Rightarrow> out_line list \<times> (bytes \<rightharpoonup> bytes)" where
  "session [] m = ([], m)"
| "session (Readline_Eof # _) m = ([], m)"
| "session (Readline_Error err # _) m = ([Stderr (to_bytes (''Error: '' @ err))], m)"
| "session (Readline_Interrupted # events) m = said [Stdout (to_bytes ''^C'')] (session events m)"
| "session (Line line # events) m =
     (case split_whitespace line of
        [w] \<Rightarrow>
          if w \<in> {to_bytes ''quit'', to_bytes ''exit''} then ([], m)
          else if w = to_bytes ''help'' then said print_help (session events m)
          else session events m
      | w # key # args \<Rightarrow>
          if w = to_bytes ''get'' then
            said [Stdout (case m key of Some v \<Rightarrow> v | None \<Rightarrow> to_bytes ''Key not found'')] (session events m)
          else if w = to_bytes ''rm'' then
            (if m key = None then said [Stderr (to_bytes ''Error: Key not found'')] (session events m)
             else said [Stdout (to_bytes ''Removed key: '' @ key)] (session events (m(key := None))))
          else if w = to_bytes ''set'' \<and> args \<noteq> [] then
            said [Stdout (to_bytes ''SET '' @ key @ to_bytes '' = '' @ hd args)] (session events (m(key \<mapsto> hd args)))
          else session events m
      | [] \<Rightarrow> session events m)"

lemma prepend_Some [simp]: "prepend out (Some r) = Some (said out r)"
  by (simp add: prepend_def said_def split: prod.split)

lemma command_word_split:
  "split_whitespace (to_bytes ''quit'') = [to_bytes ''quit'']"
  "split_whitespace (to_bytes ''exit'') = [to_bytes ''exit'']"
  "split_whitespace (to_bytes ''help'') = [to_bytes ''help'']"
  "split_whitespace [] = []"
  by code_simp+

lemma one_word:
  assumes "utf8_valid line" and "split_whitespace w = [w]"
  shows "trim line = w \<longleftrightarrow> split_whitespace line = [w]"
  using split_trim [OF assms(1)] trim_words(2) [OF assms(1)] assms(2) by auto

lemma no_word: "utf8_valid line \<Longrightarrow> trim line = [] \<longleftrightarrow> split_whitespace line = []"
  using split_trim [of line] trim_words(1) [of line] command_word_split(4) by auto

lemma repl_map_line:
  assumes line: "utf8_valid line" and rest: "\<And>m. repl_loop map_ops events m = Some (session events m)"
  shows "repl_loop map_ops (Line line # events) m = Some (session (Line line # events) m)"
proof -
  note trimmed = one_word [OF line command_word_split(1)] one_word [OF line command_word_split(2)]
    one_word [OF line command_word_split(3)] no_word [OF line] split_trim [OF line]
  note store_ops = repl_set_def repl_get_def repl_rm_def map_ops_def error_line_def
  consider "split_whitespace line = []" | w where "split_whitespace line = [w]"
    | w key args where "split_whitespace line = w # key # args"
    by (metis neq_Nil_conv)
  then show ?thesis
  proof cases
    case 1
    with trimmed rest show ?thesis by (simp add: Let_def)
  next
    case (2 w)
    with trimmed rest show ?thesis by (simp add: Let_def parse_command_def)
  next
    case (3 w key args)
    with trimmed rest show ?thesis
      by (cases args; cases "m key") (auto simp: Let_def parse_command_def store_ops fun_upd_idem)
  qed
qed

lemma repl_loop_map: "lines_ok events \<Longrightarrow> repl_loop map_ops events m = Some (session events m)"
proof (induction events arbitrary: m)
  case (Cons ev events)
  then show ?case
    by (cases ev) (simp_all add: repl_map_line del: repl_loop.simps(2) session.simps(5))
qed simp

section \<open>Properties\<close>

text \<open>
  C20. The server on a Bitcask store cannot be told from the server on a map in memory. On any input of
  up to 32 MiB, well-formed or not, in either protocol, on a connection that may break at any
  point, both return, with the same result and the same bytes sent, and the stores still agree.
\<close>

theorem server_simulation:
  assumes "bitcask_ready crc (length (concat (ts_chunks stream))) st"
    and "length (concat (ts_chunks stream)) \<le> pair_limit"
  shows "\<exists>res out st'. handle (bitcask_ops crc) stream st = Some (res, out, st') \<and>
           handle map_ops stream (store_view crc st) = Some (res, out, store_view crc st')"
  using bc.handle_sim [OF assms] .

theorem server_simulation_witness:
  "\<exists>res out st'.
     handle (bitcask_ops sum_crc) \<lparr>ts_clone = None, ts_chunks = [[7, 7], [7]], ts_fail = None, ts_out_fail = Some (0, Io_Error ConnectionReset ''reset'')\<rparr>
       calm_store = Some (res, out, st') \<and>
     handle map_ops \<lparr>ts_clone = None, ts_chunks = [[7, 7], [7]], ts_fail = None, ts_out_fail = Some (0, Io_Error ConnectionReset ''reset'')\<rparr>
       Map.empty = Some (res, out, store_view sum_crc st')"
  using server_simulation [of sum_crc "\<lparr>ts_clone = None, ts_chunks = [[7, 7], [7]], ts_fail = None, ts_out_fail = Some (0, Io_Error ConnectionReset ''reset'')\<rparr>" calm_store]
    calm_store_ready calm_store_facts(2) by (simp add: pair_limit_def)

text \<open>
  C37. The REPL on a Bitcask store carries out the reference session: for every sequence of lines,
  interrupts and editor errors it prints exactly the session's lines, each on the right stream, ends
  where the session ends and leaves its map in the store.
\<close>

theorem repl_session:
  assumes "lines_ok events" and "bitcask_ready crc (typed events) st"
  shows "\<exists>st'. repl_loop (bitcask_ops crc) events st = Some (fst (session events (store_view crc st)), st') \<and>
           store_view crc st' = snd (session events (store_view crc st))"
  using bc.repl_loop_sim [OF assms] repl_loop_map [OF assms(1)] by (auto simp: bc.lines_in_step_def)

theorem repl_session_witness:
  "\<exists>st'. repl_loop (bitcask_ops sum_crc)
       [Line (to_bytes ''set k v''), Line (to_bytes '' get k ''), Line (to_bytes ''rm k''), Line (to_bytes ''rm k''),
        Line (to_bytes ''quit''), Line (to_bytes ''get k'')] calm_store =
     Some ([Stdout (to_bytes ''SET k = v''), Stdout (to_bytes ''v''), Stdout (to_bytes ''Removed key: k''),
            Stderr (to_bytes ''Error: Key not found'')], st')"
proof -
  let ?es = "[Line (to_bytes ''set k v''), Line (to_bytes '' get k ''), Line (to_bytes ''rm k''), Line (to_bytes ''rm k''),
    Line (to_bytes ''quit''), Line (to_bytes ''get k'')]"
  have ok: "lines_ok ?es" by code_simp
  have words: "split_whitespace (to_bytes ''set k v'') = [to_bytes ''set'', to_bytes ''k'', to_bytes ''v'']"
    "split_whitespace (to_bytes '' get k '') = [to_bytes ''get'', to_bytes ''k'']"
    "split_whitespace (to_bytes ''rm k'') = [to_bytes ''rm'', to_bytes ''k'']"
    by code_simp+
  have outs: "fst (session ?es Map.empty) =
      [Stdout (to_bytes ''SET k = v''), Stdout (to_bytes ''v''), Stdout (to_bytes ''Removed key: k''),
       Stderr (to_bytes ''Error: Key not found'')]"
    by (simp add: words command_word_split said_def) (simp add: to_bytes_def)
  have "bitcask_ready sum_crc (typed ?es) calm_store" by (rule calm_store_ready) simp
  from repl_session [OF ok this, unfolded calm_store_facts(2) outs] show ?thesis by blast
qed

text \<open>
  C23. End to end: the bytes the client sends for a request make the server send bytes from which the
  client's \<open>call\<close> returns the answer of the key-value map, an error code being turned into the
  error it stands for.
\<close>

theorem client_through_server:
  assumes "wire_ok req" and "bitcask_ready crc 1 st" and "small_values (store_view crc st)"
    and "stream_of (request_bytes req) stream"
  shows "\<exists>out st'. handle (bitcask_ops crc) stream st = Some (Inr (), out, st') \<and>
           store_view crc st' = snd (spec_execute req (store_view crc st)) \<and>
           (\<forall>conn rest. healthy (cc_writer conn) \<and> nr_bytes (cc_reader conn) = out @ rest \<longrightarrow>
              (\<exists>conn'. call conn req = (client_result (fst (spec_execute req (store_view crc st))), conn') \<and>
                 nw_out (cc_writer conn') = nw_total (cc_writer conn) @ request_bytes req \<and>
                 nr_bytes (cc_reader conn') = rest))"
proof -
  let ?resp = "fst (spec_execute req (store_view crc st))"
  have inv: "store_inv crc st" using assms(2) by (simp add: bitcask_ready_def)
  obtain st' where "handle (bitcask_ops crc) stream st = Some (Inr (), response_bytes ?resp, st')"
    "store_view crc st' = snd (spec_execute req (store_view crc st))"
    using bc.handle_binary [of crc "[req]" 0 st stream] assms by auto
  with call_answered [OF assms(1) _ spec_response_ok [OF inv assms(3)]] show ?thesis by blast
qed

theorem client_through_server_witness:
  "\<exists>conn'. call \<lparr>cc_writer = idle_writer, cc_reader = one_reader [2, 1, 0, 0, 0, 1]\<rparr> (Request_Get [107]) =
     (Inl KeyNotFound, conn')"
proof -
  let ?stream = "\<lparr>ts_clone = None, ts_chunks = [request_bytes (Request_Get [107])], ts_fail = None, ts_out_fail = None\<rparr>"
  let ?conn = "\<lparr>cc_writer = idle_writer, cc_reader = one_reader [2, 1, 0, 0, 0, 1]\<rparr>"
  have "utf8_valid [107 :: byte]" by code_simp
  then have w: "wire_ok (Request_Get [107])" by (simp add: wire_ok_def)
  have s: "stream_of (request_bytes (Request_Get [107])) ?stream" by (simp add: stream_of_def)
  from client_through_server [OF w calm_store_ready _ s, of sum_crc] obtain out st' where
    h: "handle (bitcask_ops sum_crc) ?stream calm_store = Some (Inr (), out, st')"
    and c: "\<And>conn rest. healthy (cc_writer conn) \<Longrightarrow> nr_bytes (cc_reader conn) = out @ rest \<Longrightarrow>
      \<exists>conn'. call conn (Request_Get [107]) = (Inl KeyNotFound, conn')"
    by (simp add: calm_store_facts(2) small_values_empty client_result_def) blast
  have "response_bytes (Response_Error EC_KeyNotFound) = [2, 1, 0, 0, 0, 1]" by code_simp
  moreover have "\<exists>st'. handle (bitcask_ops sum_crc) ?stream calm_store =
      Some (Inr (), response_bytes (Response_Error EC_KeyNotFound), st')"
    using bc.handle_binary [of sum_crc "[Request_Get [107]]" 0 calm_store ?stream] w s calm_store_ready
    by (auto simp: calm_store_facts(2) small_values_empty)
  ultimately have "out = [2, 1, 0, 0, 0, 1]" using h by simp
  then show ?thesis using c [of ?conn "[]"] by (simp add: one_reader_def nr_bytes_def)
qed

text \<open>
  C38. The REPL reads a command line word by word, trimmed or not: whatever white space, of ASCII
  or of the rest of Unicode, is in front of, between and behind the words, the first words of a line
  are the command and its arguments; missing arguments and unknown commands give no command. Every
  string is such a line.
\<close>

theorem parse_command_words:
  assumes "list_all white_char lead" and "spaced ws"
  shows "parse_command (line_of lead ws) =
     (case map fst ws of
        cmd # key # v # _ \<Rightarrow>
          if cmd = to_bytes ''set'' then Some (ReplCommand_Set key v)
          else if cmd = to_bytes ''get'' then Some (ReplCommand_Get key)
          else if cmd = to_bytes ''rm'' then Some (ReplCommand_Rm key) else None
      | [cmd, key] \<Rightarrow>
          if cmd = to_bytes ''get'' then Some (ReplCommand_Get key)
          else if cmd = to_bytes ''rm'' then Some (ReplCommand_Rm key) else None
      | _ \<Rightarrow> None) \<and>
     parse_command (trim (line_of lead ws)) = parse_command (line_of lead ws) \<and>
     (\<forall>line. utf8_valid line \<longrightarrow> (\<exists>lead ws. list_all white_char lead \<and> spaced ws \<and> line = line_of lead ws))"
proof (intro conjI)
  note split = split_line_of [OF assms(2,1)]
  have "to_bytes ''set'' \<noteq> to_bytes ''get''" "to_bytes ''set'' \<noteq> to_bytes ''rm''" by simp_all
  with split show "parse_command (line_of lead ws) =
     (case map fst ws of
        cmd # key # v # _ \<Rightarrow>
          if cmd = to_bytes ''set'' then Some (ReplCommand_Set key v)
          else if cmd = to_bytes ''get'' then Some (ReplCommand_Get key)
          else if cmd = to_bytes ''rm'' then Some (ReplCommand_Rm key) else None
      | [cmd, key] \<Rightarrow>
          if cmd = to_bytes ''get'' then Some (ReplCommand_Get key)
          else if cmd = to_bytes ''rm'' then Some (ReplCommand_Rm key) else None
      | _ \<Rightarrow> None)"
    by (auto simp: parse_command_def split: list.split)
  have "split_whitespace (trim (line_of lead ws)) = map fst ws"
    using cut_end_spaced [OF assms(2)] split_line_of [of "cut_end ws" "[]"] trim_line_of [OF assms(2,1)] by simp
  with split show "parse_command (trim (line_of lead ws)) = parse_command (line_of lead ws)"
    by (simp add: parse_command_def)
qed (use line_of_all in blast)

theorem parse_command_words_witness:
  "parse_command (trim ([9] @ to_bytes ''set'' @ [0xE3, 0x80, 0x80, 32] @ [97] @ [0xC2, 0xA0] @ [98, 99] @ [13, 10])) =
     Some (ReplCommand_Set [97] [98, 99])"
proof -
  let ?lead = "[[9 :: byte]]"
  let ?ws = "[(to_bytes ''set'', [[0xE3, 0x80, 0x80], [32]]), ([97], [[0xC2, 0xA0]]), ([98, 99], [[13], [10]])]"
  have "list_all white_char ?lead" "spaced ?ws" by code_simp+
  from parse_command_words [OF this] show ?thesis by (simp add: line_of_def)
qed

end
