(* ===== verification/Merge.thy ===== *)
theory Merge
  imports Loader
begin

text \<open>
  Compaction, \<open>run_compaction\<close> of \<open>src/src/storage/bitcask.rs\<close>: the live records of the sealed files
  are copied to new files with ids from a reserved range, the index is moved over to the copies and
  the old files are removed. With it the thread that runs it on a signal, and the drop of the
  handle, which stops the thread and syncs the active file.

  The definitions run a compaction without other threads in between; \<open>Compaction\<close> cuts it into the
  steps between which other threads can run.
\<close>

record pending_update =
  pu_key :: bytes
  pu_previous_value :: index_value
  pu_new :: index_value

record merge_output =
  mo_id :: u64
  mo_data :: buf_writer
  mo_hint :: buf_writer
  mo_written :: u64

section \<open>Output files\<close>

definition merge_open :: "u64 \<Rightarrow> 'a os_scheme \<Rightarrow> (kvs_error + merge_output) \<times> 'a os_scheme" where
  "merge_open i st =
     st_bind (open_create (data_file_name_compaction i) st) (\<lambda>data st.
     st_bind (open_create (hint_file_name i) st) (\<lambda>hint st.
     (Inr \<lparr>mo_id = i, mo_data = buf_writer_new data, mo_hint = buf_writer_new hint, mo_written = 0\<rparr>, st)))"

definition on_data ::
  "(buf_writer \<Rightarrow> 'a os_scheme \<Rightarrow> (kvs_error + unit) \<times> buf_writer \<times> 'a os_scheme) \<Rightarrow>
   merge_output \<times> 'a os_scheme \<Rightarrow> (kvs_error + unit) \<times> merge_output \<times> 'a os_scheme" where
  "on_data f = (\<lambda>(out, st). let (r, bw, st) = f (mo_data out) st in (r, out\<lparr>mo_data := bw\<rparr>, st))"

definition on_hint ::
  "(buf_writer \<Rightarrow> 'a os_scheme \<Rightarrow> (kvs_error + unit) \<times> buf_writer \<times> 'a os_scheme) \<Rightarrow>
   merge_output \<times> 'a os_scheme \<Rightarrow> (kvs_error + unit) \<times> merge_output \<times> 'a os_scheme" where
  "on_hint f = (\<lambda>(out, st). let (r, bw, st) = f (mo_hint out) st in (r, out\<lparr>mo_hint := bw\<rparr>, st))"

definition merge_append ::
  "(bytes \<Rightarrow> u32) \<Rightarrow> bytes \<Rightarrow> bytes \<Rightarrow> u64 \<Rightarrow> merge_output \<times> 'a os_scheme \<Rightarrow>
   (kvs_error + index_value) \<times> merge_output \<times> 'a os_scheme" where
  "merge_append crc record key ts s =
     st_bind (on_data (bw_write_all record) s) (\<lambda>_ (out, st).
     let index_value = \<lparr>iv_file_id = mo_id out, iv_ts = ts, iv_offset = mo_written out,
                        iv_len = of_nat (length record)\<rparr>
     in
     st_bind (on_hint (bw_write_all (iv_serialize crc index_value key)) (out, st)) (\<lambda>_ (out, st).
     (Inr index_value, out\<lparr>mo_written := mo_written out + of_nat (length record)\<rparr>, st)))"

definition merge_sync ::
  "merge_output \<times> 'a os_scheme \<Rightarrow> (kvs_error + unit) \<times> merge_output \<times> 'a os_scheme" where
  "merge_sync s =
     st_bind (on_data bw_flush s) (\<lambda>_ s.
     st_bind (on_data bw_sync_all s) (\<lambda>_ s.
     st_bind (on_hint bw_flush s) (\<lambda>_ s.
     on_hint bw_sync_all s)))"

definition merge_is_full :: "u64 \<Rightarrow> merge_output \<Rightarrow> bool" where
  "merge_is_full threshold out \<longleftrightarrow> threshold \<le> mo_written out"

text \<open>The end of the life of an output: its two writers are dropped in the order of the fields.\<close>

definition merge_drop :: "merge_output \<Rightarrow> 'a os_scheme \<Rightarrow> 'a os_scheme" where
  "merge_drop out st = bw_drop (mo_hint out) (bw_drop (mo_data out) st)"

section \<open>Finishing an output\<close>

text \<open>
  The first half of \<open>finish_output\<close>: the output becomes durable, gets its final name and a reader.
\<close>

definition publish_output :: "merge_output \<Rightarrow> store \<Rightarrow> (kvs_error + unit) \<times> store" where
  "publish_output out st =
     (let (r, out, st) =
        st_bind (merge_sync (out, st)) (\<lambda>_ (out, st).
        let (r, st) =
          st_bind (rename (data_file_name_compaction (mo_id out)) (data_file_name (mo_id out)) st) (\<lambda>_ st.
          st_bind (open_read (data_file_name (mo_id out)) st) (\<lambda>compacted_file st.
          (Inr (), readers_update (bt_insert (mo_id out) compacted_file) st)))
        in (r, out, st))
      in (r, merge_drop out st))"

text \<open>One pending update: the entry is replaced only if it is still the one that was copied.\<close>

definition points_at :: "u64 \<Rightarrow> u64 \<Rightarrow> index_value option \<Rightarrow> bool" where
  "points_at file_id offset entry \<longleftrightarrow>
     (case entry of None \<Rightarrow> False | Some e \<Rightarrow> iv_file_id e = file_id \<and> iv_offset e = offset)"

definition apply_update :: "pending_update \<Rightarrow> store \<Rightarrow> (kvs_error + unit) \<times> store" where
  "apply_update p st =
     st_bind (write_access (st_index st) (pu_key p), st) (\<lambda>index_write st.
     if points_at (iv_file_id (pu_previous_value p)) (iv_offset (pu_previous_value p)) (index_write (pu_key p))
     then (Inr (), st\<lparr>st_index := index_insert (pu_key p) (pu_new p) (st_index st)\<rparr>)
     else (Inr (), st))"

fun apply_updates :: "pending_update list \<Rightarrow> store \<Rightarrow> (kvs_error + unit) \<times> store" where
  "apply_updates [] st = (Inr (), st)"
| "apply_updates (p # ps) st = st_bind (apply_update p st) (\<lambda>_ st. apply_updates ps st)"

definition finish_output :: "merge_output \<Rightarrow> pending_update list \<Rightarrow> store \<Rightarrow> (kvs_error + unit) \<times> store" where
  "finish_output out pending st =
     st_bind (publish_output out st) (\<lambda>_ st. apply_updates pending st)"

section \<open>Copying the live records\<close>

text \<open>One record of an input file.\<close>

definition merge_record ::
  "(bytes \<Rightarrow> u32) \<Rightarrow> u64 \<Rightarrow> u64 \<Rightarrow> bytes \<Rightarrow> pending_update list \<Rightarrow> merge_output \<times> store \<Rightarrow>
   (kvs_error + pending_update list) \<times> merge_output \<times> store" where
  "merge_record crc file_id position bs pending s =
     st_bind (command_deserialize crc bs, s) (\<lambda>(cmd, _) (out, st).
     case cmd of
       Command_Set ts key v \<Rightarrow>
         st_bind (read_access (st_index st) key, (out, st)) (\<lambda>m s.
         if points_at file_id position (m key)
         then
           st_bind (merge_append crc bs key ts s) (\<lambda>new_index_value s.
           (Inr (pending @
              [\<lparr>pu_key = key,
                pu_previous_value = \<lparr>iv_file_id = file_id, iv_ts = ts, iv_offset = position, iv_len = of_nat (length bs)\<rparr>,
                pu_new = new_index_value\<rparr>]), s))
         else (Inr pending, s))
     | Command_Rm ts key \<Rightarrow> (Inr pending, (out, st)))"

text \<open>The loop over the records of an input file.\<close>

function merge_loop ::
  "(bytes \<Rightarrow> u32) \<Rightarrow> u64 \<Rightarrow> record_reader \<Rightarrow> pending_update list \<Rightarrow> merge_output \<times> store \<Rightarrow>
   (kvs_error + pending_update list) \<times> merge_output \<times> store" where
  "merge_loop crc file_id rr pending s =
     (case next_record rr of
        (Inl e, rr) \<Rightarrow> (Inl e, s)
      | (Inr (Record position bs), rr) \<Rightarrow>
          st_bind (merge_record crc file_id position bs pending s) (\<lambda>pending s.
          merge_loop crc file_id rr pending s)
      | (Inr CleanEof, rr) \<Rightarrow> (Inr pending, s)
      | (Inr (TornTail position), rr) \<Rightarrow> (Inl Corruption, s))"
  by pat_completeness auto
termination
  by (relation "measure (\<lambda>(_, _, rr, _, _). length (src_bytes (rr_reader rr)))")
     (auto dest: next_record_consumes [OF sym])

declare merge_loop.simps [simp del]

text \<open>The reader of an input file, at its start.\<close>

definition input_reader :: "nat \<Rightarrow> 'a os_scheme \<Rightarrow> (kvs_error + record_reader) \<times> 'a os_scheme" where
  "input_reader file st =
     st_bind (seek_start file st) (\<lambda>_ st.
     st_bind (metadata_len file st) (\<lambda>file_len st.
     let (src, st) = buf_reader file st in (Inr (record_reader_new src file_len), st)))"

text \<open>The local variables of the merge.\<close>

record merge_state =
  ms_output :: "merge_output option"
  ms_next_id :: u64
  ms_pending :: "pending_update list"
  ms_ids_to_remove :: "u64 list"

definition merge_slot :: "merge_state \<Rightarrow> 'a os_scheme \<Rightarrow> (kvs_error + merge_output \<times> merge_state) \<times> 'a os_scheme" where
  "merge_slot ms st =
     (case ms_output ms of
        Some out \<Rightarrow> (Inr (out, ms), st)
      | None \<Rightarrow>
          (let ms = ms\<lparr>ms_next_id := ms_next_id ms + 1\<rparr> in
           st_bind (merge_open (ms_next_id ms) st) (\<lambda>out st. (Inr (out, ms), st))))"

text \<open>An error drops the output that is being written.\<close>

definition merge_file ::
  "(bytes \<Rightarrow> u32) \<Rightarrow> u64 \<Rightarrow> nat \<Rightarrow> merge_state \<Rightarrow> store \<Rightarrow> (kvs_error + merge_state) \<times> store" where
  "merge_file crc file_id file ms st =
     st_bind (merge_slot ms st) (\<lambda>(out, ms) st.
     case st_bind (let (r, st) = input_reader file st in (r, (out, st))) (\<lambda>rr s.
            merge_loop crc file_id rr (ms_pending ms) s) of
       (Inl e, (out, st)) \<Rightarrow> (Inl e, merge_drop out st)
     | (Inr pending, (out, st)) \<Rightarrow>
         (let ms = ms\<lparr>ms_ids_to_remove := ms_ids_to_remove ms @ [file_id]\<rparr> in
          if merge_is_full (cfg_file_size_threshold (st_config st)) out
          then
            st_bind (finish_output out pending st) (\<lambda>_ st.
            (Inr (ms\<lparr>ms_output := None, ms_pending := []\<rparr>), st))
          else (Inr (ms\<lparr>ms_output := Some out, ms_pending := pending\<rparr>), st)))"

fun merge_files ::
  "(bytes \<Rightarrow> u32) \<Rightarrow> (u64 \<times> nat) list \<Rightarrow> merge_state \<Rightarrow> store \<Rightarrow> (kvs_error + merge_state) \<times> store" where
  "merge_files crc [] ms st = (Inr ms, st)"
| "merge_files crc ((file_id, file) # files) ms st =
     st_bind (merge_file crc file_id file ms st) (\<lambda>ms st. merge_files crc files ms st)"

section \<open>The whole compaction\<close>

text \<open>The total length of the input files; a length that cannot be read counts as 0.\<close>

fun total_len :: "(u64 \<times> nat) list \<Rightarrow> 'a os_scheme \<Rightarrow> u64 \<times> 'a os_scheme" where
  "total_len [] st = (0, st)"
| "total_len ((file_id, file) # files) st =
     (let (r, st) = metadata_len file st;
          (total, st) = total_len files st
      in ((case r of Inl e \<Rightarrow> 0 | Inr n \<Rightarrow> n) + total, st))"

text \<open>
  The part under the writer lock: what to merge, and the rotation past the reserved ids. None is a
  panic, the division by a file size threshold of 0, which poisons the lock.
\<close>

definition compaction_snapshot ::
  "store \<Rightarrow> (kvs_error + ((u64 \<times> nat) list \<times> u64 \<times> u64) option) option \<times> store" where
  "compaction_snapshot st =
     (case writer_lock st of
        (Inl e, st) \<Rightarrow> (Some (Inl e), st)
      | (Inr _, st) \<Rightarrow>
          (let stale = ws_stale_bytes_count (st_writer st);
               current = ws_current_file_id (st_writer st);
               snapshot = filter (\<lambda>(i, _). i \<noteq> current) (st_readers st)
           in
           if stale < cfg_compaction_threshold (st_config st) then (Some (Inr None), st)
           else if snapshot = [] then (Some (Inr None), st)
           else
             (let (total_bytes, st) = total_len snapshot st;
                  threshold = cfg_file_size_threshold (st_config st)
              in
              if threshold = 0 then (None, st\<lparr>st_writer_poisoned := True\<rparr>)
              else
                (let reserve = total_bytes div threshold + 2;
                     next_active = current + reserve + 1
                 in
                 (case rotate_to next_active st of
                    (Inl e, st) \<Rightarrow> (Some (Inl e), st)
                  | (Inr _, st) \<Rightarrow> (Some (Inr (Some (snapshot, stale, current))), st))))))"

definition remove_input :: "u64 \<Rightarrow> 'a os_scheme \<Rightarrow> (kvs_error + unit) \<times> 'a os_scheme" where
  "remove_input i st =
     st_bind (remove_file (data_file_name i) st) (\<lambda>_ st.
     let (hint_exists, st) = path_exists (hint_file_name i) st in
     if hint_exists then remove_file (hint_file_name i) st else (Inr (), st))"

fun remove_inputs :: "u64 list \<Rightarrow> 'a os_scheme \<Rightarrow> (kvs_error + unit) \<times> 'a os_scheme" where
  "remove_inputs [] st = (Inr (), st)"
| "remove_inputs (i # is) st = st_bind (remove_input i st) (\<lambda>_ st. remove_inputs is st)"

definition subtract_stale :: "u64 \<Rightarrow> store \<Rightarrow> (kvs_error + unit) \<times> store" where
  "subtract_stale stale st =
     st_bind (writer_lock st) (\<lambda>_ st.
     (Inr (), upd_writer (\<lambda>w. w\<lparr>ws_stale_bytes_count := ws_stale_bytes_count w - stale\<rparr>) st))"

definition compaction_merge ::
  "(bytes \<Rightarrow> u32) \<Rightarrow> (u64 \<times> nat) list \<Rightarrow> u64 \<Rightarrow> u64 \<Rightarrow> store \<Rightarrow> (kvs_error + unit) \<times> store" where
  "compaction_merge crc snapshot stale first_compacted_file_id st =
     st_bind
       (merge_files crc snapshot
          \<lparr>ms_output = None, ms_next_id = first_compacted_file_id, ms_pending = [], ms_ids_to_remove = []\<rparr> st)
     (\<lambda>ms st.
     st_bind
       (case ms_output ms of Some out \<Rightarrow> finish_output out (ms_pending ms) st | None \<Rightarrow> (Inr (), st))
     (\<lambda>_ st.
     st_bind (remove_inputs (ms_ids_to_remove ms) st) (\<lambda>_ st.
     subtract_stale stale st)))"

definition run_compaction :: "(bytes \<Rightarrow> u32) \<Rightarrow> store \<Rightarrow> (kvs_error + unit) option \<times> store" where
  "run_compaction crc st =
     (case compaction_snapshot st of
        (None, st) \<Rightarrow> (None, st)
      | (Some (Inl e), st) \<Rightarrow> (Some (Inl e), st)
      | (Some (Inr None), st) \<Rightarrow> (Some (Inr ()), st)
      | (Some (Inr (Some (snapshot, stale, first_compacted_file_id))), st) \<Rightarrow>
          (let (r, st) = compaction_merge crc snapshot stale first_compacted_file_id st in (Some r, st)))"

section \<open>The compaction thread and the end of a store\<close>

text \<open>The thread takes a signal and compacts; it ignores errors and ends with a panic.\<close>

definition compaction_thread :: "(bytes \<Rightarrow> u32) \<Rightarrow> store \<Rightarrow> store" where
  "compaction_thread crc st =
     (if st_worker st \<and> st_signal st
      then
        (case run_compaction crc (st\<lparr>st_signal := False\<rparr>) of
           (None, st) \<Rightarrow> st\<lparr>st_worker := False\<rparr>
         | (Some _, st) \<Rightarrow> st)
      else st)"

text \<open>
  Dropping the handle closes the channel and waits for the thread, which still takes the signal in
  the channel, then syncs; the result is ignored. After that the store is gone: its lock is released.
\<close>

definition handle_drop :: "(bytes \<Rightarrow> u32) \<Rightarrow> store \<Rightarrow> store" where
  "handle_drop crc st =
     (let st = (compaction_thread crc (st\<lparr>st_tx := False\<rparr>))\<lparr>st_worker := False\<rparr> in
      case st_bind (writer_lock st) (\<lambda>_ st. shared_sync st) of (_, st) \<Rightarrow> st)"

definition store_close :: "(bytes \<Rightarrow> u32) \<Rightarrow> store \<Rightarrow> os" where
  "store_close crc st = (let st = handle_drop crc st in os.truncate (unlock (st_lock_file st) st))"

end
