(* ===== verification/Merge_Log.thy ===== *)
theory Merge_Log
  imports Log_Inv Merge
begin

text \<open>
  What a compaction does to a log, without files: inserting a file with copies of live records, and
  removing files to which no entry of the index points, leave what the log stands for as it is.
\<close>

section \<open>The later part of a log decides\<close>

fun op_key :: "keydir_op \<Rightarrow> bytes" where
  "op_key (Keydir_Put k v) = k"
| "op_key (Keydir_Drop k) = k"

definition log_keys :: "log \<Rightarrow> bytes set" where
  "log_keys log = get_key ` set (concat (map snd log))"

definition log_ids :: "log \<Rightarrow> u64 set" where
  "log_ids log = fst ` set log"

lemma log_keys_simps [simp]:
  "log_keys [] = {}"
  "log_keys ((i, cs) # log) = get_key ` set cs \<union> log_keys log"
  "log_keys (a @ b) = log_keys a \<union> log_keys b"
  by (auto simp: log_keys_def)

lemma log_ids_simps [simp]:
  "log_ids [] = {}"
  "log_ids ((i, cs) # log) = insert i (log_ids log)"
  "log_ids (a @ b) = log_ids a \<union> log_ids b"
  by (auto simp: log_ids_def)

lemma log_ids_iff: "i \<in> log_ids log \<longleftrightarrow> (\<exists>cs. (i, cs) \<in> set log)"
  by (force simp: log_ids_def)

lemma apply_ops_split:
  "foldl apply_op m ops k = (if k \<in> op_key ` set ops then foldl apply_op Map.empty ops k else m k)"
proof (induction ops arbitrary: m)
  case (Cons p ops)
  have here: "apply_op m p k = (if k = op_key p then apply_op Map.empty p k else m k)" for m
    by (cases p) auto
  show ?case
    using Cons [of "apply_op m p"] Cons [of "apply_op Map.empty p"] here [of m] here [of Map.empty]
    by (auto simp: image_iff)
qed simp

lemma op_key_record: "op_key (record_op i pos c) = get_key c"
  by (cases c) simp_all

lemma data_ops_keys: "op_key ` set (data_ops i pos cs) = get_key ` set cs"
  by (induction i pos cs rule: data_ops.induct) (simp_all add: op_key_record)

lemma log_ops_simps [simp]:
  "log_ops [] = []"
  "log_ops ((i, cs) # log) = data_ops i 0 cs @ log_ops log"
  "log_ops (a @ b) = log_ops a @ log_ops b"
  by (simp_all add: log_ops_def)

lemma log_ops_keys: "op_key ` set (log_ops log) = log_keys log"
proof (induction log)
  case (Cons f log)
  then show ?case by (cases f) (simp add: image_Un data_ops_keys)
qed simp

lemma log_index_append:
  "log_index (a @ b) k = (if k \<in> log_keys b then log_index b k else log_index a k)"
  using apply_ops_split [of "log_index a" "log_ops b" k] by (simp add: log_index_def log_ops_keys)

lemma log_index_None: "k \<notin> log_keys log \<Longrightarrow> log_index log k = None"
  using apply_ops_split [of Map.empty "log_ops log" k] by (simp add: log_index_def log_ops_keys)

lemma views_split:
  "foldl (\<lambda>m c. view_apply c m) m cs k =
     (if k \<in> get_key ` set cs then foldl (\<lambda>m c. view_apply c m) Map.empty cs k else m k)"
proof (induction cs arbitrary: m)
  case (Cons c cs)
  have here: "view_apply c m k = (if k = get_key c then view_apply c Map.empty k else m k)" for m
    by (cases c) auto
  show ?case
    using Cons [of "view_apply c m"] Cons [of "view_apply c Map.empty"] here [of m] here [of Map.empty]
    by (auto simp: image_iff)
qed simp

lemma log_view_append:
  "log_view (a @ b) k = (if k \<in> log_keys b then log_view b k else log_view a k)"
  using views_split [of "log_view a" "concat (map snd b)" k] by (simp add: log_view_def log_keys_def)

lemma log_index_entry:
  assumes "log_index log k = Some e"
  shows "\<exists>v. entry_in_log log k e v \<and> log_view log k = Some v"
  using log_index_matches [of log] assms by (auto simp: index_matches_def option_rel_Some1 dest!: spec [of _ k])

lemma log_index_id: "log_index log k = Some e \<Longrightarrow> iv_file_id e \<in> log_ids log"
  by (drule log_index_entry) (force simp: entry_in_log_def log_ids_def)

section \<open>Inserting copies\<close>

text \<open>
  \<open>copies x t cs\<close>: the commands, put behind the log \<open>x\<close> and before \<open>t\<close>, set keys to the values they
  have anyway, unless \<open>t\<close> decides about the key.
\<close>

definition copies :: "log \<Rightarrow> log \<Rightarrow> command list \<Rightarrow> bool" where
  "copies x t cs \<longleftrightarrow>
     (\<forall>c \<in> set cs. \<exists>ts key v. c = Command_Set ts key v \<and> (key \<notin> log_keys t \<longrightarrow> log_view x key = Some v))"

lemma copies_view:
  assumes "\<And>c. c \<in> set cs \<Longrightarrow> get_key c = key \<Longrightarrow> \<exists>ts. c = Command_Set ts key v"
    and "key \<in> get_key ` set cs"
  shows "foldl (\<lambda>m c. view_apply c m) m cs key = Some v"
  using assms
proof (induction cs rule: rev_induct)
  case (snoc c cs)
  show ?case
  proof (cases "get_key c = key")
    case True
    then obtain ts where "c = Command_Set ts key v" using snoc.prems(1) [of c] by auto
    then show ?thesis by simp
  next
    case False
    then have "foldl (\<lambda>m c. view_apply c m) m cs key = Some v"
      using snoc.prems by (intro snoc.IH) auto
    with False show ?thesis by (cases c) auto
  qed
qed simp

lemma insert_copies_view:
  assumes "copies x t cs"
  shows "log_view (x @ (o1, cs) # t) = log_view (x @ t)"
proof
  fix key
  show "log_view (x @ (o1, cs) # t) key = log_view (x @ t) key"
  proof (cases "key \<in> log_keys t \<or> key \<notin> get_key ` set cs")
    case True
    then show ?thesis
      using log_view_append [of x "(o1, cs) # t" key] log_view_append [of x t key]
        log_view_append [of "[(o1, cs)]" t key] by auto
  next
    case False
    then obtain c where c: "c \<in> set cs" "get_key c = key" by blast
    then obtain v where v: "log_view x key = Some v" using assms False by (fastforce simp: copies_def)
    have "\<exists>ts. c = Command_Set ts key v" if "c \<in> set cs" "get_key c = key" for c
      using assms that False v by (fastforce simp: copies_def)
    then have "log_view [(o1, cs)] key = Some v"
      using False copies_view [of cs key v Map.empty] by (simp add: log_view_def)
    then show ?thesis
      using False v log_view_append [of x "(o1, cs) # t" key] log_view_append [of x t key]
        log_view_append [of "[(o1, cs)]" t key] by simp
  qed
qed

section \<open>Removing dead files\<close>

lemma remove_dead_index:
  assumes "\<And>key e. log_index (dead @ log) key = Some e \<Longrightarrow> iv_file_id e \<notin> log_ids dead"
  shows "log_index (dead @ log) = log_index log"
proof
  fix key
  show "log_index (dead @ log) key = log_index log key"
  proof (cases "key \<in> log_keys log")
    case False
    have "log_index dead key = None"
    proof (rule ccontr)
      assume "log_index dead key \<noteq> None"
      then obtain e where "log_index dead key = Some e" by auto
      then show False using assms [of key e] False log_index_id by (auto simp: log_index_append)
    qed
    with False show ?thesis by (simp add: log_index_append log_index_None)
  qed (simp add: log_index_append)
qed

section \<open>The records of a file are determined by its bytes\<close>

lemma log_bytes_inj:
  assumes "log_bytes crc cs = log_bytes crc ds" and "list_all command_fits cs" and "list_all command_fits ds"
  shows "cs = ds"
  using assms
proof (induction cs arbitrary: ds)
  case Nil
  then show ?case using framed_nonempty [OF framed_serialize] by (cases ds) auto
next
  case (Cons c cs)
  obtain d ds' where ds: "ds = d # ds'"
    using Cons.prems framed_nonempty [OF framed_serialize, of c crc] by (cases ds) auto
  have fits: "command_fits c" "command_fits d" using Cons.prems ds by auto
  have eq: "command_serialize crc c @ log_bytes crc cs = command_serialize crc d @ log_bytes crc ds'"
    using Cons.prems ds by simp
  have "length (command_serialize crc c) = length (command_serialize crc d)"
    using framed_append [OF framed_serialize [OF fits(1)], of crc "log_bytes crc cs"]
      framed_append [OF framed_serialize [OF fits(2)], of crc "log_bytes crc ds'"] eq by simp
  with eq have ser: "command_serialize crc c = command_serialize crc d"
    and rest: "log_bytes crc cs = log_bytes crc ds'" by simp_all
  have "c = d"
    using command_deserialize_serialize [OF fits(1), of crc "[]"]
      command_deserialize_serialize [OF fits(2), of crc "[]"] ser by simp
  with Cons.IH [OF rest] Cons.prems ds show ?case by simp
qed

lemma record_len_pos: "0 < record_len c"
  by (simp add: record_len_def HEADER_LEN_def)

text \<open>Two positions of records in a file: the same, or apart by at least the first record.\<close>

lemma record_positions:
  assumes "pre1 @ c1 # post1 = pre2 @ c2 # post2"
  shows "sum_list (map record_len pre2) < sum_list (map record_len (pre1 @ [c1])) \<Longrightarrow>
           sum_list (map record_len pre2) < sum_list (map record_len pre1) \<or> pre2 = pre1 \<and> c2 = c1"
    and "sum_list (map record_len pre1) = sum_list (map record_len pre2) \<Longrightarrow> pre2 = pre1 \<and> c2 = c1"
proof -
  have less: "sum_list (map record_len pre1) + record_len c1 \<le> sum_list (map record_len pre2)"
    if "pre1 @ c1 # post1 = pre2 @ c2 # post2" "length pre1 < length pre2" for pre1 c1 post1 pre2 c2 post2
  proof -
    have "take (Suc (length pre1)) pre2 = pre1 @ [c1]"
      using arg_cong [OF that(1), of "take (Suc (length pre1))"] that(2) by simp
    then have "pre2 = (pre1 @ [c1]) @ drop (Suc (length pre1)) pre2"
      by (metis append_take_drop_id)
    then obtain rest where "pre2 = (pre1 @ [c1]) @ rest" by blast
    then show ?thesis by simp
  qed
  consider "length pre1 < length pre2" | "length pre2 < length pre1" | "pre2 = pre1 \<and> c2 = c1"
    using assms by (metis append_eq_append_conv linorder_neqE_nat list.inject)
  note cases = this
  note l12 = less [OF assms] and l21 = less [OF assms [symmetric]]
  show "sum_list (map record_len pre2) < sum_list (map record_len pre1) \<or> pre2 = pre1 \<and> c2 = c1"
    if a: "sum_list (map record_len pre2) < sum_list (map record_len (pre1 @ [c1]))"
  proof (cases rule: cases)
    case 1
    then show ?thesis using l12 a by simp
  next
    case 2
    then show ?thesis using l21 record_len_pos [of c2] by simp
  qed simp
  show "pre2 = pre1 \<and> c2 = c1" if a: "sum_list (map record_len pre1) = sum_list (map record_len pre2)"
  proof (cases rule: cases)
    case 1
    then show ?thesis using l12 a record_len_pos [of c1] by simp
  next
    case 2
    then show ?thesis using l21 a record_len_pos [of c2] by simp
  qed simp
qed

end
