(* ===== verification/Merge_Disk.thy ===== *)
theory Merge_Disk
  imports Merge_Log
begin

text \<open>
  The file operations of a compaction in a run without I/O errors: what they do to the contents of
  files and to the directory.
\<close>

section \<open>Writes to some files\<close>

definition wrote :: "nat set \<Rightarrow> 'a os_scheme \<Rightarrow> 'a os_scheme \<Rightarrow> bool" where
  "wrote fds st st' \<longleftrightarrow>
     (\<exists>ins n. st' = st\<lparr>os_inodes := ins, os_ticks := n\<rparr> \<and> length ins = length (os_inodes st) \<and>
        (\<forall>j. j \<notin> fds \<longrightarrow> content (ins ! j) = content (os_inodes st ! j)))"

lemma wroteD:
  assumes "wrote fds st st'"
  shows "os_dir st' = os_dir st" and "length (os_inodes st') = length (os_inodes st)"
    and "j \<notin> fds \<Longrightarrow> file_content st' j = file_content st j"
    and "calm st' = calm st" and "os_flocks st' = os_flocks st" and "os.more st' = os.more st"
  using assms by (auto simp: wrote_def file_content_def calm_def)

lemma wrote_store:
  fixes st :: store
  assumes "wrote fds st st'"
  shows "st_index st' = st_index st" and "st_readers st' = st_readers st" and "st_writer st' = st_writer st"
    and "st_config st' = st_config st" and "st_writer_poisoned st' = st_writer_poisoned st"
  using assms by (auto simp: wrote_def)

lemma wrote_refl [simp]: "wrote fds st (st\<lparr>os_ticks := n\<rparr>)" "wrote fds st st"
proof -
  show "wrote fds st (st\<lparr>os_ticks := n\<rparr>)"
    unfolding wrote_def by (intro exI [of _ "os_inodes st"] exI [of _ n]) simp
  show "wrote fds st st"
    unfolding wrote_def by (intro exI [of _ "os_inodes st"] exI [of _ "os_ticks st"]) simp
qed

lemma wrote_trans:
  assumes "wrote a x y" and "wrote b y z"
  shows "wrote (a \<union> b) x z"
proof -
  obtain ins n where 1: "y = x\<lparr>os_inodes := ins, os_ticks := n\<rparr>" "length ins = length (os_inodes x)"
    "\<forall>j. j \<notin> a \<longrightarrow> content (ins ! j) = content (os_inodes x ! j)"
    using assms(1) unfolding wrote_def by blast
  obtain ins' n' where 2: "z = y\<lparr>os_inodes := ins', os_ticks := n'\<rparr>" "length ins' = length (os_inodes y)"
    "\<forall>j. j \<notin> b \<longrightarrow> content (ins' ! j) = content (os_inodes y ! j)"
    using assms(2) unfolding wrote_def by blast
  from 1 2 show ?thesis
    unfolding wrote_def by (intro exI [of _ ins'] exI [of _ n']) simp
qed

lemma wrote_mono: "wrote a x y \<Longrightarrow> a \<subseteq> b \<Longrightarrow> wrote b x y"
  by (auto simp: wrote_def)

lemma wrote_append: "wrote {fd} st (append_content fd bs (tick st))"
  unfolding wrote_def append_content_def
  by (intro exI [of _ "(os_inodes st)[fd := (os_inodes st ! fd)\<lparr>content := file_content st fd @ bs\<rparr>]"]
      exI [of _ "os_ticks st + 1"]) (simp add: file_content_def)

lemma wrote_sync: "wrote {} st (st\<lparr>os_ticks := n, os_inodes := (os_inodes st)[fd := (os_inodes st ! fd)\<lparr>synced := m\<rparr>]\<rparr>)"
  unfolding wrote_def
  by (intro exI [of _ "(os_inodes st)[fd := (os_inodes st ! fd)\<lparr>synced := m\<rparr>]"] exI [of _ n])
     (simp add: content_synced_update)

lemma write_all_calm:
  assumes "calm st" and "fd < length (os_inodes st)"
    and "length (file_content st fd) + length bs \<le> MAX_FILE_LEN"
  shows "\<exists>st'. write_all fd bs st = (Inr (), st') \<and> wrote {fd} st st' \<and>
           file_content st' fd = file_content st fd @ bs"
proof -
  have "length bs \<le> MAX_FILE_LEN - length (file_content st fd)" using assms(3) by linarith
  then show ?thesis
    using assms wrote_append [of fd st bs] file_content_append [of fd "tick st" bs fd]
    by (intro exI [of _ "append_content fd bs (tick st)"]) (simp add: write_all_Inr_iff calm_faults)
qed

lemma bw_flush_calm:
  assumes "calm st" and "bw_file bw < length (os_inodes st)"
    and "length (file_content st (bw_file bw)) + length (bw_buf bw) \<le> MAX_FILE_LEN"
  shows "\<exists>st'. bw_flush bw st = (Inr (), bw\<lparr>bw_buf := []\<rparr>, st') \<and> wrote {bw_file bw} st st' \<and>
           file_content st' (bw_file bw) = file_content st (bw_file bw) @ bw_buf bw"
proof (cases "bw_buf bw = []")
  case True
  then show ?thesis by (intro exI [of _ st]) (simp add: bw_flush_def)
next
  case False
  obtain st' where "write_all (bw_file bw) (bw_buf bw) st = (Inr (), st')" "wrote {bw_file bw} st st'"
    "file_content st' (bw_file bw) = file_content st (bw_file bw) @ bw_buf bw"
    using write_all_calm [OF assms] by blast
  with False show ?thesis by (intro exI [of _ st']) (simp add: bw_flush_def)
qed

lemma bw_write_all_calm:
  assumes calm: "calm st" and fd: "bw_file bw < length (os_inodes st)"
    and room: "length (file_content st (bw_file bw) @ bw_buf bw @ bs) \<le> MAX_FILE_LEN"
  shows "\<exists>buf st'. bw_write_all bs bw st = (Inr (), bw\<lparr>bw_buf := buf\<rparr>, st') \<and> wrote {bw_file bw} st st' \<and>
           file_content st' (bw_file bw) @ buf = file_content st (bw_file bw) @ bw_buf bw @ bs"
proof -
  consider "length (bw_buf bw) + length bs < BUF_CAPACITY" | "length (bw_buf bw) + length bs = BUF_CAPACITY"
    | "BUF_CAPACITY < length (bw_buf bw) + length bs" by linarith
  then show ?thesis
  proof cases
    case 1
    then show ?thesis
      by (intro exI [of _ "bw_buf bw @ bs"] exI [of _ st]) (simp add: bw_write_all_def)
  next
    case 2
    show ?thesis
    proof (cases "BUF_CAPACITY \<le> length bs")
      case True
      with 2 have "length (bw_buf bw) = 0" by linarith
      then have "bw_buf bw = []" by simp
      moreover from this obtain st' where "write_all (bw_file bw) bs st = (Inr (), st')"
        "wrote {bw_file bw} st st'" "file_content st' (bw_file bw) = file_content st (bw_file bw) @ bs"
        using write_all_calm [OF calm fd, of bs] room by auto
      ultimately show ?thesis
        using 2 True by (intro exI [of _ "[]"] exI [of _ st']) (simp add: bw_write_all_def)
    next
      case False
      with 2 show ?thesis
        by (intro exI [of _ "bw_buf bw @ bs"] exI [of _ st]) (simp add: bw_write_all_def)
    qed
  next
    case 3
    have "length (file_content st (bw_file bw)) + length (bw_buf bw) \<le> MAX_FILE_LEN" using room by simp
    then obtain st1 where fl: "bw_flush bw st = (Inr (), bw\<lparr>bw_buf := []\<rparr>, st1)"
      and w1: "wrote {bw_file bw} st st1"
      and c1: "file_content st1 (bw_file bw) = file_content st (bw_file bw) @ bw_buf bw"
      using bw_flush_calm [OF calm fd] by blast
    show ?thesis
    proof (cases "BUF_CAPACITY \<le> length bs")
      case True
      have "calm st1" "bw_file bw < length (os_inodes st1)" using wroteD(2,4) [OF w1] calm fd by simp_all
      then obtain st2 where "write_all (bw_file bw) bs st1 = (Inr (), st2)" and w2: "wrote {bw_file bw} st1 st2"
        and "file_content st2 (bw_file bw) = file_content st1 (bw_file bw) @ bs"
        using write_all_calm [of st1 "bw_file bw" bs] room c1 by auto
      then show ?thesis
        using fl c1 3 True wrote_trans [OF w1 w2]
        by (intro exI [of _ "[]"] exI [of _ st2]) (simp add: bw_write_all_def)
    next
      case False
      then show ?thesis
        using fl w1 c1 3 by (intro exI [of _ bs] exI [of _ st1]) (simp add: bw_write_all_def)
    qed
  qed
qed

lemma bw_sync_all_calm:
  assumes "calm st"
  shows "\<exists>st'. bw_sync_all bw st = (Inr (), bw, st') \<and> wrote {} st st'"
  using assms wrote_sync
  by (simp add: bw_sync_all_def sync_all_def calm_syscall)

section \<open>The output files\<close>

definition out_files :: "merge_output \<Rightarrow> nat set" where
  "out_files out = {bw_file (mo_data out), bw_file (mo_hint out)}"

text \<open>What has been handed to the two writers of an output.\<close>

definition out_data :: "'a os_scheme \<Rightarrow> merge_output \<Rightarrow> bytes" where
  "out_data st out = file_content st (bw_file (mo_data out)) @ bw_buf (mo_data out)"

definition out_hint :: "'a os_scheme \<Rightarrow> merge_output \<Rightarrow> bytes" where
  "out_hint st out = file_content st (bw_file (mo_hint out)) @ bw_buf (mo_hint out)"

definition out_open :: "'a os_scheme \<Rightarrow> merge_output \<Rightarrow> bool" where
  "out_open st out \<longleftrightarrow>
     bw_file (mo_data out) < length (os_inodes st) \<and> bw_file (mo_hint out) < length (os_inodes st) \<and>
     bw_file (mo_data out) \<noteq> bw_file (mo_hint out)"

lemma on_data_calm:
  assumes calm: "calm st" and o: "out_open st out" and room: "length (out_data st out @ bs) \<le> MAX_FILE_LEN"
  shows "\<exists>buf st'. on_data (bw_write_all bs) (out, st) = (Inr (), out\<lparr>mo_data := (mo_data out)\<lparr>bw_buf := buf\<rparr>\<rparr>, st') \<and>
     wrote (out_files out) st st' \<and>
     file_content st' (bw_file (mo_data out)) @ buf = out_data st out @ bs \<and>
     file_content st' (bw_file (mo_hint out)) = file_content st (bw_file (mo_hint out))"
proof -
  obtain buf st' where st': "bw_write_all bs (mo_data out) st = (Inr (), (mo_data out)\<lparr>bw_buf := buf\<rparr>, st')"
    "wrote {bw_file (mo_data out)} st st'"
    "file_content st' (bw_file (mo_data out)) @ buf = out_data st out @ bs"
    using bw_write_all_calm [OF calm, of "mo_data out" bs] o room by (auto simp: out_open_def out_data_def)
  have "wrote (out_files out) st st'" using st'(2) by (rule wrote_mono) (simp add: out_files_def)
  with st' o show ?thesis
    by (intro exI [of _ buf] exI [of _ st']) (simp add: on_data_def out_open_def wroteD(3) [OF st'(2)])
qed

lemma on_hint_calm:
  assumes calm: "calm st" and o: "out_open st out" and room: "length (out_hint st out @ bs) \<le> MAX_FILE_LEN"
  shows "\<exists>buf st'. on_hint (bw_write_all bs) (out, st) = (Inr (), out\<lparr>mo_hint := (mo_hint out)\<lparr>bw_buf := buf\<rparr>\<rparr>, st') \<and>
     wrote (out_files out) st st' \<and>
     file_content st' (bw_file (mo_hint out)) @ buf = out_hint st out @ bs \<and>
     file_content st' (bw_file (mo_data out)) = file_content st (bw_file (mo_data out))"
proof -
  obtain buf st' where st': "bw_write_all bs (mo_hint out) st = (Inr (), (mo_hint out)\<lparr>bw_buf := buf\<rparr>, st')"
    "wrote {bw_file (mo_hint out)} st st'"
    "file_content st' (bw_file (mo_hint out)) @ buf = out_hint st out @ bs"
    using bw_write_all_calm [OF calm, of "mo_hint out" bs] o room by (auto simp: out_open_def out_hint_def)
  have "wrote (out_files out) st st'" using st'(2) by (rule wrote_mono) (simp add: out_files_def)
  with st' o show ?thesis
    by (intro exI [of _ buf] exI [of _ st']) (simp add: on_hint_def out_open_def wroteD(3) [OF st'(2)])
qed

lemma merge_append_calm:
  assumes calm: "calm st" and o: "out_open st out"
    and iv: "iv = \<lparr>iv_file_id = mo_id out, iv_ts = ts, iv_offset = mo_written out, iv_len = of_nat (length bs)\<rparr>"
    and room: "length (out_data st out @ bs) \<le> MAX_FILE_LEN"
      "length (out_hint st out @ iv_serialize crc iv key) \<le> MAX_FILE_LEN"
  shows "\<exists>out' st'. merge_append crc bs key ts (out, st) = (Inr iv, out', st') \<and>
     wrote (out_files out) st st' \<and> mo_id out' = mo_id out \<and>
     bw_file (mo_data out') = bw_file (mo_data out) \<and> bw_file (mo_hint out') = bw_file (mo_hint out) \<and>
     mo_written out' = mo_written out + of_nat (length bs) \<and>
     out_data st' out' = out_data st out @ bs \<and>
     out_hint st' out' = out_hint st out @ iv_serialize crc iv key"
proof -
  obtain buf1 st1 where d: "on_data (bw_write_all bs) (out, st) = (Inr (), out\<lparr>mo_data := (mo_data out)\<lparr>bw_buf := buf1\<rparr>\<rparr>, st1)"
    and w1: "wrote (out_files out) st st1"
    and c1: "file_content st1 (bw_file (mo_data out)) @ buf1 = out_data st out @ bs"
      "file_content st1 (bw_file (mo_hint out)) = file_content st (bw_file (mo_hint out))"
    using on_data_calm [OF calm o room(1)] by blast
  let ?out1 = "out\<lparr>mo_data := (mo_data out)\<lparr>bw_buf := buf1\<rparr>\<rparr>" and ?bs = "iv_serialize crc iv key"
  have o1: "out_open st1 ?out1" using o wroteD(2) [OF w1] by (simp add: out_open_def)
  have h1: "out_hint st1 ?out1 = out_hint st out" by (simp add: out_hint_def c1(2))
  have "calm st1" using wroteD(4) [OF w1] calm by simp
  then obtain buf2 st2 where h: "on_hint (bw_write_all ?bs) (?out1, st1) =
      (Inr (), ?out1\<lparr>mo_hint := (mo_hint out)\<lparr>bw_buf := buf2\<rparr>\<rparr>, st2)"
    and w2: "wrote (out_files out) st1 st2"
    and c2: "file_content st2 (bw_file (mo_hint out)) @ buf2 = out_hint st out @ ?bs"
      "file_content st2 (bw_file (mo_data out)) = file_content st1 (bw_file (mo_data out))"
    using on_hint_calm [OF _ o1, of ?bs] room(2) h1 by (auto simp: out_files_def)
  show ?thesis
    using d h c1 c2 wrote_trans [OF w1 w2]
    by (intro exI [of _ "?out1\<lparr>mo_hint := (mo_hint out)\<lparr>bw_buf := buf2\<rparr>,
          mo_written := mo_written out + of_nat (length bs)\<rparr>"] exI [of _ st2])
       (simp add: merge_append_def iv out_data_def out_hint_def)
qed

lemma merge_sync_calm:
  assumes calm: "calm st" and o: "out_open st out"
    and room: "length (out_data st out) \<le> MAX_FILE_LEN" "length (out_hint st out) \<le> MAX_FILE_LEN"
  shows "\<exists>out' st'. merge_sync (out, st) = (Inr (), out', st') \<and> wrote (out_files out) st st' \<and>
     mo_id out' = mo_id out \<and> bw_buf (mo_data out') = [] \<and> bw_buf (mo_hint out') = [] \<and>
     file_content st' (bw_file (mo_data out)) = out_data st out \<and>
     file_content st' (bw_file (mo_hint out)) = out_hint st out"
proof -
  let ?d = "mo_data out" and ?h = "mo_hint out"
  note o' = o [unfolded out_open_def]
  obtain st1 where f1: "bw_flush ?d st = (Inr (), ?d\<lparr>bw_buf := []\<rparr>, st1)" and w1: "wrote {bw_file ?d} st st1"
    and c1: "file_content st1 (bw_file ?d) = out_data st out"
    using bw_flush_calm [OF calm, of ?d] o' room(1) by (auto simp: out_data_def)
  have k1: "calm st1" using wroteD(4) [OF w1] calm by simp
  obtain st2 where f2: "bw_sync_all (?d\<lparr>bw_buf := []\<rparr>) st1 = (Inr (), ?d\<lparr>bw_buf := []\<rparr>, st2)" and w2: "wrote {} st1 st2"
    using bw_sync_all_calm [OF k1] by blast
  have k2: "calm st2" using wroteD(4) [OF w2] k1 by simp
  have h2: "file_content st2 (bw_file ?h) = file_content st (bw_file ?h)"
    using wroteD(3) [OF w1, of "bw_file ?h"] wroteD(3) [OF w2] o' by simp
  obtain st3 where f3: "bw_flush ?h st2 = (Inr (), ?h\<lparr>bw_buf := []\<rparr>, st3)" and w3: "wrote {bw_file ?h} st2 st3"
    and c3: "file_content st3 (bw_file ?h) = out_hint st out"
    using bw_flush_calm [OF k2, of ?h] o' room(2) h2 wroteD(2) [OF w1] wroteD(2) [OF w2] by (auto simp: out_hint_def)
  have k3: "calm st3" using wroteD(4) [OF w3] k2 by simp
  obtain st4 where f4: "bw_sync_all (?h\<lparr>bw_buf := []\<rparr>) st3 = (Inr (), ?h\<lparr>bw_buf := []\<rparr>, st4)" and w4: "wrote {} st3 st4"
    using bw_sync_all_calm [OF k3] by blast
  have w: "wrote (out_files out) st st4"
    using wrote_trans [OF wrote_trans [OF wrote_trans [OF w1 w2] w3] w4] by (simp add: out_files_def insert_commute)
  have "file_content st4 (bw_file ?d) = out_data st out"
    using wroteD(3) [OF w4] wroteD(3) [OF w3, of "bw_file ?d"] wroteD(3) [OF w2] o' c1 by simp
  moreover have "file_content st4 (bw_file ?h) = out_hint st out" using wroteD(3) [OF w4] c3 by simp
  moreover have "merge_sync (out, st) =
      (Inr (), out\<lparr>mo_data := ?d\<lparr>bw_buf := []\<rparr>, mo_hint := ?h\<lparr>bw_buf := []\<rparr>\<rparr>, st4)"
    by (simp add: merge_sync_def on_data_def on_hint_def f1 f2 f3 f4)
  ultimately show ?thesis using w
    by (intro exI [of _ "out\<lparr>mo_data := ?d\<lparr>bw_buf := []\<rparr>, mo_hint := ?h\<lparr>bw_buf := []\<rparr>\<rparr>"] exI [of _ st4]) simp
qed

lemma merge_drop_empty:
  "bw_buf (mo_data out) = [] \<Longrightarrow> bw_buf (mo_hint out) = [] \<Longrightarrow> merge_drop out st = st"
  by (simp add: merge_drop_def bw_drop_def bw_flush_def)

section \<open>Opening and publishing an output\<close>

lemma map_of_append_fresh:
  "map_of d name = None \<Longrightarrow> map_of (d @ [(name, e)]) = (map_of d)(name \<mapsto> e)"
  by (auto simp: fun_eq_iff map_add_def split: option.split)

lemma merge_open_calm:
  assumes calm: "calm st" and fresh: "map_of (os_dir st) (data_file_name_compaction i) = None"
      "map_of (os_dir st) (hint_file_name i) = None"
  shows "\<exists>st' n. merge_open i st =
       (Inr \<lparr>mo_id = i, mo_data = buf_writer_new (length (os_inodes st)),
             mo_hint = buf_writer_new (Suc (length (os_inodes st))), mo_written = 0\<rparr>, st') \<and>
     st' = st\<lparr>os_ticks := n,
       os_dir := os_dir st @ [(data_file_name_compaction i, File_Entry (length (os_inodes st))),
                              (hint_file_name i, File_Entry (Suc (length (os_inodes st))))],
       os_inodes := os_inodes st @ [\<lparr>content = [], synced = 0\<rparr>, \<lparr>content = [], synced = 0\<rparr>]\<rparr>"
  using assms
  by (intro exI [of _ "st\<lparr>os_ticks := Suc (Suc (os_ticks st)),
       os_dir := os_dir st @ [(data_file_name_compaction i, File_Entry (length (os_inodes st))),
                              (hint_file_name i, File_Entry (Suc (length (os_inodes st))))],
       os_inodes := os_inodes st @ [\<lparr>content = [], synced = 0\<rparr>, \<lparr>content = [], synced = 0\<rparr>]\<rparr>"]
      exI [of _ "Suc (Suc (os_ticks st))"])
     (simp add: merge_open_def open_create_def calm_syscall map_add_def)

lemma publish_output_calm:
  assumes calm: "calm st" and o: "out_open st out"
    and room: "length (out_data st out) \<le> MAX_FILE_LEN" "length (out_hint st out) \<le> MAX_FILE_LEN"
    and name: "map_of (os_dir st) (data_file_name_compaction (mo_id out)) = Some (File_Entry (bw_file (mo_data out)))"
  shows "\<exists>st1 n. wrote (out_files out) st st1 \<and>
     file_content st1 (bw_file (mo_data out)) = out_data st out \<and>
     file_content st1 (bw_file (mo_hint out)) = out_hint st out \<and>
     publish_output out st =
       (Inr (), st1\<lparr>os_ticks := n,
          os_dir := filter (\<lambda>(m, _). m \<noteq> data_file_name_compaction (mo_id out) \<and> m \<noteq> data_file_name (mo_id out)) (os_dir st)
                    @ [(data_file_name (mo_id out), File_Entry (bw_file (mo_data out)))],
          st_readers := bt_insert (mo_id out) (bw_file (mo_data out)) (st_readers st)\<rparr>)"
proof -
  obtain out' st1 where s: "merge_sync (out, st) = (Inr (), out', st1)" and w: "wrote (out_files out) st st1"
    and out': "mo_id out' = mo_id out" "bw_buf (mo_data out') = []" "bw_buf (mo_hint out') = []"
    and c: "file_content st1 (bw_file (mo_data out)) = out_data st out"
      "file_content st1 (bw_file (mo_hint out)) = out_hint st out"
    using merge_sync_calm [OF calm o room] by blast
  let ?from = "data_file_name_compaction (mo_id out)" and ?to = "data_file_name (mo_id out)"
  let ?dir = "filter (\<lambda>(m, _). m \<noteq> ?from \<and> m \<noteq> ?to) (os_dir st) @ [(?to, File_Entry (bw_file (mo_data out)))]"
  have k1: "calm st1" using wroteD(4) [OF w] calm by simp
  have "map_of (filter (\<lambda>(m, _). m \<noteq> ?from \<and> m \<noteq> ?to) (os_dir st)) ?to = None"
    by (auto simp: map_of_eq_None_iff)
  then have "map_of ?dir ?to = Some (File_Entry (bw_file (mo_data out)))" by (simp add: map_add_def)
  then have "publish_output out st = (Inr (), st1\<lparr>os_ticks := Suc (Suc (os_ticks st1)), os_dir := ?dir,
      st_readers := bt_insert (mo_id out) (bw_file (mo_data out)) (st_readers st)\<rparr>)"
    using k1 name wroteD(1) [OF w] wrote_store(2) [OF w]
    by (simp add: publish_output_def s out' rename_def open_read_def calm_syscall readers_update_def merge_drop_empty)
  with w c show ?thesis by blast
qed

end
