(* ===== verification/Merge_Inv.thy ===== *)
theory Merge_Inv
  imports Merge_Disk
begin

text \<open>
  The state of a store while it is compacted. Its log has two parts: \<open>x\<close>, the files up to the last
  finished output, and \<open>t\<close>, the files written since the compaction started, the last of them active.
  Other threads only grow \<open>t\<close>.
\<close>

section \<open>A running store\<close>

definition record_ok :: "command \<Rightarrow> bool" where
  "record_ok c \<longleftrightarrow> command_ok c \<and> hint_fits (get_key c)"

text \<open>Every reader, also one whose file was removed, reads whole records.\<close>

definition readers_log :: "(bytes \<Rightarrow> u32) \<Rightarrow> store \<Rightarrow> bool" where
  "readers_log crc st \<longleftrightarrow>
     (\<forall>i fd. bt_get (st_readers st) i = Some fd \<longrightarrow>
        length (file_content st fd) \<le> MAX_FILE_LEN \<and>
        (\<exists>cs. file_content st fd = log_bytes crc cs \<and> list_all record_ok cs) \<and>
        (\<forall>j. bt_get (st_readers st) j = Some fd \<longrightarrow> j = i))"

lemma readers_logD:
  assumes "readers_log crc st" and "bt_get (st_readers st) i = Some fd"
  shows "length (file_content st fd) \<le> MAX_FILE_LEN"
    and "\<exists>cs. file_content st fd = log_bytes crc cs \<and> list_all record_ok cs"
    and "bt_get (st_readers st) j = Some fd \<Longrightarrow> j = i"
  using assms unfolding readers_log_def by blast+

definition running :: "(bytes \<Rightarrow> u32) \<Rightarrow> store \<Rightarrow> log \<Rightarrow> log \<Rightarrow> bool" where
  "running crc st x t \<longleftrightarrow>
     calm st \<and> no_poison (st_index st) \<and> \<not> st_writer_poisoned st \<and> readers_log crc st \<and>
     (\<exists>b cs. t = b @ [(ws_current_file_id (st_writer st), cs)] \<and> log_base crc st (x @ b) cs)"

lemma runningD:
  assumes "running crc st x t"
  shows "calm st" and "no_poison (st_index st)" and "\<not> st_writer_poisoned st" and "readers_log crc st"
    and "store_inv crc st" and "dir_wf st" and "index_ok (st_index st)" and "readers_ok st"
proof -
  show "calm st" "no_poison (st_index st)" "\<not> st_writer_poisoned st" "readers_log crc st"
    using assms by (simp_all add: running_def)
  show "store_inv crc st" "dir_wf st" using assms by (auto simp: running_def dest: log_baseD(1,3))
  then show "index_ok (st_index st)" "readers_ok st" by (simp_all add: store_inv_def)
qed

lemma running_log:
  assumes "running crc st x t" and "(i, cs) \<in> set (x @ t)"
  shows "\<exists>fd. map_of (os_dir st) (data_file_name i) = Some (File_Entry fd) \<and>
     bt_get (st_readers st) i = Some fd \<and> file_content st fd = log_bytes crc cs \<and> list_all command_ok cs"
proof -
  obtain b ds where t: "t = b @ [(ws_current_file_id (st_writer st), ds)]" and base: "log_base crc st (x @ b) ds"
    using assms(1) by (auto simp: running_def)
  have "(i, cs) \<in> set (x @ b) \<or> i = ws_current_file_id (st_writer st) \<and> cs = ds" using assms(2) t by auto
  then obtain fd where "map_of (os_dir st) (data_file_name i) = Some (File_Entry fd)"
    "file_content st fd = log_bytes crc cs" "list_all command_ok cs"
    using disk_logD(3,4,6,7) [OF log_baseD(2) [OF base]] by (fastforce simp: file_ok_def)
  with log_baseD(4) [OF base] show ?thesis by blast
qed

lemma running_ids:
  assumes "running crc st x t"
  shows "sorted_wrt (<) (map fst (x @ t))"
    and "map_of (os_dir st) (data_file_name i) \<noteq> None \<longleftrightarrow> i \<in> log_ids (x @ t)"
    and "ws_current_file_id (st_writer st) \<in> log_ids t"
    and "i \<in> log_ids (x @ t) \<Longrightarrow> i \<le> ws_current_file_id (st_writer st)"
proof -
  obtain b ds where t: "t = b @ [(ws_current_file_id (st_writer st), ds)]" and base: "log_base crc st (x @ b) ds"
    using assms(1) by (auto simp: running_def)
  note log = log_baseD(2) [OF base]
  show s: "sorted_wrt (<) (map fst (x @ t))" using disk_logD(2) [OF log] t by simp
  show "map_of (os_dir st) (data_file_name i) \<noteq> None \<longleftrightarrow> i \<in> log_ids (x @ t)"
    using disk_logD(8) [OF log, of i] running_log [OF assms, of i] t by (fastforce simp: log_ids_def)
  show "ws_current_file_id (st_writer st) \<in> log_ids t" using t by simp
  show "i \<le> ws_current_file_id (st_writer st)" if "i \<in> log_ids (x @ t)"
    using s that by (auto simp: t log_ids_def sorted_wrt_append less_imp_le)
qed

text \<open>The reader of a file of the log gives the records of the log.\<close>

lemma command_ok_list: "list_all record_ok cs \<Longrightarrow> list_all command_ok cs"
  by (auto simp: list_all_iff record_ok_def)

lemma running_reader:
  assumes run: "running crc st x t" and rd: "bt_get (st_readers st) i = Some fd"
    and c: "file_content st fd = log_bytes crc cs" "list_all record_ok cs" and i: "i \<in> log_ids (x @ t)"
  shows "(i, cs) \<in> set (x @ t)"
proof -
  obtain ds where ds: "(i, ds) \<in> set (x @ t)" using i unfolding log_ids_iff by blast
  then have "file_content st fd = log_bytes crc ds" "list_all command_ok ds"
    using running_log [OF run ds] rd by auto
  then have "ds = cs"
    using c log_bytes_inj command_ok_fits command_ok_list by metis
  with ds show ?thesis by simp
qed

text \<open>The abstract store is the map of the log, if every entry of the index is that of the log.\<close>

lemma running_entry:
  assumes run: "running crc st x t" and e: "entry_in_log (x @ t) key e v"
  shows "entry_holds crc st key e v"
proof (rule entry_in_log_bytes [OF e])
  fix i cs assume mem: "(i, cs) \<in> set (x @ t)"
  obtain fd where fd: "bt_get (st_readers st) i = Some fd" "file_content st fd = log_bytes crc cs"
    "list_all command_ok cs" using running_log [OF run mem] by blast
  then show "\<exists>fd tail. bt_get (st_readers st) i = Some fd \<and> file_content st fd = log_bytes crc cs @ tail \<and>
      length (file_content st fd) \<le> MAX_FILE_LEN \<and> list_all command_ok cs"
    using readers_logD(1) [OF runningD(4) [OF run] fd(1)] by auto
qed

lemma running_view:
  assumes run: "running crc st x t"
    and ix: "\<And>key. rel_option (entry_in_log (x @ t) key) (index_lookup (st_index st) key) (m key)"
  shows "store_view crc st = m"
proof
  fix key
  show "store_view crc st key = m key"
    using ix [of key] entry_holds_value [OF running_entry [OF run]]
    by (cases "index_lookup (st_index st) key"; cases "m key") (auto simp: store_view_def)
qed

lemma running_log_view:
  assumes "running crc st x t" and "index_lookup (st_index st) = log_index (x @ t)"
  shows "store_view crc st = log_view (x @ t)"
  using log_index_matches [of "x @ t"] assms(2)
  by (intro running_view [OF assms(1)]) (simp add: index_matches_def)

section \<open>What other threads do\<close>

text \<open>One more command at the end of a log, and perhaps a new active file.\<close>

definition grown :: "command \<Rightarrow> log \<Rightarrow> log \<Rightarrow> bool" where
  "grown cmd t t' \<longleftrightarrow>
     (\<exists>b c cs. t = b @ [(c, cs)] \<and>
        (t' = b @ [(c, cs @ [cmd])] \<or> (\<exists>n > c. t' = b @ [(c, cs @ [cmd]), (n, [])])))"

lemma log_index_snoc:
  "log_index (x @ b @ [(c, cs @ [cmd])]) =
     apply_op (log_index (x @ b @ [(c, cs)])) (record_op c (sum_list (map record_len cs)) cmd)"
  using log_index_append_command [of "x @ b" c cs cmd] by simp

lemma log_index_new_file: "log_index (x @ b @ [(c, cs), (n, [])]) = log_index (x @ b @ [(c, cs)])"
  using log_index_append_file [of "x @ b @ [(c, cs)]" n] by simp

lemma grown_keys:
  assumes "grown cmd t t'"
  shows "log_keys t' = insert (get_key cmd) (log_keys t)" and "log_ids t \<subseteq> log_ids t'"
    and "j \<in> log_ids t' \<Longrightarrow> j \<notin> log_ids t \<Longrightarrow> \<exists>i \<in> log_ids t. i < j"
  using assms by (auto simp: grown_def)

definition tail_pos :: "log \<Rightarrow> nat" where
  "tail_pos t = sum_list (map record_len (snd (last t)))"

lemma grown_index:
  assumes "grown cmd t t'"
  shows "log_index (y @ t') = apply_op (log_index (y @ t)) (record_op (fst (last t)) (tail_pos t) cmd)"
  using assms log_index_snoc log_index_new_file by (auto simp: grown_def tail_pos_def)

lemma grown_view:
  assumes "grown cmd t t'"
  shows "log_view (y @ t') = view_apply cmd (log_view (y @ t))"
  using assms by (auto simp: grown_def log_view_def)

text \<open>What a write of another thread leaves alone.\<close>

definition client_frame :: "store \<Rightarrow> store \<Rightarrow> bool" where
  "client_frame st st' \<longleftrightarrow>
     st_config st' = st_config st \<and> length (os_inodes st) \<le> length (os_inodes st') \<and>
     (\<forall>name e. map_of (os_dir st) name = Some e \<longrightarrow> map_of (os_dir st') name = Some e) \<and>
     (\<forall>name. map_of (os_dir st) name = None \<longrightarrow> map_of (os_dir st') name \<noteq> None \<longrightarrow>
        (\<exists>i > ws_current_file_id (st_writer st). name = data_file_name i)) \<and>
     (\<forall>fd < length (os_inodes st). fd \<noteq> ws_file (st_writer st) \<longrightarrow> file_content st' fd = file_content st fd) \<and>
     (\<forall>i fd. bt_get (st_readers st) i = Some fd \<longrightarrow> bt_get (st_readers st') i = Some fd) \<and>
     (\<forall>i fd. bt_get (st_readers st') i = Some fd \<longrightarrow> bt_get (st_readers st) i = Some fd \<or> length (os_inodes st) \<le> fd)"

lemma client_frameD:
  assumes "client_frame st st'"
  shows "st_config st' = st_config st" and "length (os_inodes st) \<le> length (os_inodes st')"
    and "map_of (os_dir st) name = Some e \<Longrightarrow> map_of (os_dir st') name = Some e"
    and "map_of (os_dir st) name = None \<Longrightarrow> map_of (os_dir st') name \<noteq> None \<Longrightarrow>
      \<exists>i > ws_current_file_id (st_writer st). name = data_file_name i"
    and "fd < length (os_inodes st) \<Longrightarrow> fd \<noteq> ws_file (st_writer st) \<Longrightarrow> file_content st' fd = file_content st fd"
    and "bt_get (st_readers st) i = Some fd \<Longrightarrow> bt_get (st_readers st') i = Some fd"
    and "bt_get (st_readers st') i = Some fd \<Longrightarrow> bt_get (st_readers st) i = Some fd \<or> length (os_inodes st) \<le> fd"
  using assms unfolding client_frame_def by blast+

lemma same_store_frame: "same_store st st' \<Longrightarrow> client_frame st st'"
  by (simp add: same_store_def client_frame_def)

lemma appended_frame: "appended crc cmd st st' \<Longrightarrow> client_frame st st'"
  by (simp add: appended_def client_frame_def Let_def)

lemma rotated_frame:
  assumes inv: "store_inv crc st" and rot: "rotated n st st'" and above: "ws_current_file_id (st_writer st) < n"
  shows "client_frame st st'"
proof -
  let ?fd = "length (os_inodes st)"
  have fresh: "map_of (os_dir st) (data_file_name n) = None" "bt_ok (st_readers st)" "bt_get (st_readers st) n = None"
  proof -
    show "map_of (os_dir st) (data_file_name n) = None" "bt_ok (st_readers st)"
      using inv above by (simp_all add: store_inv_def writer_ok_def readers_ok_def Let_def)
    have "n \<notin> fst ` set (st_readers st)"
      using inv above by (force simp: store_inv_def writer_ok_def Let_def)
    then show "bt_get (st_readers st) n = None" by (simp add: bt_get_def map_of_eq_None_iff)
  qed
  have st': "os_dir st' = os_dir st @ [(data_file_name n, File_Entry ?fd)]"
    "st_readers st' = bt_insert n ?fd (st_readers st)" "st_config st' = st_config st"
    "length (os_inodes st') = Suc ?fd" "\<forall>i < ?fd. file_content st' i = file_content st i"
    using rot by (simp_all add: rotated_def Let_def)
  show ?thesis
    unfolding client_frame_def using st' fresh above
    by (auto simp: bt_get_insert map_of_append_fresh simp del: map_of_append split: if_splits)
qed

lemma client_frame_same:
  assumes "client_frame st st1" and "same_store st1 st2"
  shows "client_frame st st2"
  using assms unfolding client_frame_def same_store_def by simp

lemma client_frame_rotated:
  assumes app: "client_frame st st1" and ids: "ws_current_file_id (st_writer st1) = ws_current_file_id (st_writer st)"
    and same: "length (os_inodes st1) = length (os_inodes st)"
    and rot: "client_frame st1 st2" "\<forall>i < length (os_inodes st1). file_content st2 i = file_content st1 i"
  shows "client_frame st st2"
proof -
  note a = client_frameD [OF app] and r = client_frameD [OF rot(1)]
  show ?thesis
    unfolding client_frame_def
  proof (intro conjI allI impI)
    show "st_config st2 = st_config st" using a(1) r(1) by simp
    show "length (os_inodes st) \<le> length (os_inodes st2)" using a(2) r(2) by simp
    show "map_of (os_dir st2) name = Some e" if "map_of (os_dir st) name = Some e" for name e
      using that by (intro r(3) a(3))
    show "\<exists>i > ws_current_file_id (st_writer st). name = data_file_name i"
      if "map_of (os_dir st) name = None" "map_of (os_dir st2) name \<noteq> None" for name
      using that a(4) [of name] r(4) [of name] ids by (cases "map_of (os_dir st1) name") auto
    show "file_content st2 fd = file_content st fd" if "fd < length (os_inodes st)" "fd \<noteq> ws_file (st_writer st)" for fd
      using that a(5) rot(2) same by simp
    show "bt_get (st_readers st2) i = Some fd" if "bt_get (st_readers st) i = Some fd" for i fd
      using that by (intro r(6) a(6))
    show "bt_get (st_readers st) i = Some fd \<or> length (os_inodes st) \<le> fd" if "bt_get (st_readers st2) i = Some fd" for i fd
      using r(7) [OF that] a(7) [of i fd] same by auto
  qed
qed

lemma readers_log_same: "same_store st st' \<Longrightarrow> readers_log crc st' = readers_log crc st"
  by (simp add: readers_log_def same_store_def)

lemma readers_log_appended:
  assumes log: "readers_log crc st" and app: "appended crc cmd st st'" and cmd: "record_ok cmd"
  shows "readers_log crc st'"
proof -
  let ?fd = "ws_file (st_writer st)"
  have st': "st_readers st' = st_readers st"
    "file_content st' = (file_content st)(?fd := file_content st ?fd @ command_serialize crc cmd)"
    "length (file_content st ?fd) + length (command_serialize crc cmd) \<le> MAX_FILE_LEN"
    using app by (simp_all add: appended_def Let_def)
  have "\<exists>cs. file_content st' fd = log_bytes crc cs \<and> list_all record_ok cs"
    if rd: "bt_get (st_readers st) i = Some fd" for i fd
  proof (cases "fd = ?fd")
    case True
    obtain cs where "file_content st fd = log_bytes crc cs" "list_all record_ok cs"
      using readers_logD(2) [OF log rd] by blast
    with True cmd show ?thesis by (intro exI [of _ "cs @ [cmd]"]) (simp add: st'(2))
  next
    case False
    with readers_logD(2) [OF log rd] show ?thesis by (simp add: st'(2))
  qed
  moreover have "length (file_content st' fd) \<le> MAX_FILE_LEN" if "bt_get (st_readers st) i = Some fd" for i fd
    using readers_logD(1) [OF log that] st'(3) by (simp add: st'(2))
  ultimately show ?thesis
    unfolding readers_log_def st'(1) using readers_logD(3) [OF log] by blast
qed

lemma readers_log_rotated:
  assumes inv: "store_inv crc st" and log: "readers_log crc st" and rot: "rotated n st st'"
  shows "readers_log crc st'"
proof -
  let ?fd = "length (os_inodes st)"
  have st': "bt_get (st_readers st') = (bt_get (st_readers st))(n \<mapsto> ?fd)"
    "\<And>fd. fd < ?fd \<Longrightarrow> file_content st' fd = file_content st fd" "file_content st' ?fd = []"
    using rot inv by (simp_all add: rotated_def Let_def bt_get_insert store_inv_def readers_ok_def)
  have old: "fd < ?fd" if "bt_get (st_readers st) i = Some fd" for i fd
    using inv that readers_ok_fd by (auto simp: store_inv_def)
  show ?thesis
    unfolding readers_log_def
  proof (intro allI impI conjI)
    fix i fd assume i: "bt_get (st_readers st') i = Some fd"
    have new: "fd = ?fd" if "i = n" using i that st'(1) by simp
    have older: "bt_get (st_readers st) i = Some fd" "fd < ?fd" if "i \<noteq> n"
      using i that st'(1) old by auto
    show "length (file_content st' fd) \<le> MAX_FILE_LEN"
      using new older st' readers_logD(1) [OF log, of i fd] by (cases "i = n") auto
    show "\<exists>cs. file_content st' fd = log_bytes crc cs \<and> list_all record_ok cs"
    proof (cases "i = n")
      case True
      then show ?thesis using new st'(3) by (intro exI [of _ "[]"]) simp
    qed (use older st'(2) readers_logD(2) [OF log, of i fd] in auto)
    fix j assume j: "bt_get (st_readers st') j = Some fd"
    have newj: "fd = ?fd" if "j = n" using j that st'(1) by simp
    have olderj: "bt_get (st_readers st) j = Some fd" "fd < ?fd" if "j \<noteq> n"
      using j that st'(1) old by auto
    show "j = i"
    proof (cases "i = n \<or> j = n")
      case True
      then show ?thesis using new older(2) newj olderj(2) by (cases "i = n"; cases "j = n") simp_all
    next
      case False
      then show ?thesis using older(1) olderj(1) readers_logD(3) [OF log, of i fd j] by blast
    qed
  qed
qed

lemma running_same:
  assumes "same_store st st'"
  shows "running crc st' x t = running crc st x t"
  using assms same_store_calm [OF assms] readers_log_same [OF assms, of crc] log_base_same [OF assms, of crc]
  by (simp add: running_def) (simp add: same_store_def)

lemma store_append_running:
  assumes run: "running crc st x t" and ok: "store_append crc cmd st = (Inr u, st')"
    and cmd: "record_ok cmd" and ids: "ws_current_file_id (st_writer st) \<noteq> - 1"
  shows "\<exists>t'. grown cmd t t' \<and> running crc st' x t' \<and> client_frame st st' \<and>
     index_lookup (st_index st') =
       apply_op (index_lookup (st_index st)) (record_op (fst (last t)) (tail_pos t) cmd)"
proof -
  let ?cur = "ws_current_file_id (st_writer st)"
  obtain b cs where t: "t = b @ [(?cur, cs)]" and base: "log_base crc st (x @ b) cs"
    using run by (auto simp: running_def)
  note D = runningD [OF run]
  from ok obtain st1 where rec: "append_record crc cmd st = (Inr (), st1)"
    and post: "post_write_ops st1 = (Inr u, st')"
    by (auto simp: store_append_def res_iffs)
  note app = append_record_appended [OF D(5) rec]
  have c: "command_ok cmd" using cmd by (simp add: record_ok_def)
  have st1: "ws_current_file_id (st_writer st1) = ?cur" "length (os_inodes st1) = length (os_inodes st)"
    "calm st1" "no_poison (st_index st1)" "\<not> st_writer_poisoned st1"
    using app D(1-3) append_record_no_poison [OF rec] calm_cong [of st1 st]
    by (simp_all add: appended_def Let_def)
  have base1: "log_base crc st1 (x @ b) (cs @ [cmd])" by (rule log_base_appended [OF base app c])
  note rl1 = readers_log_appended [OF D(4) app cmd]
  have run1: "running crc st1 x (b @ [(?cur, cs @ [cmd])])"
    using st1 base1 rl1 by (simp add: running_def)
  have ix: "index_lookup (st_index st1) =
      apply_op (index_lookup (st_index st)) (record_op (fst (last t)) (tail_pos t) cmd)"
    using appended_index [OF base app] by (simp add: t tail_pos_def)
  have ids1: "ws_current_file_id (st_writer st1) \<noteq> - 1" using ids st1(1) by simp
  from log_baseD(1) [OF base1] ids1 post show ?thesis
  proof (cases rule: post_write_ops_steps)
    case (1 s)
    then show ?thesis
      using run1 ix client_frame_same [OF appended_frame [OF app]] running_same [of st1 s crc x]
      by (intro exI [of _ "b @ [(?cur, cs @ [cmd])]"]) (auto simp: grown_def t same_store_def)
  next
    case (2 s)
    let ?n = "ws_current_file_id (st_writer st1) + 1"
    have above: "?cur < ?n" using ids st1(1) by (simp add: u64_less_inc)
    have runs: "running crc s x (b @ [(?cur, cs @ [cmd])])" using run1 running_same [OF 2(1)] by simp
    then have bases: "log_base crc s (x @ b) (cs @ [cmd])" and rls: "readers_log crc s"
      using 2(1) st1(1) by (auto simp: running_def same_store_def)
    have ids': "ws_current_file_id (st_writer s) = ?cur" "length (os_inodes s) = length (os_inodes st)"
      using 2(1) st1 by (simp_all add: same_store_def)
    have rot: "length (os_inodes s) = length (os_inodes s)" "st_index st' = st_index s"
      "ws_current_file_id (st_writer st') = ?n" "os_faults st' = os_faults s" "os_clock st' = os_clock s"
      "st_writer_poisoned st' = st_writer_poisoned s" "\<forall>i < length (os_inodes s). file_content st' i = file_content s i"
      using 2(2) by (simp_all add: rotated_def Let_def)
    have "log_base crc st' ((x @ b) @ [(?cur, cs @ [cmd])]) []"
      using log_base_rotated [OF bases 2(2)] ids' above by simp
    moreover have "readers_log crc st'" by (rule readers_log_rotated [OF runningD(5) [OF runs] rls 2(2)])
    ultimately have "running crc st' x (b @ [(?cur, cs @ [cmd]), (?n, [])])"
      using rot runningD(1-3) [OF runs] calm_cong [of st' s] by (simp add: running_def)
    moreover have "grown cmd t (b @ [(?cur, cs @ [cmd]), (?n, [])])" using above by (auto simp: grown_def t)
    moreover have "client_frame s st'"
      using rotated_frame [OF runningD(5) [OF runs] 2(2)] ids' above by simp
    then have "client_frame st st'"
      using client_frame_rotated [OF client_frame_same [OF appended_frame [OF app] 2(1)] ids'] rot(7) by blast
    moreover have "st_index s = st_index st1" using 2(1) by (simp add: same_store_def)
    ultimately show ?thesis using ix rot(2) by (intro exI [of _ "b @ [(?cur, cs @ [cmd]), (?n, [])]"]) simp
  qed
qed

end
