(* ===== verification/Merge_Copy.thy ===== *)
theory Merge_Copy
  imports Merge_Inv
begin

text \<open>
  The copying phase of a compaction: what holds of the output and of the pending updates, and that
  opening an output, copying a record, and the writes of other threads keep it.
\<close>

section \<open>File operations that the log does not notice\<close>

lemma running_frame:
  assumes run: "running crc st x t"
    and st': "st_index st' = st_index st" "st_readers st' = st_readers st" "st_writer st' = st_writer st"
      "st_writer_poisoned st' = st_writer_poisoned st" "calm st'" "dir_wf st'"
      "length (os_inodes st) \<le> length (os_inodes st')"
    and data: "\<And>i. map_of (os_dir st') (data_file_name i) = map_of (os_dir st) (data_file_name i)"
    and hint: "\<And>i. i \<in> log_ids (x @ t) \<or> ws_current_file_id (st_writer st) \<le> i \<Longrightarrow>
      map_of (os_dir st') (hint_file_name i) = map_of (os_dir st) (hint_file_name i)"
    and names: "\<And>name entry. (name, entry) \<in> set (os_dir st') \<Longrightarrow>
      (name, entry) \<in> set (os_dir st) \<or> get_file_id name = None"
    and rd: "\<And>i fd. bt_get (st_readers st) i = Some fd \<Longrightarrow> file_content st' fd = file_content st fd"
    and hc: "\<And>i fd. map_of (os_dir st) (hint_file_name i) = Some (File_Entry fd) \<Longrightarrow> i \<in> log_ids (x @ t) \<Longrightarrow>
      file_content st' fd = file_content st fd"
  shows "running crc st' x t"
proof -
  let ?w = "st_writer st" and ?cur = "ws_current_file_id (st_writer st)"
  note D = runningD [OF run]
  obtain b cs where t: "t = b @ [(?cur, cs)]" and base: "log_base crc st (x @ b) cs"
    using run by (auto simp: running_def)
  note log = log_baseD(2) [OF base]
  have "extends st st'" using rd by (simp add: extends_def st'(2))
  then have "entries_ok crc st'"
    using extends_view [of crc st st'] D(5) st'(1) by (simp add: store_inv_def)
  moreover have "writer_ok st'"
  proof -
    have w: "writer_ok st" using D(5) by (simp add: store_inv_def)
    then have "bt_get (st_readers st) ?cur = Some (ws_file ?w)" by (simp add: writer_ok_def Let_def)
    from rd [OF this] w show ?thesis by (simp add: writer_ok_def Let_def st'(2,3) data)
  qed
  moreover have "readers_ok st'" using D(8) st'(2,7) by (fastforce simp: readers_ok_def)
  ultimately have inv: "store_inv crc st'" using D(7) st'(1) by (simp add: store_inv_def)
  have same: "file_ok st' i bs" if "file_ok st i bs" for i bs
    using that log_baseD(4) [OF base] rd data st'(7) by (fastforce simp: file_ok_def)
  have "disk_log crc st' (x @ b) ?cur cs []"
  proof (rule disk_logI)
    show "distinct (map fst (os_dir st'))" using st'(6) by (rule dir_wfD)
    show "sorted_wrt (<) (map fst (x @ b) @ [?cur])" by (rule disk_logD(2) [OF log])
    show "list_all command_ok ds" if "(i, ds) \<in> set (x @ b)" for i ds using that by (rule disk_logD(3) [OF log])
    show "file_ok st' i (log_bytes crc ds)" if "(i, ds) \<in> set (x @ b)" for i ds
      using disk_logD(4) [OF log that] by (rule same)
    show "hint_ok crc st' i ds" if m: "(i, ds) \<in> set (x @ b)" for i ds
    proof -
      have "i \<in> log_ids (x @ t)" using m t unfolding log_ids_iff by auto
      then show ?thesis using disk_logD(5) [OF log m] hint [of i] hc [of i] by (subst hint_ok_cong [of _ _ st]) auto
    qed
    show "list_all command_ok cs" by (rule disk_logD(6) [OF log])
    show "file_ok st' ?cur (log_bytes crc cs @ [])" using disk_logD(7) [OF log] by (rule same)
    show "i \<in> set (map fst (x @ b) @ [?cur])" if "map_of (os_dir st') (data_file_name i) \<noteq> None" for i
      using disk_logD(8) [OF log, of i] that data by simp
    show "name = data_file_name i" if "(name, entry) \<in> set (os_dir st')" "scan_file name entry = Some (i, fd)"
      for name entry i fd
      using names [OF that(1)] that(2) disk_logD(9) [OF log, of name entry i fd]
      by (auto simp: scan_file_def split: dir_entry.splits if_splits)
  qed
  then have "log_base crc st' (x @ b) cs"
    using inv st'(6)
  proof (intro log_baseI [where cur = ?cur])
    show "bt_get (st_readers st') i = Some fd" if "map_of (os_dir st') (data_file_name i) = Some (File_Entry fd)" for i fd
      using that log_baseD(4) [OF base, of i fd] by (simp add: data st'(2))
    show "map_of (os_dir st') (hint_file_name i) = None" if "?cur \<le> i" for i
      using that log_baseD(5) [OF base, of i] hint [of i] by simp
  qed (simp_all add: st'(3))
  moreover have "readers_log crc st'" using D(4) rd unfolding readers_log_def st'(2) by metis
  ultimately show ?thesis using D(1-3) st' t by (auto simp: running_def)
qed

section \<open>The output and the pending updates\<close>

definition pending_ops :: "pending_update list \<Rightarrow> keydir_op list" where
  "pending_ops ps = map (\<lambda>p. Keydir_Put (pu_key p) (pu_new p)) ps"

definition pending_entries :: "pending_update list \<Rightarrow> (bytes \<times> index_value) list" where
  "pending_entries ps = map (\<lambda>p. (pu_key p, pu_new p)) ps"

definition prev_pos :: "pending_update \<Rightarrow> u64 \<times> u64" where
  "prev_pos p = (iv_file_id (pu_previous_value p), iv_offset (pu_previous_value p))"

text \<open>The output holds the records \<open>cs\<close>, and its hints are the new entries of the pending updates.\<close>

definition out_ok ::
  "(bytes \<Rightarrow> u32) \<Rightarrow> store \<Rightarrow> merge_output \<Rightarrow> pending_update list \<Rightarrow> command list \<Rightarrow> bool" where
  "out_ok crc st out ps cs \<longleftrightarrow>
     out_open st out \<and>
     map_of (os_dir st) (data_file_name_compaction (mo_id out)) = Some (File_Entry (bw_file (mo_data out))) \<and>
     map_of (os_dir st) (hint_file_name (mo_id out)) = Some (File_Entry (bw_file (mo_hint out))) \<and>
     (\<forall>i fd. bt_get (st_readers st) i = Some fd \<longrightarrow> fd \<notin> out_files out) \<and>
     out_data st out = log_bytes crc cs \<and> out_hint st out = hint_bytes crc (pending_entries ps) \<and>
     pending_ops ps = data_ops (mo_id out) 0 cs \<and> list_all record_ok cs \<and>
     mo_written out = of_nat (length (log_bytes crc cs))"

text \<open>
  The records of the output are copies of live records: unless \<open>t\<close> decides about its key, the
  entry of \<open>x\<close> is at the place that the update remembers, and its value is the copied one.
\<close>

definition copy_of :: "log \<Rightarrow> log \<Rightarrow> pending_update \<Rightarrow> command \<Rightarrow> bool" where
  "copy_of x t p c \<longleftrightarrow>
     (\<exists>ts v. c = Command_Set ts (pu_key p) v \<and>
        (pu_key p \<notin> log_keys t \<longrightarrow>
           points_at (fst (prev_pos p)) (snd (prev_pos p)) (log_index x (pu_key p)) \<and>
           log_view x (pu_key p) = Some v))"

definition copied :: "log \<Rightarrow> log \<Rightarrow> pending_update list \<Rightarrow> command list \<Rightarrow> bool" where
  "copied x t ps cs \<longleftrightarrow> distinct (map prev_pos ps) \<and> list_all2 (copy_of x t) ps cs"

lemma list_all2_in_set1: "list_all2 P xs ys \<Longrightarrow> x \<in> set xs \<Longrightarrow> \<exists>y \<in> set ys. P x y"
  by (induction rule: list_all2_induct) auto

lemma list_all2_in_set2: "list_all2 P xs ys \<Longrightarrow> y \<in> set ys \<Longrightarrow> \<exists>x \<in> set xs. P x y"
  by (induction rule: list_all2_induct) auto

lemma copied_grown:
  assumes "copied x t ps cs" and "log_keys t \<subseteq> log_keys t'"
  shows "copied x t' ps cs"
proof -
  have "copy_of x t' p c" if "copy_of x t p c" for p c
    using that subsetD [OF assms(2)] unfolding copy_of_def by blast
  then show ?thesis using assms(1) unfolding copied_def by (blast intro: list_all2_mono)
qed

lemma copied_copies:
  assumes "copied x t ps cs"
  shows "copies x t cs"
  unfolding copies_def
proof
  fix c assume c: "c \<in> set cs"
  have l: "list_all2 (copy_of x t) ps cs" using assms by (simp add: copied_def)
  obtain p where "copy_of x t p c" using list_all2_in_set2 [OF l c] by blast
  then show "\<exists>ts key v. c = Command_Set ts key v \<and> (key \<notin> log_keys t \<longrightarrow> log_view x key = Some v)"
    unfolding copy_of_def by blast
qed

lemma hint_bytes_length:
  "list_all2 (copy_of x t) ps cs \<Longrightarrow> length (hint_bytes crc (pending_entries ps)) \<le> 2 * length (log_bytes crc cs)"
proof (induction rule: list_all2_induct)
  case (Cons p ps c cs)
  then obtain ts v where c: "c = Command_Set ts (pu_key p) v" by (auto simp: copy_of_def)
  have "length (iv_serialize crc (pu_new p) (pu_key p)) \<le> 2 * length (command_serialize crc c)"
    by (simp add: c iv_serialize_layout hint_tail_def HEADER_LEN_def)
  with Cons show ?case by (simp add: hint_bytes_def pending_entries_def)
qed (simp add: hint_bytes_def pending_entries_def)

lemma apply_pending_ops:
  assumes "p \<in> set ps" and "\<And>q. q \<in> set ps \<Longrightarrow> pu_key q = pu_key p \<Longrightarrow> pu_new q = pu_new p"
  shows "foldl apply_op m (pending_ops ps) (pu_key p) = Some (pu_new p)"
  using assms
proof (induction ps rule: rev_induct)
  case (snoc q ps)
  show ?case
  proof (cases "pu_key q = pu_key p")
    case True
    then have "pu_new q = pu_new p" using snoc.prems(2) [of q] by simp
    with True show ?thesis by (simp add: pending_ops_def)
  next
    case False
    then have "p \<in> set ps" using snoc.prems(1) by auto
    moreover have "pu_new r = pu_new p" if "r \<in> set ps" "pu_key r = pu_key p" for r
      using snoc.prems(2) [of r] that by simp
    ultimately have "foldl apply_op m (pending_ops ps) (pu_key p) = Some (pu_new p)" by (rule snoc.IH)
    with False show ?thesis by (simp add: pending_ops_def)
  qed
qed simp

lemma points_at_unique: "points_at (fst a) (snd a) e \<Longrightarrow> points_at (fst b) (snd b) e \<Longrightarrow> a = b"
  by (cases e) (auto simp: points_at_def prod_eq_iff)

text \<open>Once the output is part of the log, the log's entry of a copied key is the new entry.\<close>

lemma copied_new_entry:
  assumes cp: "copied x t ps cs" and ops: "pending_ops ps = data_ops i 0 cs"
    and p: "p \<in> set ps" "pu_key p \<notin> log_keys t"
  shows "log_index (x @ [(i, cs)]) (pu_key p) = Some (pu_new p)"
    and "points_at (fst (prev_pos p)) (snd (prev_pos p)) (log_index x (pu_key p))"
proof -
  have pt: "points_at (fst (prev_pos q)) (snd (prev_pos q)) (log_index x (pu_key q))"
    if q: "q \<in> set ps" "pu_key q = pu_key p" for q
  proof -
    have l: "list_all2 (copy_of x t) ps cs" using cp by (simp add: copied_def)
    obtain c where "copy_of x t q c" using list_all2_in_set1 [OF l q(1)] by blast
    then show ?thesis using q(2) p(2) by (simp add: copy_of_def) blast
  qed
  show "points_at (fst (prev_pos p)) (snd (prev_pos p)) (log_index x (pu_key p))" by (rule pt [OF p(1) refl])
  have "q = p" if "q \<in> set ps" "pu_key q = pu_key p" for q
  proof -
    have eq: "prev_pos q = prev_pos p"
      using pt [OF that] pt [OF p(1) refl] unfolding that(2) by (rule points_at_unique)
    have "inj_on prev_pos (set ps)" using cp by (simp add: copied_def distinct_map)
    then show ?thesis using eq that(1) p(1) by (rule inj_onD)
  qed
  then have "foldl apply_op Map.empty (pending_ops ps) (pu_key p) = Some (pu_new p)"
    using p(1) by (intro apply_pending_ops) auto
  then have new: "log_index [(i, cs)] (pu_key p) = Some (pu_new p)" by (simp add: log_index_def ops)
  then have "pu_key p \<in> log_keys [(i, cs)]" using log_index_None [of "pu_key p" "[(i, cs)]"] by fastforce
  then show "log_index (x @ [(i, cs)]) (pu_key p) = Some (pu_new p)" using new log_index_append [of x "[(i, cs)]"] by simp
qed

lemma out_ok_frame:
  assumes ok: "out_ok crc st out ps cs"
    and len: "length (os_inodes st) \<le> length (os_inodes st')"
    and dir: "\<And>name e. map_of (os_dir st) name = Some e \<Longrightarrow> map_of (os_dir st') name = Some e"
    and c: "\<And>fd. fd \<in> out_files out \<Longrightarrow> file_content st' fd = file_content st fd"
    and rd: "\<And>i fd. bt_get (st_readers st') i = Some fd \<Longrightarrow> bt_get (st_readers st) i = Some fd \<or> length (os_inodes st) \<le> fd"
  shows "out_ok crc st' out ps cs"
proof -
  have "out_open st' out" using ok len by (simp add: out_ok_def out_open_def)
  moreover have "out_data st' out = out_data st out" "out_hint st' out = out_hint st out"
    using c by (simp_all add: out_data_def out_hint_def out_files_def)
  moreover have "fd \<notin> out_files out" if "bt_get (st_readers st') i = Some fd" for i fd
    using rd [OF that] ok by (auto simp: out_ok_def out_open_def out_files_def)
  ultimately show ?thesis using ok dir unfolding out_ok_def by simp
qed

end
