(* ===== verification/Merge_Step.thy ===== *)
theory Merge_Step
  imports Merge_Copy
begin

text \<open>
  The invariant of the copying phase, kept by the writes of other threads, by opening an output and
  by every record that is read.
\<close>

section \<open>The invariant\<close>

text \<open>
  The bytes that may still be copied, with those already in the output, last for fewer outputs than
  there are reserved ids, since an output is only closed when it is full.
\<close>

definition merge_limit :: nat where
  "merge_limit = 2 ^ 60"

definition output_part ::
  "(bytes \<Rightarrow> u32) \<Rightarrow> u64 \<Rightarrow> store \<Rightarrow> log \<Rightarrow> log \<Rightarrow> merge_state \<Rightarrow> nat \<Rightarrow> bool" where
  "output_part crc nxt st x t ms left \<longleftrightarrow>
     (let thr = unat (cfg_file_size_threshold (st_config st)); n = unat (ms_next_id ms) in
      case ms_output ms of
        None \<Rightarrow> ms_pending ms = [] \<and> left < thr * (unat nxt - 2 - n) \<and> left \<le> merge_limit
      | Some out \<Rightarrow>
          mo_id out = ms_next_id ms \<and> (\<forall>i \<in> log_ids x. i < mo_id out) \<and> mo_id out < nxt \<and>
          (\<exists>cs. out_ok crc st out (ms_pending ms) cs \<and> copied x t (ms_pending ms) cs \<and>
             length (log_bytes crc cs) + left < thr * (unat nxt - 1 - n) \<and>
             length (log_bytes crc cs) + left \<le> merge_limit))"

lemma output_Some:
  assumes "output_part crc nxt st x t ms left" and "ms_output ms = Some out"
  shows "mo_id out = ms_next_id ms" and "i \<in> log_ids x \<Longrightarrow> i < mo_id out" and "mo_id out < nxt"
    and "\<exists>cs. out_ok crc st out (ms_pending ms) cs \<and> copied x t (ms_pending ms) cs \<and>
      length (log_bytes crc cs) + left <
        unat (cfg_file_size_threshold (st_config st)) * (unat nxt - 1 - unat (ms_next_id ms)) \<and>
      length (log_bytes crc cs) + left \<le> merge_limit"
proof -
  have "mo_id out = ms_next_id ms \<and> (\<forall>i \<in> log_ids x. i < mo_id out) \<and> mo_id out < nxt \<and>
    (\<exists>cs. out_ok crc st out (ms_pending ms) cs \<and> copied x t (ms_pending ms) cs \<and>
      length (log_bytes crc cs) + left <
        unat (cfg_file_size_threshold (st_config st)) * (unat nxt - 1 - unat (ms_next_id ms)) \<and>
      length (log_bytes crc cs) + left \<le> merge_limit)" (is "?a \<and> ?b \<and> ?c \<and> ?d")
    using assms(1) unfolding output_part_def Let_def assms(2) option.case .
  then show "mo_id out = ms_next_id ms" "i \<in> log_ids x \<Longrightarrow> i < mo_id out" "mo_id out < nxt" ?d by blast+
qed

text \<open>
  \<open>processed e\<close> says that the record of an entry has been read. An entry of the log whose record has
  been read belongs to a key with a pending update.
\<close>

definition merge_core ::
  "(bytes \<Rightarrow> u32) \<Rightarrow> u64 \<Rightarrow> u64 \<Rightarrow> store \<Rightarrow> log \<Rightarrow> log \<Rightarrow> merge_state \<Rightarrow> nat \<Rightarrow> (index_value \<Rightarrow> bool) \<Rightarrow> bool" where
  "merge_core crc first nxt st x t ms left processed \<longleftrightarrow>
     running crc st x t \<and> index_lookup (st_index st) = log_index (x @ t) \<and>
     first < nxt \<and> first \<le> ms_next_id ms \<and>
     (\<forall>i \<in> log_ids x. i \<le> ms_next_id ms) \<and> (\<forall>i \<in> log_ids t. nxt \<le> i) \<and>
     (\<forall>i > ms_next_id ms. map_of (os_dir st) (data_file_name_compaction i) = None \<and>
                          map_of (os_dir st) (hint_file_name i) = None) \<and>
     (\<forall>e. processed e \<longrightarrow> iv_file_id e \<le> first) \<and>
     (\<forall>key e. log_index (x @ t) key = Some e \<longrightarrow> processed e \<longrightarrow> key \<in> pu_key ` set (ms_pending ms)) \<and>
     (\<forall>p \<in> set (ms_pending ms). processed (pu_previous_value p)) \<and>
     output_part crc nxt st x t ms left \<and> first \<in> log_ids x"

lemma merge_coreD:
  assumes "merge_core crc first nxt st x t ms left processed"
  shows "running crc st x t" and "index_lookup (st_index st) = log_index (x @ t)"
    and "first < nxt" and "first \<le> ms_next_id ms"
    and "i \<in> log_ids x \<Longrightarrow> i \<le> ms_next_id ms" and "i \<in> log_ids t \<Longrightarrow> nxt \<le> i"
    and "ms_next_id ms < i \<Longrightarrow> map_of (os_dir st) (data_file_name_compaction i) = None"
    and "ms_next_id ms < i \<Longrightarrow> map_of (os_dir st) (hint_file_name i) = None"
    and "processed e \<Longrightarrow> iv_file_id e \<le> first"
    and "log_index (x @ t) key = Some e \<Longrightarrow> processed e \<Longrightarrow> key \<in> pu_key ` set (ms_pending ms)"
    and "p \<in> set (ms_pending ms) \<Longrightarrow> processed (pu_previous_value p)"
    and "output_part crc nxt st x t ms left" and "first \<in> log_ids x"
  using assms unfolding merge_core_def by blast+

lemma merge_coreI:
  assumes "running crc st x t" and "index_lookup (st_index st) = log_index (x @ t)"
    and "first < nxt" and "first \<le> ms_next_id ms"
    and "\<And>i. i \<in> log_ids x \<Longrightarrow> i \<le> ms_next_id ms" and "\<And>i. i \<in> log_ids t \<Longrightarrow> nxt \<le> i"
    and "\<And>i. ms_next_id ms < i \<Longrightarrow> map_of (os_dir st) (data_file_name_compaction i) = None"
    and "\<And>i. ms_next_id ms < i \<Longrightarrow> map_of (os_dir st) (hint_file_name i) = None"
    and "\<And>e. processed e \<Longrightarrow> iv_file_id e \<le> first"
    and "\<And>key e. log_index (x @ t) key = Some e \<Longrightarrow> processed e \<Longrightarrow> key \<in> pu_key ` set (ms_pending ms)"
    and "\<And>p. p \<in> set (ms_pending ms) \<Longrightarrow> processed (pu_previous_value p)"
    and "output_part crc nxt st x t ms left" and "first \<in> log_ids x"
  shows "merge_core crc first nxt st x t ms left processed"
  unfolding merge_core_def using assms by blast

section \<open>Other threads\<close>

text \<open>What the store looks like after a write of another thread.\<close>

definition client_did :: "(bytes \<Rightarrow> u32) \<Rightarrow> command \<Rightarrow> store \<Rightarrow> store \<Rightarrow> log \<Rightarrow> log \<Rightarrow> log \<Rightarrow> bool" where
  "client_did crc cmd st st' x t t' \<longleftrightarrow>
     grown cmd t t' \<and> running crc st' x t' \<and> client_frame st st' \<and>
     index_lookup (st_index st') =
       apply_op (index_lookup (st_index st)) (record_op (fst (last t)) (tail_pos t) cmd)"

lemma grown_last: "grown cmd t t' \<Longrightarrow> fst (last t) \<in> log_ids t"
  by (auto simp: grown_def)

lemma grown_entry:
  assumes "grown cmd t t'" and "log_index (y @ t') key = Some e" and "iv_file_id e \<notin> log_ids t"
  shows "log_index (y @ t) key = Some e"
  using assms(2,3) grown_last [OF assms(1)] unfolding grown_index [OF assms(1)]
  by (cases cmd) (auto split: if_splits)

lemma out_ok_client:
  assumes run: "running crc st x t" and ok: "out_ok crc st out ps cs" and fr: "client_frame st st'"
  shows "out_ok crc st' out ps cs"
proof (rule out_ok_frame [OF ok])
  note F = client_frameD [OF fr]
  have "bt_get (st_readers st) (ws_current_file_id (st_writer st)) = Some (ws_file (st_writer st))"
    using runningD(5) [OF run] by (simp add: store_inv_def writer_ok_def Let_def)
  then have "ws_file (st_writer st) \<notin> out_files out" using ok by (simp add: out_ok_def)
  then show "file_content st' fd = file_content st fd" if "fd \<in> out_files out" for fd
    using that ok by (intro F(5)) (auto simp: out_ok_def out_open_def out_files_def)
qed (use client_frameD [OF fr] in blast)+

lemma output_part_client:
  assumes run: "running crc st x t" and o: "output_part crc nxt st x t ms left"
    and fr: "client_frame st st'" and keys: "log_keys t \<subseteq> log_keys t'"
  shows "output_part crc nxt st' x t' ms left"
  using o out_ok_client [OF run _ fr] copied_grown [OF _ keys] client_frameD(1) [OF fr]
  unfolding output_part_def Let_def by (fastforce split: option.splits)

lemma merge_core_frame:
  assumes core: "merge_core crc first nxt st x t ms left processed"
    and fr: "client_frame st st'" and run: "running crc st' x t'"
    and ix: "index_lookup (st_index st') = log_index (x @ t')"
    and keys: "log_keys t \<subseteq> log_keys t'" and ids: "\<And>i. i \<in> log_ids t' \<Longrightarrow> nxt \<le> i"
    and old: "\<And>key e. log_index (x @ t') key = Some e \<Longrightarrow> iv_file_id e \<le> first \<Longrightarrow> log_index (x @ t) key = Some e"
  shows "merge_core crc first nxt st' x t' ms left processed"
proof (rule merge_coreI [OF run ix merge_coreD(3,4) [OF core]])
  note F = client_frameD [OF fr]
  show "map_of (os_dir st') (data_file_name_compaction i) = None"
    "map_of (os_dir st') (hint_file_name i) = None" if "ms_next_id ms < i" for i
    using merge_coreD(7,8) [OF core that] F(4) file_names_distinct by metis+
  show "key \<in> pu_key ` set (ms_pending ms)" if "log_index (x @ t') key = Some e" "processed e" for key e
    using old [OF that(1) merge_coreD(9) [OF core that(2)]] that(2) by (rule merge_coreD(10) [OF core])
  show "output_part crc nxt st' x t' ms left"
    by (rule output_part_client [OF merge_coreD(1,12) [OF core] fr keys])
qed (use merge_coreD [OF core] ids in blast)+

lemma merge_core_same:
  assumes core: "merge_core crc first nxt st x t ms left processed" and same: "same_store st st'"
  shows "merge_core crc first nxt st' x t ms left processed"
  using merge_coreD(1,2,6) [OF core] running_same [OF same] same
  by (intro merge_core_frame [OF core same_store_frame [OF same]]) (simp_all add: same_store_def)

lemma merge_core_client:
  assumes core: "merge_core crc first nxt st x t ms left processed" and did: "client_did crc cmd st st' x t t'"
  shows "merge_core crc first nxt st' x t' ms left processed"
proof -
  have g: "grown cmd t t'" using did by (simp add: client_did_def)
  have nxt: "nxt \<le> i" if "i \<in> log_ids t" for i using merge_coreD(6) [OF core that] .
  show ?thesis
  proof (rule merge_core_frame [OF core])
    show "client_frame st st'" "running crc st' x t'" using did by (simp_all add: client_did_def)
    show "index_lookup (st_index st') = log_index (x @ t')"
      using did merge_coreD(2) [OF core] grown_index [OF g] by (simp add: client_did_def)
    show "log_keys t \<subseteq> log_keys t'" using grown_keys(1) [OF g] by auto
    show "nxt \<le> i" if "i \<in> log_ids t'" for i
      using grown_keys(3) [OF g that] nxt by (cases "i \<in> log_ids t") (auto intro: order_trans less_imp_le)
    show "log_index (x @ t) key = Some e" if "log_index (x @ t') key = Some e" "iv_file_id e \<le> first" for key e
      using grown_entry [OF g that(1)] that(2) nxt merge_coreD(3) [OF core] by (meson leD le_less_trans)
  qed
qed

section \<open>Opening an output\<close>

text \<open>What the steps of a compaction leave of the files it reads.\<close>

definition keeps_inputs :: "u64 \<Rightarrow> store \<Rightarrow> store \<Rightarrow> bool" where
  "keeps_inputs first st st' \<longleftrightarrow>
     (\<forall>i fd. bt_get (st_readers st) i = Some fd \<longrightarrow> i \<le> first \<longrightarrow>
        bt_get (st_readers st') i = Some fd \<and> file_content st' fd = file_content st fd)"

lemma keeps_inputs_client:
  assumes run: "running crc st x t" and fr: "client_frame st st'"
    and first: "first < ws_current_file_id (st_writer st)"
  shows "keeps_inputs first st st'"
  unfolding keeps_inputs_def
proof (intro allI impI conjI)
  fix i fd assume i: "bt_get (st_readers st) i = Some fd" "i \<le> first"
  show "bt_get (st_readers st') i = Some fd" using i(1) by (rule client_frameD(6) [OF fr])
  have w: "bt_get (st_readers st) (ws_current_file_id (st_writer st)) = Some (ws_file (st_writer st))"
    using runningD(5) [OF run] by (simp add: store_inv_def writer_ok_def Let_def)
  then have "fd \<noteq> ws_file (st_writer st)" using readers_logD(3) [OF runningD(4) [OF run] w, of i] i first by auto
  moreover have "fd < length (os_inodes st)" using readers_ok_fd [OF runningD(8) [OF run] i(1)] .
  ultimately show "file_content st' fd = file_content st fd" using client_frameD(5) [OF fr] by blast
qed

lemma dir_wf_two:
  assumes wf: "dir_wf st" and a: "map_of (os_dir st) a = None" and b: "map_of (os_dir st) b = None" and ab: "a \<noteq> b"
    and st': "os_dir st' = os_dir st @ [(a, File_Entry (length (os_inodes st))), (b, File_Entry (Suc (length (os_inodes st))))]"
      "length (os_inodes st') = Suc (Suc (length (os_inodes st)))"
  shows "dir_wf st'"
proof -
  define st1 where "st1 = st\<lparr>os_dir := os_dir st @ [(a, File_Entry (length (os_inodes st)))],
    os_inodes := os_inodes st @ [\<lparr>content = [], synced = 0\<rparr>]\<rparr>"
  have "dir_wf st1" by (rule dir_wf_create [OF wf a]) (simp_all add: st1_def)
  then show ?thesis
    by (rule dir_wf_create [where name = b]) (use st' ab b in \<open>simp_all add: st1_def map_add_def\<close>)
qed

lemma merge_slot_core:
  assumes core: "merge_core crc first nxt st x t ms left processed" and none: "ms_output ms = None"
  shows "\<exists>out st'. merge_slot ms st = (Inr (out, ms\<lparr>ms_next_id := ms_next_id ms + 1\<rparr>), st') \<and>
     merge_core crc first nxt st' x t (ms\<lparr>ms_next_id := ms_next_id ms + 1, ms_output := Some out\<rparr>) left processed \<and>
     keeps_inputs first st st' \<and> st_writer st' = st_writer st"
proof -
  let ?i = "ms_next_id ms + 1" and ?d = "length (os_inodes st)"
  let ?thr = "unat (cfg_file_size_threshold (st_config st))"
  note C = merge_coreD [OF core]
  note D = runningD [OF C(1)]
  have out: "ms_pending ms = []" "left < ?thr * (unat nxt - 2 - unat (ms_next_id ms))" "left \<le> merge_limit"
    using C(12) none by (simp_all add: output_part_def Let_def)
  from out(2) have room: "unat (ms_next_id ms) + 2 < unat nxt"
    by (metis diff_is_0_eq diff_diff_left linorder_not_le mult_0_right not_less_zero add.commute)
  have unat_i: "unat ?i = unat (ms_next_id ms) + 1"
  proof (rule unat_u64_inc)
    have "unat nxt < 2 ^ 64" by (rule unat_u64_bound)
    then show "ms_next_id ms \<noteq> - 1" using room unat_u64_max by auto
  qed
  have i: "ms_next_id ms < ?i" "?i < nxt" using unat_i room by (simp_all add: word_less_nat_alt)
  have fresh: "map_of (os_dir st) (data_file_name_compaction ?i) = None" "map_of (os_dir st) (hint_file_name ?i) = None"
    using C(7,8) [OF i(1)] .
  obtain st' n where op: "merge_open ?i st =
       (Inr \<lparr>mo_id = ?i, mo_data = buf_writer_new ?d, mo_hint = buf_writer_new (Suc ?d), mo_written = 0\<rparr>, st')"
    and st': "st' = st\<lparr>os_ticks := n,
       os_dir := os_dir st @ [(data_file_name_compaction ?i, File_Entry ?d), (hint_file_name ?i, File_Entry (Suc ?d))],
       os_inodes := os_inodes st @ [\<lparr>content = [], synced = 0\<rparr>, \<lparr>content = [], synced = 0\<rparr>]\<rparr>"
    using merge_open_calm [OF D(1) fresh] by blast
  let ?out = "\<lparr>mo_id = ?i, mo_data = buf_writer_new ?d, mo_hint = buf_writer_new (Suc ?d), mo_written = 0\<rparr>"
  have dir: "map_of (os_dir st') name =
      (if name = data_file_name_compaction ?i then Some (File_Entry ?d)
       else if name = hint_file_name ?i then Some (File_Entry (Suc ?d)) else map_of (os_dir st) name)" for name
    using fresh by (simp add: st' map_add_def split: option.split)
  have old: "file_content st' fd = file_content st fd" if "fd < ?d" for fd
    using that by (simp add: st' file_content_def nth_append)
  have rd: "fd < ?d" if "bt_get (st_readers st) j = Some fd" for j fd
    using readers_ok_fd [OF D(8) that] .
  have wf: "dir_wf st'" by (rule dir_wf_two [OF D(6) fresh]) (simp_all add: st')
  have i_fresh: "?i \<notin> log_ids (x @ t)" using C(5,6) i by (auto dest: leD)
  have le_cur: "?i < ws_current_file_id (st_writer st)"
    using C(6) [OF running_ids(3) [OF C(1)]] i(2) by simp
  have run: "running crc st' x t"
  proof (rule running_frame [OF C(1)])
    show "calm st'" using D(1) by (simp add: st' calm_def)
    show "dir_wf st'" by (rule wf)
    show "map_of (os_dir st') (data_file_name j) = map_of (os_dir st) (data_file_name j)" for j by (simp add: dir)
    show "map_of (os_dir st') (hint_file_name j) = map_of (os_dir st) (hint_file_name j)"
      if "j \<in> log_ids (x @ t) \<or> ws_current_file_id (st_writer st) \<le> j" for j
      using that i_fresh le_cur by (auto simp: dir)
    show "(name, entry) \<in> set (os_dir st) \<or> get_file_id name = None" if "(name, entry) \<in> set (os_dir st')" for name entry
      using that by (auto simp: st')
    show "file_content st' fd = file_content st fd" if "bt_get (st_readers st) j = Some fd" for j fd
      using old rd [OF that] by blast
    show "file_content st' fd = file_content st fd" if "map_of (os_dir st) (hint_file_name j) = Some (File_Entry fd)" for j fd
      using old dir_wfD(2) [OF D(6) that] by blast
  qed (simp_all add: st')
  have new: "file_content st' ?d = []" "file_content st' (Suc ?d) = []" "length (os_inodes st') = Suc (Suc ?d)"
    "st_readers st' = st_readers st" by (simp_all add: st' file_content_def nth_append)
  have "fd \<notin> {?d, Suc ?d}" if "bt_get (st_readers st) j = Some fd" for j fd using rd [OF that] by auto
  then have "out_ok crc st' ?out [] []"
    by (simp add: out_ok_def out_open_def out_files_def out_data_def out_hint_def buf_writer_new_def dir
        new pending_ops_def pending_entries_def hint_bytes_def)
  moreover have "left < ?thr * (unat nxt - 1 - unat ?i)" using out(2) unat_i by simp
  ultimately have o: "output_part crc nxt st' x t (ms\<lparr>ms_next_id := ?i, ms_output := Some ?out\<rparr>) left"
    using i C(5) out unfolding output_part_def
    by (auto simp: Let_def st' copied_def intro!: exI [of _ "[]"] dest: le_less_trans)
  have "merge_core crc first nxt st' x t (ms\<lparr>ms_next_id := ?i, ms_output := Some ?out\<rparr>) left processed"
  proof (rule merge_coreI [OF run _ C(3) _ _ _ _ _ C(9) _ _ o])
    show "j \<le> ms_next_id (ms\<lparr>ms_next_id := ?i, ms_output := Some ?out\<rparr>)" if "j \<in> log_ids x" for j
      using C(5) [OF that] i(1) by simp
    show "map_of (os_dir st') (data_file_name_compaction j) = None" "map_of (os_dir st') (hint_file_name j) = None"
      if "ms_next_id (ms\<lparr>ms_next_id := ?i, ms_output := Some ?out\<rparr>) < j" for j
      using that C(7,8) [of j] less_trans [OF i(1), of j] by (auto simp: dir)
  qed (use C(2,4,6,10,11,13) i(1) in \<open>auto simp: st'\<close>)
  moreover have "keeps_inputs first st st'" using old rd by (simp add: keeps_inputs_def st')
  ultimately show ?thesis
    using op none by (intro exI [of _ ?out] exI [of _ st']) (simp add: merge_slot_def st')
qed

section \<open>Reading a record\<close>

definition reads :: "(bytes \<Rightarrow> u32) \<Rightarrow> store \<Rightarrow> u64 \<Rightarrow> command list \<Rightarrow> command list \<Rightarrow> bool" where
  "reads crc st f cs1 cs2 \<longleftrightarrow>
     (\<exists>fd. bt_get (st_readers st) f = Some fd \<and> file_content st fd = log_bytes crc (cs1 @ cs2)) \<and>
     list_all record_ok (cs1 @ cs2)"

definition read_up_to :: "u64 set \<Rightarrow> u64 \<Rightarrow> nat \<Rightarrow> index_value \<Rightarrow> bool" where
  "read_up_to D f n e \<longleftrightarrow> iv_file_id e \<in> D \<or> iv_file_id e = f \<and> unat (iv_offset e) < n"

lemma reads_log:
  assumes run: "running crc st x t" and rd: "reads crc st f cs1 cs2" and e: "log_index (x @ t) key = Some e"
    and f: "iv_file_id e = f"
  shows "\<exists>pre ts v post. cs1 @ cs2 = pre @ Command_Set ts key v # post \<and> log_view (x @ t) key = Some v \<and>
     unat (iv_offset e) = sum_list (map record_len pre)"
proof -
  obtain v i pre ts post where mem: "(i, pre @ Command_Set ts key v # post) \<in> set (x @ t)"
    and e': "e = \<lparr>iv_file_id = i, iv_ts = ts, iv_offset = of_nat (sum_list (map record_len pre)),
             iv_len = of_nat (record_len (Command_Set ts key v))\<rparr>"
    and v: "log_view (x @ t) key = Some v"
    using log_index_entry [OF e] unfolding entry_in_log_def by blast
  obtain fd where fd: "bt_get (st_readers st) f = Some fd" "file_content st fd = log_bytes crc (cs1 @ cs2)"
    "list_all record_ok (cs1 @ cs2)" using rd by (auto simp: reads_def)
  have i: "i = f" using f e' by simp
  then have "f \<in> log_ids (x @ t)" using mem unfolding log_ids_iff by blast
  then have "(f, cs1 @ cs2) \<in> set (x @ t)" by (rule running_reader [OF run fd])
  moreover have "distinct (map fst (x @ t))"
    using running_ids(1) [OF run] by (simp only: strict_sorted_iff)
  ultimately have eq: "cs1 @ cs2 = pre @ Command_Set ts key v # post"
    using mem i by (metis (no_types) eq_key_imp_eq_value)
  have "sum_list (map record_len pre) \<le> length (file_content st fd)"
    by (simp add: fd(2) eq length_log_bytes del: log_bytes_simps)
  then have "sum_list (map record_len pre) < 2 ^ 64"
    using readers_logD(1) [OF runningD(4) [OF run] fd(1)] MAX_FILE_LEN_less by linarith
  then have "unat (iv_offset e) = sum_list (map record_len pre)" by (simp add: e' unat_u64_of_nat)
  with eq v show ?thesis by blast
qed

lemma reads_next:
  assumes run: "running crc st x t" and rd: "reads crc st f cs1 (c # cs2)" and e: "log_index (x @ t) key = Some e"
    and f: "iv_file_id e = f" and off: "unat (iv_offset e) < length (log_bytes crc (cs1 @ [c]))"
  shows "unat (iv_offset e) < length (log_bytes crc cs1) \<or>
     (\<exists>ts v. c = Command_Set ts key v \<and> log_view (x @ t) key = Some v \<and>
        unat (iv_offset e) = length (log_bytes crc cs1))"
proof -
  obtain pre ts v post where eq: "cs1 @ c # cs2 = pre @ Command_Set ts key v # post"
    and v: "log_view (x @ t) key = Some v" and pos: "unat (iv_offset e) = sum_list (map record_len pre)"
    using reads_log [OF run rd e f] by blast
  have "sum_list (map record_len pre) < sum_list (map record_len (cs1 @ [c]))"
    using off by (simp add: pos length_log_bytes del: log_bytes_simps)
  from record_positions(1) [OF eq this] show ?thesis
    using v pos by (auto simp: length_log_bytes)
qed

lemma reads_end:
  assumes run: "running crc st x t" and rd: "reads crc st f cs []" and e: "log_index (x @ t) key = Some e"
    and f: "iv_file_id e = f"
  shows "unat (iv_offset e) < length (log_bytes crc cs)"
proof -
  obtain pre ts v post where eq: "cs @ [] = pre @ Command_Set ts key v # post"
    and pos: "unat (iv_offset e) = sum_list (map record_len pre)"
    using reads_log [OF run rd e f] by blast
  then show ?thesis
    using record_len_pos [of "Command_Set ts key v"] by (simp add: length_log_bytes del: log_bytes_simps)
qed

lemma running_wrote:
  assumes run: "running crc st x t" and ok: "out_ok crc st out ps cs" and i: "mo_id out \<notin> log_ids (x @ t)"
    and w: "wrote (out_files out) st st'"
  shows "running crc st' x t"
proof (rule running_frame [OF run])
  note W = wroteD [OF w]
  have "dir_wf st" by (rule runningD(6) [OF run])
  then show "dir_wf st'" using W(1,2) by (simp add: dir_wf_def)
  show "file_content st' fd = file_content st fd" if "bt_get (st_readers st) j = Some fd" for j fd
    using that ok by (intro W(3)) (simp add: out_ok_def)
  show "file_content st' fd = file_content st fd"
    if h: "map_of (os_dir st) (hint_file_name j) = Some (File_Entry fd)" "j \<in> log_ids (x @ t)" for j fd
  proof (rule W(3))
    have j: "j \<noteq> mo_id out" using h(2) i by auto
    have "hint_file_name j = n" if "map_of (os_dir st) n = Some (File_Entry fd)" for n
      using dir_wfD(3) [OF runningD(6) [OF run] h(1) that] .
    then have "\<not> map_of (os_dir st) (data_file_name_compaction (mo_id out)) = Some (File_Entry fd)"
      "\<not> map_of (os_dir st) (hint_file_name (mo_id out)) = Some (File_Entry fd)"
      using j by fastforce+
    then show "fd \<notin> out_files out" using ok by (auto simp: out_ok_def out_files_def)
  qed
qed (use wroteD [OF w] wrote_store [OF w] runningD(1) [OF run] in auto)

text \<open>A record that is not copied.\<close>

lemma merge_core_skip:
  assumes core: "merge_core crc first nxt st x t ms (n + left) processed"
    and mono: "\<And>e. processed e \<Longrightarrow> processed' e" "\<And>e. processed' e \<Longrightarrow> iv_file_id e \<le> first"
    and new: "\<And>key e. log_index (x @ t) key = Some e \<Longrightarrow> processed' e \<Longrightarrow> \<not> processed e \<Longrightarrow>
      key \<in> pu_key ` set (ms_pending ms)"
  shows "merge_core crc first nxt st x t ms left processed'"
proof -
  note C = merge_coreD [OF core]
  have "output_part crc nxt st x t ms left"
    using C(12) by (fastforce simp: output_part_def Let_def split: option.splits)
  then show ?thesis
    using C mono new by (intro merge_coreI) blast+
qed

lemma merge_core_copy:
  assumes core: "merge_core crc first nxt st x t ms (record_len (Command_Set ts key v) + left) processed"
    and out: "ms_output ms = Some out"
    and p: "p = \<lparr>pu_key = key, pu_previous_value = prev, pu_new =
        \<lparr>iv_file_id = mo_id out, iv_ts = ts, iv_offset = mo_written out,
         iv_len = of_nat (record_len (Command_Set ts key v))\<rparr>\<rparr>"
    and copy: "copy_of x t p (Command_Set ts key v)" and ok: "record_ok (Command_Set ts key v)"
    and mono: "\<And>e. processed e \<Longrightarrow> processed' e" "\<And>e. processed' e \<Longrightarrow> iv_file_id e \<le> first"
    and prev: "processed' prev" "\<And>q. processed (pu_previous_value q) \<Longrightarrow> prev_pos q \<noteq> prev_pos p"
    and new: "\<And>k e. log_index (x @ t) k = Some e \<Longrightarrow> processed' e \<Longrightarrow> \<not> processed e \<Longrightarrow> k = key"
  shows "\<exists>out' st'. merge_append crc (command_serialize crc (Command_Set ts key v)) key ts (out, st) =
       (Inr (pu_new p), out', st') \<and>
     merge_core crc first nxt st' x t (ms\<lparr>ms_output := Some out', ms_pending := ms_pending ms @ [p]\<rparr>) left processed' \<and>
     keeps_inputs first st st' \<and> st_writer st' = st_writer st"
proof -
  let ?c = "Command_Set ts key v" and ?ps = "ms_pending ms"
  let ?bs = "command_serialize crc ?c" and ?thr = "unat (cfg_file_size_threshold (st_config st))"
  note C = merge_coreD [OF core]
  note out' = output_Some(1-3) [OF C(12) out]
  obtain cs where oo: "out_ok crc st out ?ps cs" and cp: "copied x t ?ps cs"
    and size: "length (log_bytes crc cs) + (record_len ?c + left) < ?thr * (unat nxt - 1 - unat (ms_next_id ms))"
      "length (log_bytes crc cs) + (record_len ?c + left) \<le> merge_limit"
    using output_Some(4) [OF C(12) out] by blast
  have "prev_pos p \<notin> set (map prev_pos ?ps)" using prev(2) C(11) by fastforce
  then have cp': "copied x t (?ps @ [p]) (cs @ [?c])"
    using cp copy by (simp add: copied_def list_all2_appendI)
  have len: "length ?bs = record_len ?c" by (rule length_serialize_record)
  have data: "out_data st out = log_bytes crc cs" "out_hint st out = hint_bytes crc (pending_entries ?ps)"
    "mo_written out = of_nat (length (log_bytes crc cs))" "out_open st out"
    "pending_ops ?ps = data_ops (mo_id out) 0 cs" "list_all record_ok cs"
    using oo by (simp_all add: out_ok_def)
  have hint: "hint_bytes crc (pending_entries (?ps @ [p])) =
      hint_bytes crc (pending_entries ?ps) @ iv_serialize crc (pu_new p) key"
    by (simp add: hint_bytes_def pending_entries_def p)
  have "length (hint_bytes crc (pending_entries (?ps @ [p]))) \<le> 2 * length (log_bytes crc (cs @ [?c]))"
    using cp' by (intro hint_bytes_length [of x t]) (simp add: copied_def)
  also have "\<dots> \<le> 2 * merge_limit" using size(2) by (simp add: record_len_def)
  finally have room_h: "length (out_hint st out @ iv_serialize crc (pu_new p) key) \<le> MAX_FILE_LEN"
    by (simp add: data hint [symmetric] merge_limit_def MAX_FILE_LEN_def)
  have room_d: "length (out_data st out @ ?bs) \<le> MAX_FILE_LEN"
    using size(2) by (simp add: data len merge_limit_def MAX_FILE_LEN_def del: length_command_serialize)
  have iv: "pu_new p = \<lparr>iv_file_id = mo_id out, iv_ts = ts, iv_offset = mo_written out, iv_len = of_nat (length ?bs)\<rparr>"
    unfolding len by (simp add: p)
  obtain out' st' where app: "merge_append crc ?bs key ts (out, st) = (Inr (pu_new p), out', st')"
    and w: "wrote (out_files out) st st'"
    and o: "mo_id out' = mo_id out" "bw_file (mo_data out') = bw_file (mo_data out)"
      "bw_file (mo_hint out') = bw_file (mo_hint out)" "mo_written out' = mo_written out + of_nat (length ?bs)"
      "out_data st' out' = out_data st out @ ?bs"
      "out_hint st' out' = out_hint st out @ iv_serialize crc (pu_new p) key"
    using merge_append_calm [OF runningD(1) [OF C(1)] data(4) iv room_d room_h] by blast
  note W = wroteD [OF w] wrote_store [OF w]
  have fresh: "mo_id out \<notin> log_ids (x @ t)" using out'(2,3) C(6) by (auto dest: leD)
  have run: "running crc st' x t" by (rule running_wrote [OF C(1) oo fresh w])
  have ops: "pending_ops (?ps @ [p]) = data_ops (mo_id out) 0 (cs @ [?c])"
    using data(3,5) by (simp add: pending_ops_def data_ops_append p length_log_bytes)
  have "out_ok crc st' out' (?ps @ [p]) (cs @ [?c])"
    using oo ok data ops hint W(1,2) W(8) o
    by (simp add: out_ok_def out_open_def out_files_def record_len_def)
  then have op: "output_part crc nxt st' x t (ms\<lparr>ms_output := Some out', ms_pending := ?ps @ [p]\<rparr>) left"
    using cp' size out' o(1) W(10) unfolding output_part_def Let_def
    by (auto simp: record_len_def intro!: exI [of _ "cs @ [?c]"])
  have "merge_core crc first nxt st' x t (ms\<lparr>ms_output := Some out', ms_pending := ?ps @ [p]\<rparr>) left processed'"
  proof (rule merge_coreI [OF run _ _ _ _ _ _ _ mono(2) _ _ op])
    show "k \<in> pu_key ` set (ms_pending (ms\<lparr>ms_output := Some out', ms_pending := ?ps @ [p]\<rparr>))"
      if "log_index (x @ t) k = Some e" "processed' e" for k e
      using new [OF that] C(10) [OF that(1)] by (cases "processed e") (auto simp: p)
    show "processed' (pu_previous_value q)"
      if "q \<in> set (ms_pending (ms\<lparr>ms_output := Some out', ms_pending := ?ps @ [p]\<rparr>))" for q
      using that C(11) [of q] mono(1) prev(1) by (auto simp: p)
  qed (use C W in simp_all)
  moreover have "keeps_inputs first st st'"
    using W(3,8) oo by (simp add: keeps_inputs_def out_ok_def)
  ultimately show ?thesis using app W(9) by blast
qed

end
