(* ===== verification/Merge_Read.thy ===== *)
theory Merge_Read
  imports Merge_Step
begin

text \<open>
  Reading an input file, record by record, and publishing an output, update by update.
\<close>

section \<open>One record\<close>

lemma merge_state_same: "ms_output ms = Some out \<Longrightarrow> ms\<lparr>ms_output := Some out, ms_pending := ms_pending ms\<rparr> = ms"
  by (cases ms) simp

lemma reads_pos:
  assumes run: "running crc st x t" and rd: "reads crc st f cs1 cs2"
  shows "unat (of_nat (length (log_bytes crc cs1)) :: u64) = length (log_bytes crc cs1)"
    and "length (log_bytes crc (cs1 @ cs2)) < 2 ^ 64"
proof -
  have "length (log_bytes crc (cs1 @ cs2)) \<le> MAX_FILE_LEN"
    using rd readers_logD(1) [OF runningD(4) [OF run], of f] unfolding reads_def by metis
  then show all: "length (log_bytes crc (cs1 @ cs2)) < 2 ^ 64" using MAX_FILE_LEN_less by linarith
  then have "length (log_bytes crc cs1) < 2 ^ 64" by simp
  then show "unat (of_nat (length (log_bytes crc cs1)) :: u64) = length (log_bytes crc cs1)"
    by (rule unat_u64_of_nat)
qed

lemma merge_record_core:
  assumes core: "merge_core crc first nxt st x t ms (record_len c + left) (read_up_to D f (length (log_bytes crc cs1)))"
    and out: "ms_output ms = Some out" and rd: "reads crc st f cs1 (c # cs2)"
    and f: "f \<le> first" "f \<notin> D" "\<And>d. d \<in> D \<Longrightarrow> d \<le> first"
  shows "\<exists>ps out' st'. merge_record crc f (of_nat (length (log_bytes crc cs1))) (command_serialize crc c)
       (ms_pending ms) (out, st) = (Inr ps, out', st') \<and>
     merge_core crc first nxt st' x t (ms\<lparr>ms_output := Some out', ms_pending := ps\<rparr>) left
       (read_up_to D f (length (log_bytes crc (cs1 @ [c])))) \<and>
     keeps_inputs first st st' \<and> st_writer st' = st_writer st"
proof -
  let ?pos = "length (log_bytes crc cs1)" and ?pos' = "length (log_bytes crc (cs1 @ [c]))"
  let ?w = "of_nat ?pos :: u64"
  note C = merge_coreD [OF core]
  have w: "unat ?w = ?pos" by (rule reads_pos(1) [OF C(1) rd])
  have c_ok: "record_ok c" using rd by (simp add: reads_def)
  then have fits: "command_fits c" by (simp add: record_ok_def command_ok_def)
  have dec: "command_deserialize crc (command_serialize crc c) = Inr (c, length (command_serialize crc c))"
    using command_deserialize_serialize [OF fits, of crc "[]"] by simp
  have less: "?pos < ?pos'" using record_len_pos [of c] by (simp add: record_len_def)
  have mono: "read_up_to D f ?pos' e" if "read_up_to D f ?pos e" for e
    using that less unfolding read_up_to_def by linarith
  have ids: "iv_file_id e \<le> first" if "read_up_to D f ?pos' e" for e
    using that f by (auto simp: read_up_to_def)
  have new: "\<exists>ts v. c = Command_Set ts k v \<and> log_view (x @ t) k = Some v \<and> points_at f ?w (log_index (x @ t) k)"
    if e: "log_index (x @ t) k = Some e" "read_up_to D f ?pos' e" "\<not> read_up_to D f ?pos e" for k e
  proof -
    have "iv_file_id e = f" "unat (iv_offset e) < ?pos'" "\<not> unat (iv_offset e) < ?pos"
      using e(2,3) by (auto simp: read_up_to_def)
    moreover from this obtain ts v where "c = Command_Set ts k v" "log_view (x @ t) k = Some v" "unat (iv_offset e) = ?pos"
      using reads_next [OF C(1) rd e(1)] by blast
    moreover from this have "iv_offset e = ?w" using w by (simp add: word_unat_eq_iff)
    ultimately show ?thesis using e(1) by (simp add: points_at_def)
  qed
  have skip: "merge_core crc first nxt st x t (ms\<lparr>ms_output := Some out, ms_pending := ms_pending ms\<rparr>) left (read_up_to D f ?pos')"
    if "\<And>ts k v. c = Command_Set ts k v \<Longrightarrow> \<not> points_at f ?w (log_index (x @ t) k)"
    unfolding merge_state_same [OF out]
    by (rule merge_core_skip [OF core mono ids]) (use new that in blast)+
  have keep: "keeps_inputs first st st" by (simp add: keeps_inputs_def)
  show ?thesis
  proof (cases c)
    case (Command_Rm ts key)
    then have "merge_record crc f ?w (command_serialize crc c) (ms_pending ms) (out, st) = (Inr (ms_pending ms), out, st)"
      using dec by (simp add: merge_record_def)
    then show ?thesis using skip Command_Rm keep by blast
  next
    case (Command_Set ts key v)
    have look: "read_access (st_index st) key = Inr (rw_data (st_index st ! get_bucket key))"
      "rw_data (st_index st ! get_bucket key) key = log_index (x @ t) key"
      using access_Inr(1) [OF runningD(7,2) [OF C(1)]] C(2) by (simp_all add: index_lookup_def fun_eq_iff)
    show ?thesis
    proof (cases "points_at f ?w (log_index (x @ t) key)")
      case False
      then have "merge_record crc f ?w (command_serialize crc c) (ms_pending ms) (out, st) = (Inr (ms_pending ms), out, st)"
        using dec look Command_Set by (simp add: merge_record_def)
      moreover have "merge_core crc first nxt st x t (ms\<lparr>ms_output := Some out, ms_pending := ms_pending ms\<rparr>) left (read_up_to D f ?pos')"
        by (rule skip) (use False Command_Set in auto)
      ultimately show ?thesis using keep by blast
    next
      case True
      let ?prev = "\<lparr>iv_file_id = f, iv_ts = ts, iv_offset = ?w, iv_len = of_nat (length (command_serialize crc c))\<rparr>"
      define p where "p = \<lparr>pu_key = key, pu_previous_value = ?prev, pu_new =
        \<lparr>iv_file_id = mo_id out, iv_ts = ts, iv_offset = mo_written out, iv_len = of_nat (record_len (Command_Set ts key v))\<rparr>\<rparr>"
      obtain e where e: "log_index (x @ t) key = Some e" "iv_file_id e = f" "iv_offset e = ?w"
        using True by (cases "log_index (x @ t) key") (auto simp: points_at_def)
      have "read_up_to D f ?pos' e" "\<not> read_up_to D f ?pos e" using e(2,3) w less f(2) by (auto simp: read_up_to_def)
      from new [OF e(1) this] have v: "log_view (x @ t) key = Some v" using Command_Set by auto
      have pp: "prev_pos p = (f, ?w)" by (simp add: p_def prev_pos_def)
      have copy: "copy_of x t p (Command_Set ts key v)"
        using True v by (auto simp: copy_of_def pp) (simp_all add: p_def log_index_append log_view_append)
      have prev: "read_up_to D f ?pos' ?prev" using w less by (simp add: read_up_to_def)
      have apart: "prev_pos q \<noteq> prev_pos p" if "read_up_to D f ?pos (pu_previous_value q)" for q
        using that f(2) w unfolding pp by (auto simp: read_up_to_def prev_pos_def)
      have only: "k = key" if "log_index (x @ t) k = Some e" "read_up_to D f ?pos' e" "\<not> read_up_to D f ?pos e" for k e
        using new [OF that] Command_Set by auto
      have ok: "record_ok (Command_Set ts key v)" using c_ok Command_Set by simp
      obtain out' st' where app: "merge_append crc (command_serialize crc (Command_Set ts key v)) key ts (out, st) =
           (Inr (pu_new p), out', st')"
        and core': "merge_core crc first nxt st' x t (ms\<lparr>ms_output := Some out', ms_pending := ms_pending ms @ [p]\<rparr>) left (read_up_to D f ?pos')"
        and k: "keeps_inputs first st st'" "st_writer st' = st_writer st"
        using merge_core_copy [where processed' = "read_up_to D f ?pos'",
            OF core [unfolded Command_Set] out p_def copy ok _ _ prev apart] mono ids only by blast
      have "merge_record crc f ?w (command_serialize crc c) (ms_pending ms) (out, st) = (Inr (ms_pending ms @ [p]), out', st')"
        using dec look True app Command_Set by (simp add: merge_record_def p_def)
      with core' k show ?thesis by blast
    qed
  qed
qed

text \<open>The end of a file.\<close>

lemma merge_core_end:
  assumes core: "merge_core crc first nxt st x t ms left (read_up_to D f (length (log_bytes crc cs)))"
    and rd: "reads crc st f cs []" and f: "f \<le> first" "\<And>d. d \<in> D \<Longrightarrow> d \<le> first"
  shows "merge_core crc first nxt st x t ms left (read_up_to (insert f D) g 0)"
proof (rule merge_core_skip [where n = 0 and processed = "read_up_to D f (length (log_bytes crc cs))"])
  show "merge_core crc first nxt st x t ms (0 + left) (read_up_to D f (length (log_bytes crc cs)))" using core by simp
  show "key \<in> pu_key ` set (ms_pending ms)"
    if e: "log_index (x @ t) key = Some e" "read_up_to (insert f D) g 0 e" "\<not> read_up_to D f (length (log_bytes crc cs)) e" for key e
    using reads_end [OF merge_coreD(1) [OF core] rd e(1)] e(2,3) by (auto simp: read_up_to_def)
qed (use f in \<open>auto simp: read_up_to_def\<close>)

end
