(* ===== verification/Merge_Publish.thy ===== *)
theory Merge_Publish
  imports Merge_Read
begin

text \<open>
  Finishing an output: the file becomes part of the log, then the entries of the index are moved to
  it one by one. In between an entry is that of the old or of the new log, which stand for the same
  values.
\<close>

section \<open>A new file in the middle of the log\<close>

lemma disk_log_insert:
  assumes log: "disk_log crc st (x @ b) cur cs []" and wf: "dir_wf st'"
    and ids: "sorted_wrt (<) (map fst (x @ (i, ds) # b) @ [cur])"
    and len: "length (os_inodes st') = length (os_inodes st)"
    and data: "\<And>j. map_of (os_dir st') (data_file_name j) =
      (if j = i then Some (File_Entry fd) else map_of (os_dir st) (data_file_name j))"
    and hint: "\<And>j. map_of (os_dir st') (hint_file_name j) = map_of (os_dir st) (hint_file_name j)"
    and names: "\<And>name entry. (name, entry) \<in> set (os_dir st') \<Longrightarrow>
      (name, entry) \<in> set (os_dir st) \<or> name = data_file_name i"
    and dc: "\<And>j g. map_of (os_dir st) (data_file_name j) = Some (File_Entry g) \<Longrightarrow> file_content st' g = file_content st g"
    and hc: "\<And>j g. map_of (os_dir st) (hint_file_name j) = Some (File_Entry g) \<Longrightarrow> j \<in> log_ids (x @ b) \<Longrightarrow>
      file_content st' g = file_content st g"
    and new: "fd < length (os_inodes st)" "file_content st' fd = log_bytes crc ds" "length (log_bytes crc ds) \<le> MAX_FILE_LEN"
      "list_all command_ok ds" "hint_ok crc st' i ds"
  shows "disk_log crc st' (x @ (i, ds) # b) cur cs []"
proof (rule disk_logI)
  have sep: "i \<notin> log_ids (x @ b)" "i \<noteq> cur" using ids by (auto simp: sorted_wrt_append log_ids_def)
  have keep: "file_ok st' j bs" if "file_ok st j bs" "j \<noteq> i" for j bs
    using that dc data len by (fastforce simp: file_ok_def)
  have mem: "j \<noteq> i" if "(j, es) \<in> set (x @ b)" for j es
    using that sep(1) unfolding log_ids_iff by blast
  show "distinct (map fst (os_dir st'))" using wf by (rule dir_wfD)
  show "sorted_wrt (<) (map fst (x @ (i, ds) # b) @ [cur])" by (rule ids)
  show "list_all command_ok es" if "(j, es) \<in> set (x @ (i, ds) # b)" for j es
    using that disk_logD(3) [OF log, of j es] new(4) by auto
  show "file_ok st' j (log_bytes crc es)" if "(j, es) \<in> set (x @ (i, ds) # b)" for j es
  proof (cases "(j, es) \<in> set (x @ b)")
    case True
    then show ?thesis using keep [OF disk_logD(4) [OF log True] mem [OF True]] by simp
  next
    case False
    then have "j = i" "es = ds" using that by auto
    then show ?thesis using new data [of i] len by (simp add: file_ok_def)
  qed
  show "hint_ok crc st' j es" if "(j, es) \<in> set (x @ (i, ds) # b)" for j es
  proof (cases "(j, es) \<in> set (x @ b)")
    case True
    then have "j \<in> log_ids (x @ b)" unfolding log_ids_iff by blast
    then show ?thesis using disk_logD(5) [OF log True] hint hc by (subst hint_ok_cong [of _ _ st]) auto
  next
    case False
    then have "j = i" "es = ds" using that by auto
    then show ?thesis using new(5) by simp
  qed
  show "list_all command_ok cs" by (rule disk_logD(6) [OF log])
  show "file_ok st' cur (log_bytes crc cs @ [])" using keep [OF disk_logD(7) [OF log]] sep(2) by simp
  show "j \<in> set (map fst (x @ (i, ds) # b) @ [cur])" if "map_of (os_dir st') (data_file_name j) \<noteq> None" for j
    using that disk_logD(8) [OF log, of j] data [of j] by (auto split: if_splits)
  show "name = data_file_name j" if "(name, entry) \<in> set (os_dir st')" "scan_file name entry = Some (j, g)" for name entry j g
    using names [OF that(1)] disk_logD(9) [OF log _ that(2)] that(2)
    by (auto simp: scan_file_def split: dir_entry.splits if_splits)
qed

lemma map_of_rename:
  "a \<noteq> b \<Longrightarrow> map_of (filter (\<lambda>(m, _). m \<noteq> a \<and> m \<noteq> b) d @ [(b, e)]) =
     (map_of d)(a := None, b \<mapsto> e)"
  by (induction d) (auto simp: fun_eq_iff)

lemma dir_wf_rename:
  assumes wf: "dir_wf st" and a: "map_of (os_dir st) a = Some e" and ab: "a \<noteq> b"
    and st': "os_dir st' = filter (\<lambda>(m, _). m \<noteq> a \<and> m \<noteq> b) (os_dir st) @ [(b, e)]"
      "length (os_inodes st') = length (os_inodes st)"
  shows "dir_wf st'"
proof -
  have dir: "map_of (os_dir st') = (map_of (os_dir st))(a := None, b \<mapsto> e)"
    unfolding st'(1) by (rule map_of_rename [OF ab])
  have "distinct (map fst (os_dir st'))"
    unfolding st'(1) using distinct_fst_filter [OF dir_wfD(1) [OF wf], of "\<lambda>(m, _). m \<noteq> a \<and> m \<noteq> b"] by auto
  moreover have "fd < length (os_inodes st)" if "map_of (os_dir st') n = Some (File_Entry fd)" for n fd
    using that dir_wfD(2) [OF wf, of _ fd] a by (auto simp: dir split: if_splits)
  moreover have "m = n" if "map_of (os_dir st') m = Some (File_Entry fd)" "map_of (os_dir st') n = Some (File_Entry fd)" for m n fd
    using that dir_wfD(3) [OF wf, of _ fd] a by (auto simp: dir split: if_splits)
  ultimately show ?thesis unfolding dir_wf_def st'(2) by blast
qed

lemma data_ops_file: "Keydir_Put k e \<in> set (data_ops i pos cs) \<Longrightarrow> iv_file_id e = i"
proof (induction i pos cs rule: data_ops.induct)
  case (2 i pos c cs)
  then show ?case by (cases c) auto
qed simp

text \<open>The hint file of an output is that of its data file.\<close>

lemma out_hint_ok:
  assumes ok: "out_ok crc st out ps cs" and cp: "list_all2 (copy_of x t) ps cs"
    and h: "map_of (os_dir st') (hint_file_name (mo_id out)) = Some (File_Entry h)"
      "file_content st' h = out_hint st out" "length (out_hint st out) < 2 ^ 64"
  shows "hint_ok crc st' (mo_id out) cs"
proof -
  have hint: "out_hint st out = hint_bytes crc (pending_entries ps)"
    and ops: "pending_ops ps = data_ops (mo_id out) 0 cs" and rok: "list_all record_ok cs"
    using ok by (simp_all add: out_ok_def)
  have "(pu_new p)\<lparr>iv_file_id := mo_id out\<rparr> = pu_new p" if "p \<in> set ps" for p
  proof -
    have "Keydir_Put (pu_key p) (pu_new p) \<in> set (pending_ops ps)" using that by (simp add: pending_ops_def)
    then have "iv_file_id (pu_new p) = mo_id out" unfolding ops by (rule data_ops_file)
    then show ?thesis by (cases "pu_new p") simp
  qed
  then have "hint_ops (mo_id out) (pending_entries ps) = pending_ops ps"
    by (simp add: hint_ops_def pending_ops_def pending_entries_def)
  moreover have "hint_fits (pu_key p)" if p: "p \<in> set ps" for p
  proof -
    obtain c where "c \<in> set cs" "copy_of x t p c" using list_all2_in_set1 [OF cp p] by blast
    then show ?thesis using rok by (auto simp: copy_of_def list_all_iff record_ok_def)
  qed
  then have "list_all (\<lambda>(key, _). hint_fits key) (pending_entries ps)"
    by (auto simp: pending_entries_def list_all_iff)
  ultimately show ?thesis
    using h hint ops by (auto simp: hint_ok_def intro!: exI [of _ "pending_entries ps"])
qed

lemma running_insert:
  assumes run: "running crc st x t" and ix: "\<And>key e. index_lookup (st_index st) key = Some e \<Longrightarrow> iv_file_id e \<noteq> i"
    and ids: "\<And>j. j \<in> log_ids x \<Longrightarrow> j < i" "\<And>j. j \<in> log_ids t \<Longrightarrow> i < j"
    and st': "st' = st\<lparr>os_ticks := n,
      os_dir := filter (\<lambda>(m, _). m \<noteq> data_file_name_compaction i \<and> m \<noteq> data_file_name i) (os_dir st)
                @ [(data_file_name i, File_Entry fd)],
      st_readers := bt_insert i fd (st_readers st)\<rparr>"
    and name: "map_of (os_dir st) (data_file_name_compaction i) = Some (File_Entry fd)"
    and rd: "\<And>j. bt_get (st_readers st) j \<noteq> Some fd"
    and new: "file_content st fd = log_bytes crc cs" "length (log_bytes crc cs) \<le> MAX_FILE_LEN" "list_all record_ok cs"
      "hint_ok crc st i cs"
  shows "running crc st' (x @ [(i, cs)]) t"
proof -
  let ?cur = "ws_current_file_id (st_writer st)"
  note D = runningD [OF run]
  obtain b ds where t: "t = b @ [(?cur, ds)]" and base: "log_base crc st (x @ b) ds"
    using run by (auto simp: running_def)
  have dir: "map_of (os_dir st') = (map_of (os_dir st))(data_file_name_compaction i := None, data_file_name i \<mapsto> File_Entry fd)"
  proof -
    have "os_dir st' = filter (\<lambda>(m, _). m \<noteq> data_file_name_compaction i \<and> m \<noteq> data_file_name i) (os_dir st)
        @ [(data_file_name i, File_Entry fd)]" by (simp add: st')
    then show ?thesis by (simp only: map_of_rename [OF file_names_distinct(4)])
  qed
  have c: "file_content st' = file_content st" by (simp add: st' file_content_def fun_eq_iff)
  have fd: "fd < length (os_inodes st)" using dir_wfD(2) [OF D(6) name] .
  have wf: "dir_wf st'" by (rule dir_wf_rename [OF D(6) name]) (simp_all add: st')
  have cur: "i < ?cur" using ids(2) running_ids(3) [OF run] by blast
  have bt: "bt_ok (st_readers st)" using D(8) by (simp add: readers_ok_def)
  have get: "bt_get (st_readers st') = (bt_get (st_readers st))(i \<mapsto> fd)" by (simp add: st' bt_get_insert [OF bt])
  have hint: "hint_ok crc st' i cs" using new(4) by (subst hint_ok_cong [of _ _ st]) (simp_all add: dir c)
  have log: "disk_log crc st' (x @ (i, cs) # b) ?cur ds []"
  proof (rule disk_log_insert [OF log_baseD(2) [OF base] wf])
    show "sorted_wrt (<) (map fst (x @ (i, cs) # b) @ [?cur])"
      using running_ids(1) [OF run] ids unfolding t by (auto simp: sorted_wrt_append log_ids_def)
    show "list_all command_ok cs" using new(3) by (rule command_ok_list)
    show "(name, entry) \<in> set (os_dir st) \<or> name = data_file_name i" if "(name, entry) \<in> set (os_dir st')" for name entry
      using that by (auto simp: st')
    show "map_of (os_dir st') (data_file_name j) =
      (if j = i then Some (File_Entry fd) else map_of (os_dir st) (data_file_name j))" for j by (simp add: dir)
  qed (use fd new hint in \<open>simp_all add: dir c\<close>, simp add: st')
  have "entry_bytes st' e = entry_bytes st e" if "index_lookup (st_index st) key = Some e" for key e
    using ix [OF that] unfolding entry_bytes_def get c by simp
  then have "entries_ok crc st'"
    using D(5) by (auto simp: store_inv_def entries_ok_def entry_holds_def st')
  moreover have "readers_ok st'"
  proof -
    have "g < length (os_inodes st)" if "(j, g) \<in> set (bt_insert i fd (st_readers st))" for j g
      using that set_bt_insert [of i fd "st_readers st"] D(8) fd by (auto simp: readers_ok_def)
    then show ?thesis using bt_ok_insert [OF bt] by (auto simp: readers_ok_def st')
  qed
  moreover have "writer_ok st'"
  proof -
    have "writer_ok st" using D(5) by (simp add: store_inv_def)
    moreover have "st_writer st' = st_writer st" "fst ` set (st_readers st') = insert i (fst ` set (st_readers st))"
      by (simp_all add: st' keys_bt_insert)
    ultimately show ?thesis using cur by (auto simp: writer_ok_def Let_def get c dir)
  qed
  ultimately have inv: "store_inv crc st'" using D(7) by (simp add: store_inv_def st')
  have "log_base crc st' (x @ (i, cs) # b) ds"
  proof (rule log_baseI [OF _ inv log wf])
    show "bt_get (st_readers st') j = Some g" if "map_of (os_dir st') (data_file_name j) = Some (File_Entry g)" for j g
      using that log_baseD(4) [OF base, of j g] by (auto simp: dir get split: if_splits)
    show "map_of (os_dir st') (hint_file_name j) = None" if "?cur \<le> j" for j
      using log_baseD(5) [OF base that] by (simp add: dir)
  qed (simp add: st')
  moreover have "readers_log crc st'"
    unfolding readers_log_def c
  proof (intro allI impI conjI)
    fix j g assume j: "bt_get (st_readers st') j = Some g"
    show "length (file_content st g) \<le> MAX_FILE_LEN" "\<exists>cs. file_content st g = log_bytes crc cs \<and> list_all record_ok cs"
      using j new readers_logD(1,2) [OF D(4), of j g] by (auto simp: get split: if_splits)
    fix k assume "bt_get (st_readers st') k = Some g"
    then show "k = j" using j rd readers_logD(3) [OF D(4), of j g k] by (auto simp: get split: if_splits)
  qed
  moreover have "calm st'" using D(1) by (simp add: st' calm_def)
  ultimately show ?thesis
    unfolding running_def using D(2,3) t by (auto simp: st')
qed

section \<open>Moving the index\<close>

text \<open>
  \<open>x\<close> is the log before the output was published, \<open>x'\<close> the one with it. The entry of a key is that
  of the new log, or still that of the old one if its update is pending.
\<close>

definition moving ::
  "(bytes \<Rightarrow> u32) \<Rightarrow> u64 \<Rightarrow> u64 \<Rightarrow> store \<Rightarrow> log \<Rightarrow> log \<Rightarrow> log \<Rightarrow> u64 \<Rightarrow> pending_update list \<Rightarrow> bool" where
  "moving crc first nxt st x x' t n ps \<longleftrightarrow>
     running crc st x' t \<and> first < nxt \<and> first \<in> log_ids x' \<and>
     (\<forall>i \<in> log_ids x'. i \<le> n) \<and> (\<forall>i \<in> log_ids t. nxt \<le> i) \<and>
     (\<forall>i > n. map_of (os_dir st) (data_file_name_compaction i) = None \<and>
              map_of (os_dir st) (hint_file_name i) = None) \<and>
     (\<forall>key. index_lookup (st_index st) key = log_index (x' @ t) key \<or>
        key \<in> pu_key ` set ps \<and> index_lookup (st_index st) key = log_index (x @ t) key) \<and>
     (\<forall>p \<in> set ps. fst (prev_pos p) \<le> first \<and>
        (pu_key p \<notin> log_keys t \<longrightarrow>
           points_at (fst (prev_pos p)) (snd (prev_pos p)) (log_index x (pu_key p)) \<and>
           log_index x' (pu_key p) = Some (pu_new p))) \<and>
     set x \<subseteq> set x' \<and> (\<forall>key. key \<notin> log_keys t \<longrightarrow> log_view x' key = log_view x key)"

lemma movingD:
  assumes "moving crc first nxt st x x' t n ps"
  shows "running crc st x' t" and "first < nxt" and "first \<in> log_ids x'"
    and "i \<in> log_ids x' \<Longrightarrow> i \<le> n" and "i \<in> log_ids t \<Longrightarrow> nxt \<le> i"
    and "n < i \<Longrightarrow> map_of (os_dir st) (data_file_name_compaction i) = None"
    and "n < i \<Longrightarrow> map_of (os_dir st) (hint_file_name i) = None"
    and "index_lookup (st_index st) key = log_index (x' @ t) key \<or>
        key \<in> pu_key ` set ps \<and> index_lookup (st_index st) key = log_index (x @ t) key"
    and "p \<in> set ps \<Longrightarrow> fst (prev_pos p) \<le> first"
    and "p \<in> set ps \<Longrightarrow> pu_key p \<notin> log_keys t \<Longrightarrow>
      points_at (fst (prev_pos p)) (snd (prev_pos p)) (log_index x (pu_key p))"
    and "p \<in> set ps \<Longrightarrow> pu_key p \<notin> log_keys t \<Longrightarrow> log_index x' (pu_key p) = Some (pu_new p)"
    and "set x \<subseteq> set x'" and "key \<notin> log_keys t \<Longrightarrow> log_view x' key = log_view x key"
  using assms unfolding moving_def by blast+

lemma entry_in_log_mono: "entry_in_log a key e v \<Longrightarrow> set a \<subseteq> set b \<Longrightarrow> entry_in_log b key e v"
  unfolding entry_in_log_def by blast

lemma moving_view:
  assumes "moving crc first nxt st x x' t n ps"
  shows "store_view crc st = log_view (x' @ t)"
proof (rule running_view [OF movingD(1) [OF assms]])
  fix key
  have view: "log_view (x' @ t) key = log_view (x @ t) key"
    using movingD(13) [OF assms, of key] by (simp add: log_view_append)
  have "set (x @ t) \<subseteq> set (x' @ t)" using movingD(12) [OF assms] by auto
  then have "entry_in_log (x' @ t) key e v" if "entry_in_log (x @ t) key e v" for e v
    using entry_in_log_mono that by blast
  moreover have "rel_option (entry_in_log l key) (log_index l key) (log_view l key)" for l
    using log_index_matches by (simp add: index_matches_def)
  ultimately show "rel_option (entry_in_log (x' @ t) key) (index_lookup (st_index st) key) (log_view (x' @ t) key)"
    using movingD(8) [OF assms, of key] view by (metis option.rel_mono_strong)
qed

text \<open>No entry of the log points at a record that was read.\<close>

definition settled :: "u64 \<Rightarrow> log \<Rightarrow> log \<Rightarrow> (index_value \<Rightarrow> bool) \<Rightarrow> bool" where
  "settled first x t processed \<longleftrightarrow>
     (\<forall>e. processed e \<longrightarrow> iv_file_id e \<le> first) \<and>
     (\<forall>key e. log_index (x @ t) key = Some e \<longrightarrow> \<not> processed e)"

lemma settled_client:
  assumes s: "settled first x t processed" and g: "grown cmd t t'" and above: "\<And>i. i \<in> log_ids t \<Longrightarrow> first < i"
  shows "settled first x t' processed"
proof -
  have "log_index (x @ t) key = Some e" if "log_index (x @ t') key = Some e" "iv_file_id e \<le> first" for key e
    using grown_entry [OF g that(1)] above that(2) by (meson leD)
  with s show ?thesis unfolding settled_def by blast
qed

lemma moving_client:
  assumes m: "moving crc first nxt st x x' t n ps" and did: "client_did crc cmd st st' x' t t'"
  shows "moving crc first nxt st' x x' t' n ps"
proof -
  note M = movingD [OF m]
  have g: "grown cmd t t'" and run: "running crc st' x' t'" and fr: "client_frame st st'"
    and ix: "index_lookup (st_index st') =
       apply_op (index_lookup (st_index st)) (record_op (fst (last t)) (tail_pos t) cmd)"
    using did by (simp_all add: client_did_def)
  have keys: "log_keys t' = insert (get_key cmd) (log_keys t)" by (rule grown_keys(1) [OF g])
  have "index_lookup (st_index st') key = log_index (x' @ t') key \<or>
      key \<in> pu_key ` set ps \<and> index_lookup (st_index st') key = log_index (x @ t') key" for key
    using M(8) [of key] unfolding ix grown_index [OF g]
    by (cases cmd) (auto split: if_splits)
  moreover have "nxt \<le> i" if "i \<in> log_ids t'" for i
    using grown_keys(3) [OF g that] M(5) by (cases "i \<in> log_ids t") (auto intro: order_trans less_imp_le)
  moreover have "map_of (os_dir st') (data_file_name_compaction i) = None" "map_of (os_dir st') (hint_file_name i) = None"
    if "n < i" for i
    using M(6,7) [OF that] client_frameD(4) [OF fr] file_names_distinct by metis+
  ultimately show ?thesis
    unfolding moving_def using run M keys by (auto simp: M(2,3))
qed

lemma moving_same:
  assumes m: "moving crc first nxt st x x' t n ps" and same: "same_store st st'"
  shows "moving crc first nxt st' x x' t n ps"
  using m running_same [OF same] same unfolding moving_def by (simp add: same_store_def)

lemma running_index:
  assumes run: "running crc st x t" and st': "st' = st\<lparr>st_index := idx\<rparr>"
    and idx: "index_ok idx" "no_poison idx"
    and entries: "\<And>key e. index_lookup idx key = Some e \<Longrightarrow> \<exists>v. entry_in_log (x @ t) key e v"
  shows "running crc st' x t"
proof -
  note D = runningD [OF run]
  have c: "file_content st' = file_content st" by (simp add: st' file_content_def fun_eq_iff)
  have c': "file_content (st\<lparr>st_index := idx\<rparr>) = file_content st" using c by (simp add: st')
  have eb: "entry_bytes st' = entry_bytes st" unfolding fun_eq_iff entry_bytes_def c by (simp add: st')
  have "entries_ok crc st'"
    unfolding entries_ok_def entry_holds_def eb
    using entries running_entry [OF run] unfolding entry_holds_def by (simp add: st') blast
  then have inv: "store_inv crc st'"
    using D(5) idx(1) by (simp add: store_inv_def readers_ok_def writer_ok_def Let_def c) (simp add: st')
  obtain b cs where t: "t = b @ [(ws_current_file_id (st_writer st), cs)]" and base: "log_base crc st (x @ b) cs"
    using run by (auto simp: running_def)
  have "disk_log crc st' = disk_log crc st" by (rule disk_log_cong) (simp_all add: st' c')
  then have "log_base crc st' (x @ b) cs"
    using log_baseD [OF base] inv by (intro log_baseI [where cur = "ws_current_file_id (st_writer st)"]) (simp_all add: st' dir_wf_def)
  moreover have "readers_log crc st'" using D(4) by (simp add: readers_log_def c) (simp add: st')
  ultimately show ?thesis using D(1,3) idx(2) t by (auto simp: running_def st' calm_def)
qed

text \<open>One pending update.\<close>

lemma apply_update_moving:
  assumes m: "moving crc first nxt st x x' t n (p # ps)"
  shows "\<exists>st'. apply_update p st = (Inr (), st') \<and> moving crc first nxt st' x x' t n ps \<and>
     keeps_inputs first st st' \<and> st_writer st' = st_writer st \<and> st_config st' = st_config st"
proof -
  note M = movingD [OF m]
  note D = runningD [OF M(1)]
  let ?k = "pu_key p"
  let ?at = "points_at (fst (prev_pos p)) (snd (prev_pos p)) (index_lookup (st_index st) ?k)"
  have acc: "write_access (st_index st) ?k = Inr (rw_data (st_index st ! get_bucket ?k))"
    by (rule access_Inr(2) [OF D(7,2)])
  have prev: "fst (prev_pos p) \<notin> log_ids t" using M(9) [of p] M(5) M(2) by (auto dest: le_less_trans leD)
  have touched: "log_index (x @ t) ?k = log_index (x' @ t) ?k" if "?k \<in> log_keys t"
    using that by (simp add: log_index_append)
  show ?thesis
  proof (cases ?at)
    case True
    define idx where "idx = index_insert ?k (pu_new p) (st_index st)"
    have "?k \<notin> log_keys t"
    proof
      assume k: "?k \<in> log_keys t"
      then have "index_lookup (st_index st) ?k = log_index t ?k"
        using M(8) [of ?k] by (auto simp: log_index_append)
      with True prev show False using log_index_id [of t ?k] by (auto simp: points_at_def split: option.splits)
    qed
    then have new: "log_index (x' @ t) ?k = Some (pu_new p)" using M(11) [of p] by (simp add: log_index_append)
    have look: "index_lookup idx = (index_lookup (st_index st))(?k \<mapsto> pu_new p)"
      unfolding idx_def by (rule ix.lookup_insert [OF D(7)])
    have rel: "index_lookup idx key = log_index (x' @ t) key \<or>
        key \<in> pu_key ` set ps \<and> index_lookup idx key = log_index (x @ t) key" for key
      using M(8) [of key] new by (auto simp: look)
    have sub: "set (x @ t) \<subseteq> set (x' @ t)" using M(12) by auto
    have "running crc (st\<lparr>st_index := idx\<rparr>) x' t"
    proof (rule running_index [OF M(1) refl])
      show "index_ok idx" "no_poison idx" using D(7,2) by (simp_all add: idx_def ix.invar_insert)
      show "\<exists>v. entry_in_log (x' @ t) key e v" if "index_lookup idx key = Some e" for key e
        using rel [of key] that log_index_entry [of _ key e] entry_in_log_mono [OF _ sub] by metis
    qed
    then have "moving crc first nxt (st\<lparr>st_index := idx\<rparr>) x x' t n ps"
      unfolding moving_def using M rel by (auto simp: M(2,3))
    moreover have "apply_update p st = (Inr (), st\<lparr>st_index := idx\<rparr>)"
      using True acc by (simp add: apply_update_def idx_def prev_pos_def index_lookup_def)
    moreover have "keeps_inputs first st (st\<lparr>st_index := idx\<rparr>)" by (simp add: keeps_inputs_def file_content_def)
    ultimately show ?thesis by (intro exI [of _ "st\<lparr>st_index := idx\<rparr>"]) simp
  next
    case False
    have "index_lookup (st_index st) ?k = log_index (x' @ t) ?k"
    proof (cases "?k \<in> log_keys t")
      case True
      then show ?thesis using M(8) [of ?k] touched by auto
    next
      case untouched: False
      then have "index_lookup (st_index st) ?k \<noteq> log_index (x @ t) ?k"
        using False M(10) [of p] by (auto simp: log_index_append)
      then show ?thesis using M(8) [of ?k] by auto
    qed
    then have "index_lookup (st_index st) key = log_index (x' @ t) key \<or>
        key \<in> pu_key ` set ps \<and> index_lookup (st_index st) key = log_index (x @ t) key" for key
      using M(8) [of key] by auto
    then have "moving crc first nxt st x x' t n ps" unfolding moving_def using M by (auto simp: M(2,3))
    moreover have "apply_update p st = (Inr (), st)"
      using False acc by (simp add: apply_update_def prev_pos_def index_lookup_def)
    ultimately show ?thesis by (simp add: keeps_inputs_def)
  qed
qed

text \<open>Publishing an output.\<close>

lemma settled_publish:
  assumes core: "merge_core crc first nxt st x t ms left processed" and ok: "out_ok crc st out (ms_pending ms) cs"
    and o: "\<And>i. i \<in> log_ids x \<Longrightarrow> i < mo_id out"
  shows "settled first (x @ [(mo_id out, cs)]) t processed"
  unfolding settled_def
proof (intro conjI allI impI notI)
  note C = merge_coreD [OF core]
  show "iv_file_id e \<le> first" if "processed e" for e using C(9) [OF that] .
  fix key e assume e: "log_index ((x @ [(mo_id out, cs)]) @ t) key = Some e" and p: "processed e"
  note e' = e [unfolded log_index_append [of "x @ [(mo_id out, cs)]" t]]
  note l = log_index_append [of x "[(mo_id out, cs)]" key]
  have le: "iv_file_id e \<le> first" by (rule C(9) [OF p])
  have nt: "key \<notin> log_keys t"
  proof
    assume "key \<in> log_keys t"
    then have "log_index t key = Some e" using e' by simp
    then show False using C(6) [OF log_index_id] C(3) le by fastforce
  qed
  have no: "key \<notin> log_keys [(mo_id out, cs)]"
  proof
    assume "key \<in> log_keys [(mo_id out, cs)]"
    then have "log_index [(mo_id out, cs)] key = Some e" using e' nt l by simp
    then have "iv_file_id e = mo_id out" using log_index_id by fastforce
    then show False using o [OF C(13)] le by simp
  qed
  have "log_index (x @ t) key = Some e" using e' nt no l by (simp add: log_index_append [of x t])
  then have "key \<in> pu_key ` set (ms_pending ms)" using p by (rule C(10))
  moreover have "op_key ` set (pending_ops (ms_pending ms)) = get_key ` set cs"
    using ok data_ops_keys by (simp add: out_ok_def)
  ultimately show False using no by (auto simp: pending_ops_def image_image)
qed

lemma publish_core:
  assumes core: "merge_core crc first nxt st x t ms left processed" and out: "ms_output ms = Some out"
  shows "\<exists>st' cs. publish_output out st = (Inr (), st') \<and>
     moving crc first nxt st' x (x @ [(mo_id out, cs)]) t (ms_next_id ms) (ms_pending ms) \<and>
     settled first (x @ [(mo_id out, cs)]) t processed \<and> log_view ((x @ [(mo_id out, cs)]) @ t) = log_view (x @ t) \<and>
     keeps_inputs first st st' \<and> st_writer st' = st_writer st \<and> st_config st' = st_config st \<and>
     left \<le> merge_limit \<and>
     (merge_is_full (cfg_file_size_threshold (st_config st)) out \<longrightarrow>
        left < unat (cfg_file_size_threshold (st_config st)) * (unat nxt - 2 - unat (ms_next_id ms)))"
proof -
  let ?ps = "ms_pending ms" and ?i = "mo_id out" and ?thr = "unat (cfg_file_size_threshold (st_config st))"
  note C = merge_coreD [OF core]
  note O = output_Some(1-3) [OF C(12) out]
  obtain cs where oo: "out_ok crc st out ?ps cs" and cp: "copied x t ?ps cs"
    and size: "length (log_bytes crc cs) + left < ?thr * (unat nxt - 1 - unat (ms_next_id ms))"
      "length (log_bytes crc cs) + left \<le> merge_limit"
    using output_Some(4) [OF C(12) out] by blast
  have data: "out_data st out = log_bytes crc cs" "out_hint st out = hint_bytes crc (pending_entries ?ps)"
    "out_open st out" "list_all record_ok cs"
    "map_of (os_dir st) (data_file_name_compaction ?i) = Some (File_Entry (bw_file (mo_data out)))"
    "map_of (os_dir st) (hint_file_name ?i) = Some (File_Entry (bw_file (mo_hint out)))"
    "pending_ops ?ps = data_ops ?i 0 cs" "mo_written out = of_nat (length (log_bytes crc cs))"
    using oo by (simp_all add: out_ok_def)
  have l2: "list_all2 (copy_of x t) ?ps cs" using cp by (simp add: copied_def)
  have hl: "length (out_hint st out) \<le> 2 * merge_limit"
    using hint_bytes_length [OF l2, of crc] size(2) by (simp add: data)
  have room: "length (out_data st out) \<le> MAX_FILE_LEN" "length (out_hint st out) \<le> MAX_FILE_LEN"
    using size(2) hl by (simp_all add: data(1) merge_limit_def MAX_FILE_LEN_def)
  obtain st1 n where w: "wrote (out_files out) st st1"
    and c: "file_content st1 (bw_file (mo_data out)) = out_data st out"
      "file_content st1 (bw_file (mo_hint out)) = out_hint st out"
    and pub: "publish_output out st =
       (Inr (), st1\<lparr>os_ticks := n,
          os_dir := filter (\<lambda>(m, _). m \<noteq> data_file_name_compaction ?i \<and> m \<noteq> data_file_name ?i) (os_dir st)
                    @ [(data_file_name ?i, File_Entry (bw_file (mo_data out)))],
          st_readers := bt_insert ?i (bw_file (mo_data out)) (st_readers st)\<rparr>)"
    using publish_output_calm [OF runningD(1) [OF C(1)] data(3) room data(5)] by blast
  note W = wroteD [OF w] wrote_store [OF w]
  define st' where "st' = st1\<lparr>os_ticks := n,
          os_dir := filter (\<lambda>(m, _). m \<noteq> data_file_name_compaction ?i \<and> m \<noteq> data_file_name ?i) (os_dir st1)
                    @ [(data_file_name ?i, File_Entry (bw_file (mo_data out)))],
          st_readers := bt_insert ?i (bw_file (mo_data out)) (st_readers st1)\<rparr>"
  have pub': "publish_output out st = (Inr (), st')" using pub by (simp add: st'_def W(1,8))
  have fresh: "?i \<notin> log_ids (x @ t)" using O C(6) by (auto dest: leD)
  have run1: "running crc st1 x t" by (rule running_wrote [OF C(1) oo fresh w])
  have "length (out_hint st out) < 2 ^ 64" using hl by (simp add: merge_limit_def)
  then have hint: "hint_ok crc st1 ?i cs"
    using c(2) data(6) W(1) by (intro out_hint_ok [OF oo l2]) simp_all
  have run: "running crc st' (x @ [(?i, cs)]) t"
  proof (rule running_insert [OF run1 _ O(2) _ st'_def])
    show "iv_file_id e \<noteq> ?i" if "index_lookup (st_index st1) key = Some e" for key e
      using that log_index_id [of "x @ t" key e] fresh by (auto simp: W(7) C(2))
    show "?i < j" if "j \<in> log_ids t" for j using C(6) [OF that] O(3) by simp
    show "bt_get (st_readers st1) j \<noteq> Some (bw_file (mo_data out))" for j
      using oo by (auto simp: W(8) out_ok_def out_files_def)
  qed (use c data hint W(1) room in auto)
  have dir: "map_of (os_dir st') = (map_of (os_dir st))(data_file_name_compaction ?i := None,
      data_file_name ?i \<mapsto> File_Entry (bw_file (mo_data out)))"
    unfolding st'_def W(1) os.select_convs store.select_convs by (simp add: map_of_rename [symmetric])
  have view: "log_view ((x @ [(?i, cs)]) @ t) = log_view (x @ t)"
    using insert_copies_view [OF copied_copies [OF cp], of ?i] by simp
  have "moving crc first nxt st' x (x @ [(?i, cs)]) t (ms_next_id ms) ?ps"
    unfolding moving_def
  proof (intro conjI allI ballI impI)
    show "running crc st' (x @ [(?i, cs)]) t" by (rule run)
    show "first < nxt" by (rule C(3))
    show "first \<in> log_ids (x @ [(?i, cs)])" using C(13) by simp
    show "i \<le> ms_next_id ms" if "i \<in> log_ids (x @ [(?i, cs)])" for i
      using that C(5) [of i] O(1) by auto
    show "nxt \<le> i" if "i \<in> log_ids t" for i using C(6) [OF that] .
    show "map_of (os_dir st') (data_file_name_compaction i) = None" "map_of (os_dir st') (hint_file_name i) = None"
      if "ms_next_id ms < i" for i using C(7,8) [OF that] by (simp_all add: dir)
    show "index_lookup (st_index st') key = log_index ((x @ [(?i, cs)]) @ t) key \<or>
        key \<in> pu_key ` set ?ps \<and> index_lookup (st_index st') key = log_index (x @ t) key" for key
    proof (cases "key \<in> get_key ` set cs")
      case True
      have "op_key ` set (pending_ops ?ps) = get_key ` set cs" unfolding data(7) by (rule data_ops_keys)
      with True have "key \<in> pu_key ` set ?ps" by (auto simp: pending_ops_def image_image)
      then show ?thesis using C(2) by (simp add: st'_def W(7))
    next
      case False
      then have "log_index ((x @ [(?i, cs)]) @ t) key = log_index (x @ t) key"
        unfolding log_index_append [of "x @ [(?i, cs)]" t] log_index_append [of x t]
          log_index_append [of x "[(?i, cs)]"] by simp
      then show ?thesis using C(2) by (simp add: st'_def W(7))
    qed
    show "fst (prev_pos p) \<le> first" if "p \<in> set ?ps" for p
      using C(9) [OF C(11) [OF that]] by (simp add: prev_pos_def)
    show "points_at (fst (prev_pos p)) (snd (prev_pos p)) (log_index x (pu_key p))"
      "log_index (x @ [(?i, cs)]) (pu_key p) = Some (pu_new p)" if "p \<in> set ?ps" "pu_key p \<notin> log_keys t" for p
      using copied_new_entry [OF cp data(7) that] by simp_all
    show "log_view (x @ [(?i, cs)]) key = log_view x key" if "key \<notin> log_keys t" for key
      using fun_cong [OF view, of key] that unfolding log_view_append [of "x @ [(?i, cs)]" t] log_view_append [of x t] by simp
  qed auto
  moreover have "settled first (x @ [(?i, cs)]) t processed" by (rule settled_publish [OF core oo O(2)])
  moreover have "keeps_inputs first st st'"
    unfolding keeps_inputs_def
  proof (intro allI impI)
    fix j fd assume j: "bt_get (st_readers st) j = Some fd" "j \<le> first"
    have "j \<noteq> ?i" using j(2) O(2) [OF C(13)] by auto
    have "fd \<notin> out_files out" using oo j(1) by (simp add: out_ok_def)
    then have "file_content st' fd = file_content st fd" using W(3) by (simp add: st'_def file_content_def)
    moreover have "bt_ok (st_readers st1)" using runningD(8) [OF run1] by (simp add: readers_ok_def)
    ultimately show "bt_get (st_readers st') j = Some fd \<and> file_content st' fd = file_content st fd"
      using j(1) \<open>j \<noteq> ?i\<close> by (simp add: st'_def bt_get_insert W(8))
  qed
  moreover have "left < ?thr * (unat nxt - 2 - unat (ms_next_id ms))"
    if full: "merge_is_full (cfg_file_size_threshold (st_config st)) out"
  proof -
    have "length (log_bytes crc cs) < 2 ^ 64" using size(2) by (simp add: merge_limit_def)
    then have "?thr \<le> length (log_bytes crc cs)"
      using full by (simp add: merge_is_full_def data(8) word_le_nat_alt unat_u64_of_nat)
    moreover have "?thr * (unat nxt - 1 - unat (ms_next_id ms)) = ?thr + ?thr * (unat nxt - 2 - unat (ms_next_id ms))"
      if "0 < unat nxt - 1 - unat (ms_next_id ms)"
    proof -
      have "unat nxt - 1 - unat (ms_next_id ms) = Suc (unat nxt - 2 - unat (ms_next_id ms))" using that by simp
      then show ?thesis by simp
    qed
    ultimately show ?thesis using size(1) by (cases "unat nxt - 1 - unat (ms_next_id ms)") auto
  qed
  moreover have "left \<le> merge_limit" using size(2) by simp
  moreover have "st_writer st' = st_writer st" "st_config st' = st_config st" by (simp_all add: st'_def W(9,10))
  ultimately show ?thesis using pub' view by (intro exI [of _ st'] exI [of _ cs]) simp
qed

end
