(* ===== verification/Merge_Remove.thy ===== *)
theory Merge_Remove
  imports Merge_Publish
begin

text \<open>
  The end of a compaction: removing the files that were merged. No entry of the index points at
  them, so the log without them stands for the same map.
\<close>

lemma remove_input_calm:
  assumes calm: "calm st" and data: "map_of (os_dir st) (data_file_name i) = Some (File_Entry fd)"
    and hint: "map_of (os_dir st) (hint_file_name i) \<noteq> Some Other_Entry"
  shows "\<exists>dir n. remove_input i st = (Inr (), st\<lparr>os_ticks := n, os_dir := dir\<rparr>) \<and>
     map_of dir = (map_of (os_dir st))(data_file_name i := None, hint_file_name i := None) \<and>
     set dir \<subseteq> set (os_dir st) \<and> (distinct (map fst (os_dir st)) \<longrightarrow> distinct (map fst dir))"
proof -
  let ?dir1 = "filter (\<lambda>(n, _). n \<noteq> data_file_name i) (os_dir st)"
  let ?st1 = "(tick st)\<lparr>os_dir := ?dir1\<rparr>"
  have r1: "remove_file (data_file_name i) st = (Inr (), ?st1)" using calm_calls(11) [OF calm data] .
  have c1: "calm ?st1" using calm by (simp add: calm_def)
  have m1: "map_of ?dir1 = (map_of (os_dir st))(data_file_name i := None)" by (rule map_of_remove)
  have ex: "path_exists (hint_file_name i) ?st1 = (map_of ?dir1 (hint_file_name i) \<noteq> None, tick ?st1)"
    using calm_calls(1) [OF c1, of "hint_file_name i"] by (simp add: path_exists_def)
  show ?thesis
  proof (cases "map_of (os_dir st) (hint_file_name i)")
    case None
    then have "map_of ?dir1 = (map_of (os_dir st))(data_file_name i := None, hint_file_name i := None)"
      by (auto simp: m1 fun_eq_iff)
    moreover have "remove_input i st = (Inr (), tick ?st1)"
      using None r1 ex by (simp add: remove_input_def m1 del: tick_def)
    ultimately show ?thesis
      by (intro exI [of _ ?dir1] exI [of _ "Suc (Suc (os_ticks st))"]) (auto simp: distinct_fst_filter)
  next
    case (Some entry)
    then obtain h where h: "map_of ?dir1 (hint_file_name i) = Some (File_Entry h)"
      using hint by (cases entry) (simp_all add: m1)
    let ?dir2 = "filter (\<lambda>(n, _). n \<noteq> hint_file_name i) ?dir1"
    have "calm (tick ?st1)" using calm by (simp add: calm_def)
    then have "remove_file (hint_file_name i) (tick ?st1) = (Inr (), (tick (tick ?st1))\<lparr>os_dir := ?dir2\<rparr>)"
      using calm_calls(11) [of "tick ?st1" "hint_file_name i" h] h by simp
    then have "remove_input i st = (Inr (), (tick (tick ?st1))\<lparr>os_dir := ?dir2\<rparr>)"
      using h r1 ex by (simp add: remove_input_def del: tick_def)
    moreover have "map_of ?dir2 = (map_of (os_dir st))(data_file_name i := None, hint_file_name i := None)"
      unfolding map_of_remove m1 ..
    ultimately show ?thesis
      by (intro exI [of _ ?dir2] exI [of _ "Suc (Suc (Suc (os_ticks st)))"]) (auto simp: distinct_fst_filter)
  qed
qed

lemma running_remove:
  assumes run: "running crc st ((i, ds) # x) t" and st': "st' = st\<lparr>os_ticks := n, os_dir := dir\<rparr>"
    and dir: "map_of dir = (map_of (os_dir st))(data_file_name i := None, hint_file_name i := None)"
      "set dir \<subseteq> set (os_dir st)" "distinct (map fst dir)"
  shows "running crc st' x t" and "store_view crc st' = store_view crc st"
proof -
  let ?cur = "ws_current_file_id (st_writer st)"
  note D = runningD [OF run]
  obtain b cs where t: "t = b @ [(?cur, cs)]" and base: "log_base crc st ((i, ds) # x @ b) cs"
    using run by (auto simp: running_def)
  note log = log_baseD(2) [OF base]
  have c: "file_content st' = file_content st" by (simp add: st' file_content_def fun_eq_iff)
  have ids: "i \<notin> log_ids (x @ b)" "i < ?cur"
    using disk_logD(2) [OF log] by (auto simp: log_ids_def)
  have m: "map_of (os_dir st') (data_file_name j) = (if j = i then None else map_of (os_dir st) (data_file_name j))"
    "map_of (os_dir st') (hint_file_name j) = (if j = i then None else map_of (os_dir st) (hint_file_name j))" for j
    by (simp_all add: st' dir)
  have some: "map_of (os_dir st) name = Some e" if "map_of (os_dir st') name = Some e" for name e
    using that by (simp add: st' dir split: if_splits)
  have wf: "dir_wf st'"
  proof -
    note W = D(6) [unfolded dir_wf_def]
    show ?thesis
      unfolding dir_wf_def
    proof (intro conjI allI impI)
      show "distinct (map fst (os_dir st'))" using dir(3) by (simp add: st')
      show "fd < length (os_inodes st')" if "map_of (os_dir st') name = Some (File_Entry fd)" for name fd
        using W some [OF that] by (simp add: st')
      show "m = n" if "map_of (os_dir st') m = Some (File_Entry fd)" "map_of (os_dir st') n = Some (File_Entry fd)"
        for m n fd
        using W some [OF that(1)] some [OF that(2)] by blast
    qed
  qed
  have same: "same_store st (st'\<lparr>os_dir := os_dir st\<rparr>)" by (simp add: st' same_store_def file_content_def fun_eq_iff)
  have eb: "entry_bytes st' = entry_bytes st" unfolding fun_eq_iff entry_bytes_def c by (simp add: st')
  have ev: "entry_value crc st' = entry_value crc st" unfolding fun_eq_iff entry_value_def eb by simp
  show "store_view crc st' = store_view crc st"
    unfolding fun_eq_iff store_view_def ev by (simp add: st')
  have "writer_ok st'"
  proof -
    have "map_of (os_dir st') (data_file_name j) = None" if "?cur < j" for j
      using that D(5) by (simp add: m store_inv_def writer_ok_def Let_def)
    then show ?thesis using D(5) by (simp add: store_inv_def writer_ok_def Let_def c) (simp add: st')
  qed
  then have inv: "store_inv crc st'"
    using D(5) unfolding store_inv_def entries_ok_def entry_holds_def eb by (simp add: st' readers_ok_def)
  have ok: "file_ok st' j bs" if "file_ok st j bs" "j \<noteq> i" for j bs
    using that by (auto simp: file_ok_def m c) (simp add: st')
  have mem: "j \<noteq> i" if "(j, es) \<in> set (x @ b)" for j es using that ids(1) unfolding log_ids_iff by blast
  have "disk_log crc st' (x @ b) ?cur cs []"
  proof (rule disk_logI)
    show "distinct (map fst (os_dir st'))" using dir(3) by (simp add: st')
    show "sorted_wrt (<) (map fst (x @ b) @ [?cur])" using disk_logD(2) [OF log] by simp
    show "list_all command_ok es" if "(j, es) \<in> set (x @ b)" for j es
      using that disk_logD(3) [OF log, of j es] by auto
    show "file_ok st' j (log_bytes crc es)" if "(j, es) \<in> set (x @ b)" for j es
      using ok [OF disk_logD(4) [OF log, of j es] mem [OF that]] that by auto
    show "hint_ok crc st' j es" if "(j, es) \<in> set (x @ b)" for j es
      using disk_logD(5) [OF log, of j es] mem [OF that] that
      by (subst hint_ok_cong [of _ _ st]) (auto simp: m c)
    show "list_all command_ok cs" by (rule disk_logD(6) [OF log])
    show "file_ok st' ?cur (log_bytes crc cs @ [])" using ok [OF disk_logD(7) [OF log]] ids(2) by simp
    show "j \<in> set (map fst (x @ b) @ [?cur])" if "map_of (os_dir st') (data_file_name j) \<noteq> None" for j
      using that disk_logD(8) [OF log, of j] by (auto simp: m split: if_splits)
    show "name = data_file_name j" if "(name, entry) \<in> set (os_dir st')" "scan_file name entry = Some (j, g)" for name entry j g
      using that dir(2) by (intro disk_logD(9) [OF log]) (auto simp: st')
  qed
  then have "log_base crc st' (x @ b) cs"
  proof (intro log_baseI [OF _ inv _ wf])
    show "bt_get (st_readers st') j = Some g" if "map_of (os_dir st') (data_file_name j) = Some (File_Entry g)" for j g
      using log_baseD(4) [OF base some [OF that]] by (simp add: st')
    show "map_of (os_dir st') (hint_file_name j) = None" if "?cur \<le> j" for j
      using log_baseD(5) [OF base that] by (simp add: m)
  qed (simp_all add: st')
  moreover have "readers_log crc st'" using D(4) unfolding readers_log_def c by (simp add: st')
  ultimately show "running crc st' x t"
    unfolding running_def using D(1-3) t by (auto simp: st' calm_def)
qed

section \<open>The invariant of the removal\<close>

definition removing ::
  "(bytes \<Rightarrow> u32) \<Rightarrow> u64 \<Rightarrow> store \<Rightarrow> log \<Rightarrow> log \<Rightarrow> u64 list \<Rightarrow> bool" where
  "removing crc first st x t is \<longleftrightarrow>
     running crc st x t \<and> index_lookup (st_index st) = log_index (x @ t) \<and>
     (\<forall>key e. log_index (x @ t) key = Some e \<longrightarrow> iv_file_id e \<notin> set is) \<and>
     sorted_wrt (<) is \<and> (\<forall>i \<in> set is. i < first) \<and> (\<forall>i \<in> log_ids t. first < i) \<and>
     (\<forall>i \<in> log_ids x. i < first \<longrightarrow> i \<in> set is)"

lemma removingD:
  assumes "removing crc first st x t is"
  shows "running crc st x t" and "index_lookup (st_index st) = log_index (x @ t)"
    and "log_index (x @ t) key = Some e \<Longrightarrow> iv_file_id e \<notin> set is" and "sorted_wrt (<) is"
    and "i \<in> set is \<Longrightarrow> i < first" and "i \<in> log_ids t \<Longrightarrow> first < i"
    and "i \<in> log_ids x \<Longrightarrow> i < first \<Longrightarrow> i \<in> set is"
  using assms unfolding removing_def by blast+

lemma removing_client:
  assumes r: "removing crc first st x t is" and did: "client_did crc cmd st st' x t t'"
  shows "removing crc first st' x t' is"
proof -
  note R = removingD [OF r]
  have g: "grown cmd t t'" and run: "running crc st' x t'"
    and ix: "index_lookup (st_index st') =
       apply_op (index_lookup (st_index st)) (record_op (fst (last t)) (tail_pos t) cmd)"
    using did by (simp_all add: client_did_def)
  have "iv_file_id e \<notin> set is" if e: "log_index (x @ t') key = Some e" for key e
  proof
    assume i: "iv_file_id e \<in> set is"
    then have "iv_file_id e \<notin> log_ids t" using R(5,6) by fastforce
    from grown_entry [OF g e this] i show False using R(3) by blast
  qed
  moreover have "first < i" if "i \<in> log_ids t'" for i
    using grown_keys(3) [OF g that] R(6) by (cases "i \<in> log_ids t") (auto intro: less_trans)
  ultimately show ?thesis
    unfolding removing_def using run R grown_index [OF g] ix by auto
qed

lemma removing_same:
  assumes "removing crc first st x t is" and "same_store st st'"
  shows "removing crc first st' x t is"
  using assms running_same [OF assms(2)] unfolding removing_def by (simp add: same_store_def)

lemma remove_input_removing:
  assumes r: "removing crc first st x t (i # is)" and i: "i \<in> log_ids x"
  shows "\<exists>st' x'. remove_input i st = (Inr (), st') \<and> removing crc first st' x' t is \<and>
     log_view (x' @ t) = log_view (x @ t) \<and> log_ids x = insert i (log_ids x') \<and> i \<notin> log_ids x' \<and>
     st_writer st' = st_writer st \<and> keeps_inputs first st st'"
proof -
  note R = removingD [OF r]
  note D = runningD [OF R(1)]
  obtain ds x' where x: "x = (i, ds) # x'"
  proof (cases x)
    case (Cons f x')
    obtain j es where f: "f = (j, es)" by (cases f)
    have s: "sorted_wrt (<) (map fst x)" using running_ids(1) [OF R(1)] by (simp add: sorted_wrt_append)
    have le: "j \<le> i" using i s Cons f by (auto simp: log_ids_def less_imp_le)
    moreover have "i \<le> j"
    proof -
      have "j < first" using le R(5) [of i] by auto
      then have "j \<in> set (i # is)" using R(7) [of j] Cons f by simp
      then show ?thesis using R(4) by auto
    qed
    ultimately show ?thesis using that Cons f by simp
  qed (use i in simp)
  obtain fd where fd: "map_of (os_dir st) (data_file_name i) = Some (File_Entry fd)"
    using running_log [OF R(1), of i ds] x by auto
  have "hint_ok crc st i ds"
    using R(1) disk_logD(5) [OF log_baseD(2), of crc st _ _ i ds] unfolding running_def x
    by (metis append_Cons list.set_intros(1))
  then have "map_of (os_dir st) (hint_file_name i) \<noteq> Some Other_Entry" by (auto simp: hint_ok_def)
  from remove_input_calm [OF D(1) fd this] obtain dir n where
    rm: "remove_input i st = (Inr (), st\<lparr>os_ticks := n, os_dir := dir\<rparr>)"
    and dir: "map_of dir = (map_of (os_dir st))(data_file_name i := None, hint_file_name i := None)"
      "set dir \<subseteq> set (os_dir st)" "distinct (map fst dir)"
    using dir_wfD(1) [OF D(6)] by blast
  let ?st' = "st\<lparr>os_ticks := n, os_dir := dir\<rparr>"
  have run: "running crc ?st' x' t" and view: "store_view crc ?st' = store_view crc st"
    using running_remove [OF R(1) [unfolded x] refl dir] by simp_all
  have ix: "log_index (x' @ t) = log_index (x @ t)"
    using remove_dead_index [of "[(i, ds)]" "x' @ t"] R(3) x by force
  have "removing crc first ?st' x' t is"
    unfolding removing_def
  proof (intro conjI ballI allI impI)
    show "running crc ?st' x' t" by (rule run)
    show "index_lookup (st_index ?st') = log_index (x' @ t)" using R(2) ix by simp
    show "iv_file_id e \<notin> set is" if "log_index (x' @ t) key = Some e" for key e
      using R(3) [of key e] that ix by simp
    show "sorted_wrt (<) is" using R(4) by simp
    show "j < first" if "j \<in> set is" for j using R(5) [of j] that by simp
    show "first < j" if "j \<in> log_ids t" for j using R(6) [OF that] .
    show "j \<in> set is" if j: "j \<in> log_ids x'" "j < first" for j
    proof -
      have "i < j"
        using running_ids(1) [OF R(1)] j(1) unfolding x log_ids_def by (auto simp: sorted_wrt_append)
      then show ?thesis using R(7) [of j] j x by (auto simp: log_ids_def)
    qed
  qed
  moreover have "log_view (x' @ t) = log_view (x @ t)"
    using running_log_view [OF run] running_log_view [OF R(1,2)] R(2) ix view by simp
  moreover have "keeps_inputs first st ?st'" by (simp add: keeps_inputs_def file_content_def)
  moreover have "i \<notin> log_ids x'"
    using running_ids(1) [OF R(1)] unfolding x log_ids_def by auto
  ultimately show ?thesis using rm x by (intro exI [of _ ?st'] exI [of _ x']) simp
qed

lemma remove_input_missing:
  assumes r: "removing crc first st x t (i # is)" and i: "i \<notin> log_ids x"
  shows "remove_input i st = (Inl not_found, tick st)"
proof -
  note R = removingD [OF r]
  have "i \<notin> log_ids (x @ t)" using i R(5) [of i] R(6) [of i] by auto
  then have "map_of (os_dir st) (data_file_name i) = None" using running_ids(2) [OF R(1), of i] by simp
  then show ?thesis
    using runningD(1) [OF R(1)] by (simp add: remove_input_def remove_file_def calm_syscall)
qed

end
