(* ===== verification/Compactor.thy ===== *)
theory Compactor
  imports Merge_Remove Kv_Trait
begin

text \<open>
  A compaction next to other threads. The compactor is cut into the steps between which another
  thread can run: opening an output and an input, one record, publishing an output, one update of
  the index, the removal of one file and the final update of the writer state. The operations of
  other threads are steps of their own: a write holds the writer lock from its first to its last
  effect. A \<open>remove\<close> looks the key up before it takes the lock, so that it may also be cut in two
  steps, the lookup and the write, with anything in between. A compaction that is not interrupted
  is a run of these steps.
\<close>

section \<open>The steps of the compactor\<close>

datatype compactor =
    Merging "(u64 \<times> nat) list" merge_state u64
  | Reading u64 record_reader merge_output "(u64 \<times> nat) list" merge_state u64
  | Updating "pending_update list" "(u64 \<times> nat) list" merge_state u64
  | Removing "u64 list" u64
  | Ended "kvs_error + unit"

definition merge_init :: "u64 \<Rightarrow> merge_state" where
  "merge_init first = \<lparr>ms_output = None, ms_next_id = first, ms_pending = [], ms_ids_to_remove = []\<rparr>"

definition publish_step ::
  "merge_output \<Rightarrow> (u64 \<times> nat) list \<Rightarrow> merge_state \<Rightarrow> u64 \<Rightarrow> store \<Rightarrow> compactor \<times> store" where
  "publish_step out files ms stale st =
     (case publish_output out st of
        (Inl e, st) \<Rightarrow> (Ended (Inl e), st)
      | (Inr _, st) \<Rightarrow> (Updating (ms_pending ms) files (ms\<lparr>ms_output := None, ms_pending := []\<rparr>) stale, st))"

text \<open>The end of an input file.\<close>

definition file_end ::
  "u64 \<Rightarrow> merge_output \<Rightarrow> (u64 \<times> nat) list \<Rightarrow> merge_state \<Rightarrow> u64 \<Rightarrow> store \<Rightarrow> compactor \<times> store" where
  "file_end i out files ms stale st =
     (let ms = ms\<lparr>ms_output := Some out, ms_ids_to_remove := ms_ids_to_remove ms @ [i]\<rparr> in
      if merge_is_full (cfg_file_size_threshold (st_config st)) out then publish_step out files ms stale st
      else (Merging files ms stale, st))"

fun compactor_step :: "(bytes \<Rightarrow> u32) \<Rightarrow> compactor \<Rightarrow> store \<Rightarrow> compactor \<times> store" where
  "compactor_step crc (Merging [] ms stale) st =
     (case ms_output ms of
        Some out \<Rightarrow> publish_step out [] ms stale st
      | None \<Rightarrow> (Removing (ms_ids_to_remove ms) stale, st))"
| "compactor_step crc (Merging ((i, fd) # files) ms stale) st =
     (case merge_slot ms st of
        (Inl e, st) \<Rightarrow> (Ended (Inl e), st)
      | (Inr (out, ms), st) \<Rightarrow>
          (case input_reader fd st of
             (Inl e, st) \<Rightarrow> (Ended (Inl e), merge_drop out st)
           | (Inr rr, st) \<Rightarrow> (Reading i rr out files ms stale, st)))"
| "compactor_step crc (Reading i rr out files ms stale) st =
     (case next_record rr of
        (Inl e, rr) \<Rightarrow> (Ended (Inl e), merge_drop out st)
      | (Inr (Record position bs), rr) \<Rightarrow>
          (case merge_record crc i position bs (ms_pending ms) (out, st) of
             (Inl e, out, st) \<Rightarrow> (Ended (Inl e), merge_drop out st)
           | (Inr ps, out, st) \<Rightarrow> (Reading i rr out files (ms\<lparr>ms_pending := ps\<rparr>) stale, st))
      | (Inr CleanEof, rr) \<Rightarrow> file_end i out files ms stale st
      | (Inr (TornTail position), rr) \<Rightarrow> (Ended (Inl Corruption), merge_drop out st))"
| "compactor_step crc (Updating [] files ms stale) st = (Merging files ms stale, st)"
| "compactor_step crc (Updating (p # ps) files ms stale) st =
     (case apply_update p st of
        (Inl e, st) \<Rightarrow> (Ended (Inl e), st)
      | (Inr _, st) \<Rightarrow> (Updating ps files ms stale, st))"
| "compactor_step crc (Removing [] stale) st = (case subtract_stale stale st of (r, st) \<Rightarrow> (Ended r, st))"
| "compactor_step crc (Removing (i # is) stale) st =
     (case remove_input i st of
        (Inl e, st) \<Rightarrow> (Ended (Inl e), st)
      | (Inr _, st) \<Rightarrow> (Removing is stale, st))"
| "compactor_step crc (Ended r) st = (Ended r, st)"

section \<open>Runs with other threads\<close>

text \<open>What a thread did, with what the caller saw of it.\<close>

datatype action =
    Compactor_Step
  | Did_Set bytes bytes
  | Did_Remove bytes
  | Found_No_Key bytes
  | Saw_Key bytes
  | Did_Remove_Late bytes
  | Did_Get bytes "bytes option"

text \<open>What is left of a \<open>remove\<close> after the key was found in the index.\<close>

definition remove_write :: "(bytes \<Rightarrow> u32) \<Rightarrow> bytes \<Rightarrow> store \<Rightarrow> (kvs_error + unit) \<times> store" where
  "remove_write crc key st =
     st_bind (unix_now st) (\<lambda>now st. store_append crc (Command_Rm (as_secs now) key) st)"

lemma bitcask_remove_split:
  "bitcask_remove crc key st =
     st_bind (read_access (st_index st) key, st) (\<lambda>m st.
     if m key = None then (Inl KeyNotFound, st) else remove_write crc key st)"
  unfolding bitcask_remove_def remove_write_def by (rule refl)

inductive step ::
  "(bytes \<Rightarrow> u32) \<Rightarrow> action \<Rightarrow> compactor \<times> store \<Rightarrow> compactor \<times> store \<Rightarrow> bool"
  for crc where
  compactor: "step crc Compactor_Step (c, st) (compactor_step crc c st)"
| client_set: "step crc (Did_Set key v) (c, st) (c, st')"
    if "pair_ok key v" and "bitcask_set crc key v st = (Inr (), st')"
| client_remove: "step crc (Did_Remove key) (c, st) (c, st')"
    if "pair_ok key []" and "bitcask_remove crc key st = (Inr (), st')"
| client_missing: "step crc (Found_No_Key key) (c, st) (c, st')"
    if "bitcask_remove crc key st = (Inl KeyNotFound, st')"
| client_check: "step crc (Saw_Key key) (c, st) (c, st)"
    if "read_access (st_index st) key = Inr m" and "m key \<noteq> None"
| client_late: "step crc (Did_Remove_Late key) (c, st) (c, st')"
    if "pair_ok key []" and "remove_write crc key st = (Inr (), st')"
| client_get: "step crc (Did_Get key r) (c, st) (c, st')"
    if "bitcask_get crc key st = Some (Inr r, st')"

inductive interleaved ::
  "(bytes \<Rightarrow> u32) \<Rightarrow> compactor \<times> store \<Rightarrow> action list \<Rightarrow> compactor \<times> store \<Rightarrow> bool"
  for crc where
  start: "interleaved crc s [] s"
| next_step: "interleaved crc s (acts @ [a]) s''" if "interleaved crc s acts s'" and "step crc a s' s''"

inductive_cases stepE: "step crc a (c, st) s'"

text \<open>
  The same actions on a map: None if one of them cannot have this answer. A \<open>remove\<close> whose write comes
  late may find that the key is already gone, if another thread has removed it.
\<close>

fun map_action :: "action \<Rightarrow> (bytes \<rightharpoonup> bytes) \<Rightarrow> (bytes \<rightharpoonup> bytes) option" where
  "map_action Compactor_Step m = Some m"
| "map_action (Did_Set key v) m = Some (m(key \<mapsto> v))"
| "map_action (Did_Remove key) m = (if m key = None then None else Some (m(key := None)))"
| "map_action (Found_No_Key key) m = (if m key = None then Some m else None)"
| "map_action (Saw_Key key) m = (if m key = None then None else Some m)"
| "map_action (Did_Remove_Late key) m = Some (m(key := None))"
| "map_action (Did_Get key r) m = (if m key = r then Some m else None)"

fun map_actions :: "action list \<Rightarrow> (bytes \<rightharpoonup> bytes) \<Rightarrow> (bytes \<rightharpoonup> bytes) option" where
  "map_actions [] m = Some m"
| "map_actions (a # acts) m = (case map_action a m of None \<Rightarrow> None | Some m' \<Rightarrow> map_actions acts m')"

lemma map_actions_snoc:
  "map_actions acts m = Some m1 \<Longrightarrow> map_action a m1 = Some m2 \<Longrightarrow> map_actions (acts @ [a]) m = Some m2"
  by (induction acts arbitrary: m) (auto split: option.splits)

definition client_actions :: "action list \<Rightarrow> nat" where
  "client_actions acts = length (filter (\<lambda>a. a \<noteq> Compactor_Step) acts)"

section \<open>A compaction that is not interrupted\<close>

abbreviation alone :: "(bytes \<Rightarrow> u32) \<Rightarrow> compactor \<times> store \<Rightarrow> compactor \<times> store \<Rightarrow> bool" where
  "alone crc \<equiv> rtranclp (step crc Compactor_Step)"

lemma alone_step: "compactor_step crc c st = s \<Longrightarrow> alone crc s s' \<Longrightarrow> alone crc (c, st) s'"
  using step.compactor [of crc c st] by (auto intro: converse_rtranclp_into_rtranclp)

lemma alone_interleaved:
  assumes "alone crc s s'"
  shows "\<exists>acts. interleaved crc s acts s' \<and> client_actions acts = 0 \<and> (\<forall>m. map_actions acts m = Some m)"
  using assms
proof induction
  case base
  have "interleaved crc s [] s" by (rule interleaved.start)
  then show ?case by (intro exI [of _ "[]"]) (simp add: client_actions_def)
next
  case (step s1 s2)
  then obtain acts where acts: "interleaved crc s acts s1" "client_actions acts = 0" "\<And>m. map_actions acts m = Some m"
    by blast
  have "interleaved crc s (acts @ [Compactor_Step]) s2" using acts(1) step.hyps(2) by (rule interleaved.next_step)
  moreover have "map_actions (acts @ [Compactor_Step]) m = Some m" for m
    by (rule map_actions_snoc [OF acts(3)]) simp
  ultimately show ?case using acts(2) by (intro exI [of _ "acts @ [Compactor_Step]"]) (simp add: client_actions_def)
qed

lemma updates_alone:
  assumes "apply_updates ps st = (r, st')"
  shows "alone crc (Updating ps files ms stale, st)
     (case r of Inl e \<Rightarrow> Ended (Inl e) | Inr _ \<Rightarrow> Merging files ms stale, st')"
  using assms
proof (induction ps arbitrary: st)
  case Nil
  then show ?case by (auto intro: alone_step)
next
  case (Cons p ps)
  obtain r1 st1 where p: "apply_update p st = (r1, st1)" by fastforce
  show ?case
  proof (cases r1)
    case (Inl e)
    with Cons.prems p show ?thesis by (auto intro: alone_step)
  next
    case (Inr u)
    with Cons.prems p have "apply_updates ps st1 = (r, st')" by simp
    from Cons.IH [OF this] show ?thesis using Inr p by (auto intro: alone_step)
  qed
qed

lemma publish_alone:
  assumes "finish_output out (ms_pending ms) st = (r, st')"
  shows "alone crc (publish_step out files ms stale st)
     (case r of Inl e \<Rightarrow> Ended (Inl e) | Inr _ \<Rightarrow> Merging files (ms\<lparr>ms_output := None, ms_pending := []\<rparr>) stale, st')"
proof -
  obtain r1 st1 where p: "publish_output out st = (r1, st1)" by fastforce
  show ?thesis
  proof (cases r1)
    case (Inl e)
    with assms p show ?thesis by (auto simp: finish_output_def publish_step_def)
  next
    case (Inr u)
    with assms p have "apply_updates (ms_pending ms) st1 = (r, st')" by (simp add: finish_output_def)
    then show ?thesis using p Inr by (simp add: publish_step_def updates_alone)
  qed
qed

lemma pending_upd: "ms\<lparr>ms_pending := ps, ms_pending := ps'\<rparr> = ms\<lparr>ms_pending := ps'\<rparr>"
  by (cases ms) simp

lemma loop_alone:
  assumes "merge_loop crc i rr (ms_pending ms) (out, st) = (r, out', st')"
  shows "alone crc (Reading i rr out files ms stale, st)
     (case r of
        Inl e \<Rightarrow> (Ended (Inl e), merge_drop out' st')
      | Inr ps \<Rightarrow> file_end i out' files (ms\<lparr>ms_pending := ps\<rparr>) stale st')"
  using assms
proof (induction "length (src_bytes (rr_reader rr))" arbitrary: rr ms out st rule: less_induct)
  case less
  obtain n rr1 where nr: "next_record rr = (n, rr1)" by fastforce
  have ms: "ms\<lparr>ms_pending := ms_pending ms\<rparr> = ms" by (cases ms) simp
  note unfold = merge_loop.simps [of crc i rr "ms_pending ms" "(out, st)"]
  show ?case
  proof (cases n)
    case (Inl e)
    with less.prems nr unfold show ?thesis by (auto intro: alone_step)
  next
    case (Inr rec)
    show ?thesis
    proof (cases rec)
      case (Record position bs)
      obtain r1 out1 st1 where mr: "merge_record crc i position bs (ms_pending ms) (out, st) = (r1, out1, st1)"
        by (metis prod.exhaust)
      show ?thesis
      proof (cases r1)
        case (Inl e)
        with less.prems nr unfold mr \<open>n = Inr rec\<close> Record show ?thesis by (auto intro: alone_step)
      next
        case r1: (Inr ps)
        have "merge_loop crc i rr1 (ms_pending (ms\<lparr>ms_pending := ps\<rparr>)) (out1, st1) = (r, out', st')"
          using less.prems nr unfold mr r1 \<open>n = Inr rec\<close> Record by simp
        from less.hyps [OF _ this] next_record_consumes nr \<open>n = Inr rec\<close> Record
        have "alone crc (Reading i rr1 out1 files (ms\<lparr>ms_pending := ps\<rparr>) stale, st1)
          (case r of Inl e \<Rightarrow> (Ended (Inl e), merge_drop out' st')
           | Inr ps \<Rightarrow> file_end i out' files (ms\<lparr>ms_pending := ps\<rparr>) stale st')"
          by (cases r) (simp_all add: pending_upd)
        then show ?thesis
          by (rule alone_step [rotated]) (use nr mr r1 \<open>n = Inr rec\<close> Record in simp)
      qed
    next
      case CleanEof
      with less.prems nr unfold Inr show ?thesis by (auto simp: ms intro: alone_step)
    next
      case (TornTail position)
      with less.prems nr unfold Inr show ?thesis by (auto intro: alone_step)
    qed
  qed
qed

lemma file_end_alone:
  assumes "(let ms' = ms\<lparr>ms_ids_to_remove := ms_ids_to_remove ms @ [i]\<rparr> in
          if merge_is_full (cfg_file_size_threshold (st_config st)) out
          then st_bind (finish_output out pending st) (\<lambda>_ st. (Inr (ms'\<lparr>ms_output := None, ms_pending := []\<rparr>), st))
          else (Inr (ms'\<lparr>ms_output := Some out, ms_pending := pending\<rparr>), st)) = (r, st')"
  shows "alone crc (file_end i out files (ms\<lparr>ms_pending := pending\<rparr>) stale st)
     (case r of Inl e \<Rightarrow> Ended (Inl e) | Inr ms \<Rightarrow> Merging files ms stale, st')"
proof (cases "merge_is_full (cfg_file_size_threshold (st_config st)) out")
  case False
  with assms show ?thesis by (cases ms) (auto simp: file_end_def Let_def)
next
  case True
  let ?ms = "ms\<lparr>ms_pending := pending, ms_output := Some out, ms_ids_to_remove := ms_ids_to_remove ms @ [i]\<rparr>"
  obtain r1 st1 where f: "finish_output out (ms_pending ?ms) st = (r1, st1)" by fastforce
  have "alone crc (file_end i out files (ms\<lparr>ms_pending := pending\<rparr>) stale st)
     (case r1 of Inl e \<Rightarrow> Ended (Inl e) | Inr _ \<Rightarrow> Merging files (?ms\<lparr>ms_output := None, ms_pending := []\<rparr>) stale, st1)"
    using publish_alone [OF f] True by (simp add: file_end_def Let_def)
  moreover have "st1 = st'" "r = (case r1 of Inl e \<Rightarrow> Inl e | Inr _ \<Rightarrow> Inr (?ms\<lparr>ms_output := None, ms_pending := []\<rparr>))"
    using assms True f by (cases r1; cases ms; auto simp: Let_def)+
  ultimately show ?thesis by (cases r1) simp_all
qed

lemma merge_file_alone:
  assumes "merge_file crc i fd ms st = (r, st')"
  shows "alone crc (Merging ((i, fd) # files) ms stale, st)
     (case r of Inl e \<Rightarrow> Ended (Inl e) | Inr ms \<Rightarrow> Merging files ms stale, st')"
proof -
  obtain r1 st1 where slot: "merge_slot ms st = (r1, st1)" by fastforce
  show ?thesis
  proof (cases r1)
    case (Inl e)
    with assms slot show ?thesis by (auto simp: merge_file_def intro: alone_step)
  next
    case (Inr om)
    obtain out ms1 where om: "om = (out, ms1)" by fastforce
    obtain r2 st2 where rd: "input_reader fd st1 = (r2, st2)" by fastforce
    show ?thesis
    proof (cases r2)
      case (Inl e)
      with assms slot rd \<open>r1 = Inr om\<close> om show ?thesis by (auto simp: merge_file_def intro: alone_step)
    next
      case r2: (Inr rr)
      obtain r3 out' st3 where loop: "merge_loop crc i rr (ms_pending ms1) (out, st2) = (r3, out', st3)"
        by (metis prod.exhaust)
      have go: "alone crc (Merging ((i, fd) # files) ms stale, st)
         (case r3 of Inl e \<Rightarrow> (Ended (Inl e), merge_drop out' st3)
          | Inr ps \<Rightarrow> file_end i out' files (ms1\<lparr>ms_pending := ps\<rparr>) stale st3)"
        by (rule alone_step [OF _ loop_alone [OF loop]]) (use slot rd Inr om r2 in simp)
      show ?thesis
      proof (cases r3)
        case (Inl e)
        with go assms slot rd r2 \<open>r1 = Inr om\<close> om loop show ?thesis by (auto simp: merge_file_def)
      next
        case r3: (Inr ps)
        have "(let ms' = ms1\<lparr>ms_ids_to_remove := ms_ids_to_remove ms1 @ [i]\<rparr> in
          if merge_is_full (cfg_file_size_threshold (st_config st3)) out'
          then st_bind (finish_output out' ps st3) (\<lambda>_ st. (Inr (ms'\<lparr>ms_output := None, ms_pending := []\<rparr>), st))
          else (Inr (ms'\<lparr>ms_output := Some out', ms_pending := ps\<rparr>), st3)) = (r, st')"
          using assms slot rd r2 Inr om loop r3 by (simp add: merge_file_def)
        from file_end_alone [OF this] go r3 show ?thesis by (auto intro: rtranclp_trans)
      qed
    qed
  qed
qed

lemma merge_files_alone:
  assumes "merge_files crc files ms st = (r, st')"
  shows "alone crc (Merging files ms stale, st) (case r of Inl e \<Rightarrow> Ended (Inl e) | Inr ms \<Rightarrow> Merging [] ms stale, st')"
  using assms
proof (induction files arbitrary: ms st)
  case (Cons f files)
  obtain i fd where f: "f = (i, fd)" by fastforce
  obtain r1 st1 where m: "merge_file crc i fd ms st = (r1, st1)" by fastforce
  note go = merge_file_alone [OF m, of files stale]
  show ?case
  proof (cases r1)
    case (Inl e)
    with go Cons.prems m f show ?thesis by auto
  next
    case (Inr ms1)
    then have "merge_files crc files ms1 st1 = (r, st')" using Cons.prems m f by simp
    from Cons.IH [OF this] go Inr f show ?thesis by (auto intro: rtranclp_trans)
  qed
qed auto

lemma removals_alone:
  assumes "st_bind (remove_inputs is st) (\<lambda>_ st. subtract_stale stale st) = (r, st')"
  shows "alone crc (Removing is stale, st) (Ended r, st')"
  using assms
proof (induction "is" arbitrary: st)
  case Nil
  then show ?case by (auto intro: alone_step)
next
  case (Cons i "is")
  obtain r1 st1 where rm: "remove_input i st = (r1, st1)" by fastforce
  show ?case
  proof (cases r1)
    case (Inl e)
    with Cons.prems rm show ?thesis by (auto intro: alone_step)
  next
    case (Inr u)
    with Cons.prems rm have "st_bind (remove_inputs is st1) (\<lambda>_ st. subtract_stale stale st) = (r, st')" by simp
    from Cons.IH [OF this] show ?thesis using Inr rm by (auto intro: alone_step)
  qed
qed

lemma compaction_merge_alone:
  assumes "compaction_merge crc snapshot stale first st = (r, st')"
  shows "alone crc (Merging snapshot (merge_init first) stale, st) (Ended r, st')"
proof -
  obtain r1 st1 where files: "merge_files crc snapshot (merge_init first) st = (r1, st1)" by fastforce
  note go = merge_files_alone [OF files, of stale]
  show ?thesis
  proof (cases r1)
    case (Inl e)
    with go assms files show ?thesis by (auto simp: compaction_merge_def merge_init_def)
  next
    case r1: (Inr ms)
    show ?thesis
    proof (cases "ms_output ms")
      case None
      have "st_bind (remove_inputs (ms_ids_to_remove ms) st1) (\<lambda>_ st. subtract_stale stale st) = (r, st')"
        using assms files r1 None by (simp add: compaction_merge_def merge_init_def)
      from removals_alone [OF this] have "alone crc (Merging [] ms stale, st1) (Ended r, st')"
        by (rule alone_step [rotated]) (simp add: None)
      with go r1 show ?thesis by (auto intro: rtranclp_trans)
    next
      case (Some out)
      obtain r2 st2 where fin: "finish_output out (ms_pending ms) st1 = (r2, st2)" by fastforce
      note pub = publish_alone [OF fin, of crc "[]" stale]
      have first: "alone crc (Merging [] ms stale, st1) s" if "alone crc (publish_step out [] ms stale st1) s" for s
        by (rule alone_step [OF _ that]) (simp add: Some)
      show ?thesis
      proof (cases r2)
        case (Inl e)
        with first [OF pub] go r1 assms files fin Some show ?thesis
          by (auto simp: compaction_merge_def merge_init_def intro: rtranclp_trans)
      next
        case r2: (Inr u)
        have "st_bind (remove_inputs (ms_ids_to_remove ms) st2) (\<lambda>_ st. subtract_stale stale st) = (r, st')"
          using assms files r1 Some fin r2 by (simp add: compaction_merge_def merge_init_def)
        from removals_alone [OF this]
        have "alone crc (Merging [] (ms\<lparr>ms_output := None, ms_pending := []\<rparr>) stale, st2) (Ended r, st')"
          by (rule alone_step [rotated]) simp
        then have "alone crc (publish_step out [] ms stale st1) (Ended r, st')"
          using pub r2 by (auto intro: rtranclp_trans)
        from first [OF this] go r1 show ?thesis by (auto intro: rtranclp_trans)
      qed
    qed
  qed
qed

end
