(* ===== verification/Compaction_Inv.thy ===== *)
theory Compaction_Inv
  imports Compactor
begin

text \<open>
  The invariant of the steps of a compaction, kept by the compactor and by the writes of other
  threads. \<open>x\<close> is the log up to the last published output and \<open>t\<close> what was written since the
  compaction started.
\<close>

section \<open>The input files\<close>

definition left_bytes :: "'a os_scheme \<Rightarrow> (u64 \<times> nat) list \<Rightarrow> nat" where
  "left_bytes st files = sum_list (map (\<lambda>(i, fd). length (file_content st fd)) files)"

text \<open>
  \<open>ids\<close> are the files that have been read and \<open>files\<close> those that have not. They are the files below
  the first reserved id; \<open>present\<close> says that all of them still exist.
\<close>

definition inputs ::
  "bool \<Rightarrow> u64 \<Rightarrow> store \<Rightarrow> log \<Rightarrow> u64 list \<Rightarrow> (u64 \<times> nat) list \<Rightarrow> bool" where
  "inputs present first st x ids files \<longleftrightarrow>
     sorted_wrt (<) (ids @ map fst files) \<and> (\<forall>i \<in> set (ids @ map fst files). i < first) \<and>
     (\<forall>(i, fd) \<in> set files. bt_get (st_readers st) i = Some fd) \<and>
     (\<forall>i \<in> log_ids x. i < first \<longrightarrow> i \<in> set (ids @ map fst files)) \<and>
     present = (set (ids @ map fst files) \<subseteq> log_ids x)"

lemma inputsD:
  assumes "inputs present first st x ids files"
  shows "sorted_wrt (<) (ids @ map fst files)" and "i \<in> set (ids @ map fst files) \<Longrightarrow> i < first"
    and "(i, fd) \<in> set files \<Longrightarrow> bt_get (st_readers st) i = Some fd"
    and "i \<in> log_ids x \<Longrightarrow> i < first \<Longrightarrow> i \<in> set (ids @ map fst files)"
    and "present = (set (ids @ map fst files) \<subseteq> log_ids x)"
  using assms unfolding inputs_def by blast+

lemma inputs_keep:
  assumes inp: "inputs present first st x ids files" and keep: "keeps_inputs first st st'"
  shows "inputs present first st' x ids files" and "left_bytes st' files = left_bytes st files"
proof -
  have same: "bt_get (st_readers st') i = Some fd \<and> file_content st' fd = file_content st fd"
    if "(i, fd) \<in> set files" for i fd
  proof -
    have "i < first" using inputsD(2) [OF inp, of i] that by force
    then show ?thesis using keep inputsD(3) [OF inp that] by (simp add: keeps_inputs_def)
  qed
  then show "inputs present first st' x ids files" using inp unfolding inputs_def by blast
  show "left_bytes st' files = left_bytes st files"
    unfolding left_bytes_def using same by (intro arg_cong [of _ _ sum_list] map_cong) auto
qed

lemma inputs_published:
  assumes inp: "inputs present first st x ids files" and "first < i"
  shows "inputs present first st (x @ [(i, cs)]) ids files"
proof -
  have "i \<notin> set (ids @ map fst files)" using inputsD(2) [OF inp, of i] assms(2) by (meson less_asym)
  then have "(set (ids @ map fst files) \<subseteq> log_ids (x @ [(i, cs)])) = (set (ids @ map fst files) \<subseteq> log_ids x)"
    by auto
  then show ?thesis using inp assms(2) unfolding inputs_def by auto
qed

lemma reads_keep:
  assumes rd: "reads crc st f cs1 cs2" and keep: "keeps_inputs first st st'" and f: "f \<le> first"
  shows "reads crc st' f cs1 cs2"
  using rd keep f unfolding reads_def keeps_inputs_def by fastforce

section \<open>The invariant\<close>

fun phase :: "(bytes \<Rightarrow> u32) \<Rightarrow> bool \<Rightarrow> u64 \<Rightarrow> u64 \<Rightarrow> store \<Rightarrow> log \<Rightarrow> log \<Rightarrow> compactor \<Rightarrow> bool" where
  "phase crc present first nxt st x t (Merging files ms stale) \<longleftrightarrow>
     inputs present first st x (ms_ids_to_remove ms) files \<and>
     (if files = [] \<and> ms_output ms = None then removing crc first st x t (ms_ids_to_remove ms)
      else merge_core crc first nxt st x t ms (left_bytes st files) (read_up_to (set (ms_ids_to_remove ms)) 0 0))"
| "phase crc present first nxt st x t (Reading i rr out files ms stale) \<longleftrightarrow>
     (\<exists>fd cs1 cs2. inputs present first st x (ms_ids_to_remove ms) ((i, fd) # files) \<and>
        reads crc st i cs1 cs2 \<and> rr = reader_on (log_bytes crc (cs1 @ cs2)) (length (log_bytes crc cs1)) \<and>
        merge_core crc first nxt st x t (ms\<lparr>ms_output := Some out\<rparr>)
          (length (log_bytes crc cs2) + left_bytes st files)
          (read_up_to (set (ms_ids_to_remove ms)) i (length (log_bytes crc cs1))))"
| "phase crc present first nxt st x t (Updating ps files ms stale) \<longleftrightarrow>
     inputs present first st x (ms_ids_to_remove ms) files \<and> ms_output ms = None \<and> ms_pending ms = [] \<and>
     first \<le> ms_next_id ms \<and> (\<exists>x0. moving crc first nxt st x0 x t (ms_next_id ms) ps) \<and>
     settled first x t (read_up_to (set (ms_ids_to_remove ms)) 0 0) \<and>
     (files \<noteq> [] \<longrightarrow> left_bytes st files \<le> merge_limit \<and>
        left_bytes st files <
          unat (cfg_file_size_threshold (st_config st)) * (unat nxt - 2 - unat (ms_next_id ms)))"
| "phase crc present first nxt st x t (Removing is stale) \<longleftrightarrow>
     removing crc first st x t is \<and> present = (set is \<subseteq> log_ids x)"
| "phase crc present first nxt st x t (Ended r) \<longleftrightarrow>
     (\<exists>is. removing crc first st x t is \<and> (present \<longrightarrow> is = [])) \<and>
     r = (if present then Inr () else Inl not_found)"

lemma phase_view:
  assumes "phase crc present first nxt st x t c"
  shows "running crc st x t" and "store_view crc st = log_view (x @ t)" and "i \<in> log_ids t \<Longrightarrow> first < i"
proof -
  have core: "running crc st x t \<and> store_view crc st = log_view (x @ t) \<and> (\<forall>i \<in> log_ids t. first < i)"
    if "merge_core crc first nxt st x t ms left processed" for ms left processed
    using merge_coreD [OF that] running_log_view by (blast intro: less_le_trans)
  have rem: "running crc st x t \<and> store_view crc st = log_view (x @ t) \<and> (\<forall>i \<in> log_ids t. first < i)"
    if "removing crc first st x t is" for "is"
    using removingD [OF that] running_log_view by blast
  have mov: "running crc st x t \<and> store_view crc st = log_view (x @ t) \<and> (\<forall>i \<in> log_ids t. first < i)"
    if "moving crc first nxt st x0 x t n ps" for x0 n ps
    using movingD [OF that] moving_view [OF that] by (blast intro: less_le_trans)
  have "running crc st x t \<and> store_view crc st = log_view (x @ t) \<and> (\<forall>i \<in> log_ids t. first < i)"
    using assms
  proof (cases c)
    case (Merging files ms stale)
    then show ?thesis using assms core rem by (auto split: if_splits)
  next
    case (Reading i rr out files ms stale)
    then show ?thesis using assms core unfolding Reading phase.simps by blast
  next
    case (Updating ps files ms stale)
    then show ?thesis using assms mov unfolding Updating phase.simps by blast
  next
    case (Removing "is" stale)
    then show ?thesis using assms rem unfolding Removing phase.simps by blast
  next
    case (Ended r)
    then show ?thesis using assms rem unfolding Ended phase.simps by blast
  qed
  then show "running crc st x t" "store_view crc st = log_view (x @ t)" "i \<in> log_ids t \<Longrightarrow> first < i" by blast+
qed

lemma phase_keep:
  assumes ph: "phase crc present first nxt st x t c" and keep: "keeps_inputs first st st'"
    and cfg: "st_config st' = st_config st"
    and core: "\<And>ms left processed. merge_core crc first nxt st x t ms left processed \<Longrightarrow>
      merge_core crc first nxt st' x t' ms left processed"
    and mov: "\<And>x0 n ps. moving crc first nxt st x0 x t n ps \<Longrightarrow> moving crc first nxt st' x0 x t' n ps"
    and set: "\<And>processed. settled first x t processed \<Longrightarrow> settled first x t' processed"
    and rem: "\<And>is. removing crc first st x t is \<Longrightarrow> removing crc first st' x t' is"
  shows "phase crc present first nxt st' x t' c"
proof (cases c)
  case (Merging files ms stale)
  then show ?thesis using ph inputs_keep [OF _ keep] core rem by (auto split: if_splits)
next
  case (Reading i rr out files ms stale)
  obtain fd cs1 cs2 where p: "inputs present first st x (ms_ids_to_remove ms) ((i, fd) # files)"
    "reads crc st i cs1 cs2" "rr = reader_on (log_bytes crc (cs1 @ cs2)) (length (log_bytes crc cs1))"
    "merge_core crc first nxt st x t (ms\<lparr>ms_output := Some out\<rparr>)
          (length (log_bytes crc cs2) + left_bytes st files)
          (read_up_to (set (ms_ids_to_remove ms)) i (length (log_bytes crc cs1)))"
    using ph unfolding Reading phase.simps by blast
  have i: "i \<le> first" using inputsD(2) [OF p(1), of i] by simp
  have "left_bytes st' files = left_bytes st files"
  proof -
    have "file_content st' fd = file_content st fd"
      using keep inputsD(3) [OF p(1), of i fd] i by (simp add: keeps_inputs_def)
    then show ?thesis using inputs_keep(2) [OF p(1) keep] by (simp add: left_bytes_def)
  qed
  then show ?thesis
    unfolding Reading phase.simps
    using inputs_keep(1) [OF p(1) keep] reads_keep [OF p(2) keep i] p(3) core [OF p(4)]
    by (intro exI [of _ fd] exI [of _ cs1] exI [of _ cs2]) simp
next
  case (Updating ps files ms stale)
  then obtain x0 where x0: "moving crc first nxt st x0 x t (ms_next_id ms) ps"
    and s: "settled first x t (read_up_to (set (ms_ids_to_remove ms)) 0 0)" using ph by auto
  have "\<exists>x0. moving crc first nxt st' x0 x t' (ms_next_id ms) ps" using mov [OF x0] by blast
  then show ?thesis using Updating ph inputs_keep [OF _ keep] set [OF s] cfg by auto
next
  case (Removing "is" stale)
  then show ?thesis using ph rem by simp
next
  case (Ended r)
  then show ?thesis using ph rem by auto
qed

lemma phase_client:
  assumes ph: "phase crc present first nxt st x t c" and did: "client_did crc cmd st st' x t t'"
  shows "phase crc present first nxt st' x t' c"
proof (rule phase_keep [OF ph])
  note V = phase_view [OF ph]
  have fr: "client_frame st st'" and g: "grown cmd t t'" using did by (simp_all add: client_did_def)
  show "keeps_inputs first st st'"
    by (rule keeps_inputs_client [OF V(1) fr V(3) [OF running_ids(3) [OF V(1)]]])
  show "st_config st' = st_config st" by (rule client_frameD(1) [OF fr])
  show "settled first x t' processed" if "settled first x t processed" for processed
    using settled_client [OF that g] V(3) by blast
qed (use merge_core_client [OF _ did] moving_client [OF _ did] removing_client [OF _ did] in blast)+

lemma phase_same:
  assumes ph: "phase crc present first nxt st x t c" and same: "same_store st st'"
  shows "phase crc present first nxt st' x t c"
  using same
  by (intro phase_keep [OF ph] merge_core_same [OF _ same] moving_same [OF _ same] removing_same [OF _ same])
     (simp_all add: same_store_def keeps_inputs_def)

section \<open>The steps of the compactor keep it\<close>

lemma read_up_to_start: "read_up_to D f 0 = read_up_to D 0 0"
  by (simp add: read_up_to_def fun_eq_iff)

lemma merge_core_ids:
  "merge_core crc first nxt st x t (ms\<lparr>ms_ids_to_remove := is\<rparr>) left processed =
     merge_core crc first nxt st x t ms left processed"
  by (simp add: merge_core_def output_part_def Let_def split: option.split)

lemma inputs_shift:
  "inputs present first st x ids ((i, fd) # files) \<Longrightarrow> inputs present first st x (ids @ [i]) files"
  by (simp add: inputs_def)

lemma publish_step_phase:
  assumes core: "merge_core crc first nxt st x t ms (left_bytes st files) (read_up_to (set (ms_ids_to_remove ms)) 0 0)"
    and out: "ms_output ms = Some out" and inp: "inputs present first st x (ms_ids_to_remove ms) files"
    and full: "files \<noteq> [] \<Longrightarrow> merge_is_full (cfg_file_size_threshold (st_config st)) out"
    and s: "publish_step out files ms stale st = (c', st')"
  shows "\<exists>x'. phase crc present first nxt st' x' t c' \<and> log_view (x' @ t) = log_view (x @ t) \<and>
     st_writer st' = st_writer st \<and> keeps_inputs first st st'"
proof -
  obtain st1 cs where p: "publish_output out st = (Inr (), st1)"
    "moving crc first nxt st1 x (x @ [(mo_id out, cs)]) t (ms_next_id ms) (ms_pending ms)"
    "settled first (x @ [(mo_id out, cs)]) t (read_up_to (set (ms_ids_to_remove ms)) 0 0)"
    "log_view ((x @ [(mo_id out, cs)]) @ t) = log_view (x @ t)" "keeps_inputs first st st1"
    "st_writer st1 = st_writer st" "st_config st1 = st_config st" "left_bytes st files \<le> merge_limit"
    "merge_is_full (cfg_file_size_threshold (st_config st)) out \<Longrightarrow>
        left_bytes st files < unat (cfg_file_size_threshold (st_config st)) * (unat nxt - 2 - unat (ms_next_id ms))"
    using publish_core [OF core out] by blast
  have c': "c' = Updating (ms_pending ms) files (ms\<lparr>ms_output := None, ms_pending := []\<rparr>) stale" "st' = st1"
    using s p(1) by (simp_all add: publish_step_def)
  have i: "first < mo_id out" using output_Some(2) [OF merge_coreD(12) [OF core] out merge_coreD(13) [OF core]] .
  have inp': "inputs present first st1 (x @ [(mo_id out, cs)]) (ms_ids_to_remove ms) files"
    and left: "left_bytes st1 files = left_bytes st files"
    using inputs_keep [OF inp p(5)] inputs_published [OF _ i] by blast+
  have "phase crc present first nxt st1 (x @ [(mo_id out, cs)]) t c'"
    using inp' left p(2,3,7,8,9) full merge_coreD(4) [OF core] by (auto simp: c'(1))
  then show ?thesis using p(4,5,6) c'(2) by blast
qed

lemma input_reader_calm:
  assumes "calm st"
  shows "\<exists>n. input_reader fd st = (Inr (reader_on (file_content st fd) 0), st\<lparr>os_ticks := n\<rparr>)"
  using assms
  by (intro exI [of _ "Suc (Suc (Suc (os_ticks st)))"]) (simp add: input_reader_def calm_calls reader_new)

lemma same_store_ticks: "same_store st (st\<lparr>os_ticks := n\<rparr>)"
  by (simp add: same_store_def file_content_def fun_eq_iff)

lemma merge_slot_phase:
  assumes core: "merge_core crc first nxt st x t ms left processed"
  shows "\<exists>out ms' st'. merge_slot ms st = (Inr (out, ms'), st') \<and>
     merge_core crc first nxt st' x t (ms'\<lparr>ms_output := Some out\<rparr>) left processed \<and>
     ms_ids_to_remove ms' = ms_ids_to_remove ms \<and> keeps_inputs first st st' \<and> st_writer st' = st_writer st"
proof (cases "ms_output ms")
  case None
  from merge_slot_core [OF core None] show ?thesis by fastforce
next
  case (Some out)
  then have "ms\<lparr>ms_output := Some out\<rparr> = ms" by (cases ms) simp
  then have "merge_core crc first nxt st x t (ms\<lparr>ms_output := Some out\<rparr>) left processed"
    using core by metis
  then show ?thesis using Some by (simp add: merge_slot_def keeps_inputs_def)
qed

lemma open_phase:
  assumes ph: "phase crc present first nxt st x t (Merging ((i, fd) # files) ms stale)"
    and s: "compactor_step crc (Merging ((i, fd) # files) ms stale) st = (c', st')"
  shows "phase crc present first nxt st' x t c' \<and> st_writer st' = st_writer st \<and> keeps_inputs first st st'"
proof -
  let ?ids = "ms_ids_to_remove ms"
  have inp: "inputs present first st x ?ids ((i, fd) # files)"
    and core: "merge_core crc first nxt st x t ms (left_bytes st ((i, fd) # files)) (read_up_to (set ?ids) 0 0)"
    using ph by simp_all
  obtain out ms1 st1 where slot: "merge_slot ms st = (Inr (out, ms1), st1)"
    and core1: "merge_core crc first nxt st1 x t (ms1\<lparr>ms_output := Some out\<rparr>)
      (left_bytes st ((i, fd) # files)) (read_up_to (set ?ids) 0 0)"
    and ids: "ms_ids_to_remove ms1 = ?ids" and keep: "keeps_inputs first st st1" and w: "st_writer st1 = st_writer st"
    using merge_slot_phase [OF core] by blast
  note inp1 = inputs_keep [OF inp keep]
  have rd: "bt_get (st_readers st1) i = Some fd" using inputsD(3) [OF inp1(1)] by simp
  obtain cs where cs: "file_content st1 fd = log_bytes crc cs" "list_all record_ok cs"
    using readers_logD(2) [OF runningD(4) [OF merge_coreD(1) [OF core1]] rd] by blast
  obtain n where r: "input_reader fd st1 = (Inr (reader_on (log_bytes crc cs) 0), st1\<lparr>os_ticks := n\<rparr>)"
    using input_reader_calm [OF runningD(1) [OF merge_coreD(1) [OF core1]], of fd] cs(1) by auto
  have c': "c' = Reading i (reader_on (log_bytes crc cs) 0) out files ms1 stale" "st' = st1\<lparr>os_ticks := n\<rparr>"
    using s slot r by simp_all
  have "left_bytes st ((i, fd) # files) = length (log_bytes crc cs) + left_bytes st1 files"
    using inp1(2) cs(1) by (simp add: left_bytes_def)
  then have "inputs present first st1 x ?ids ((i, fd) # files) \<and> reads crc st1 i [] cs \<and>
      reader_on (log_bytes crc cs) 0 = reader_on (log_bytes crc ([] @ cs)) (length (log_bytes crc [])) \<and>
      merge_core crc first nxt st1 x t (ms1\<lparr>ms_output := Some out\<rparr>)
        (length (log_bytes crc cs) + left_bytes st1 files) (read_up_to (set ?ids) i (length (log_bytes crc [])))"
    using inp1(1) rd cs core1 read_up_to_start [of "set ?ids" i] by (simp add: reads_def)
  then have "phase crc present first nxt st1 x t c'"
    unfolding c'(1) phase.simps ids by blast
  then show ?thesis using phase_same [OF _ same_store_ticks] c'(2) w keep by (simp add: keeps_inputs_def)
qed

lemma read_phase:
  assumes ph: "phase crc present first nxt st x t (Reading i rr out files ms stale)"
    and s: "compactor_step crc (Reading i rr out files ms stale) st = (c', st')"
  shows "\<exists>x'. phase crc present first nxt st' x' t c' \<and> log_view (x' @ t) = log_view (x @ t) \<and>
     st_writer st' = st_writer st \<and> keeps_inputs first st st'"
proof -
  let ?ids = "ms_ids_to_remove ms"
  obtain fd cs1 cs2 where inp: "inputs present first st x ?ids ((i, fd) # files)"
    and rd: "reads crc st i cs1 cs2" and rr: "rr = reader_on (log_bytes crc (cs1 @ cs2)) (length (log_bytes crc cs1))"
    and core: "merge_core crc first nxt st x t (ms\<lparr>ms_output := Some out\<rparr>)
          (length (log_bytes crc cs2) + left_bytes st files) (read_up_to (set ?ids) i (length (log_bytes crc cs1)))"
    using ph unfolding phase.simps by blast
  have i: "i \<le> first" "i \<notin> set ?ids" "\<And>d. d \<in> set ?ids \<Longrightarrow> d \<le> first"
    using inputsD(1,2) [OF inp] by (auto simp: sorted_wrt_append less_imp_le)
  note len = reads_pos(2) [OF merge_coreD(1) [OF core] rd]
  show ?thesis
  proof (cases cs2)
    case Nil
    have nr: "next_record rr = (Inr CleanEof, rr)"
      using next_record_at_end [of "log_bytes crc cs1"] len by (simp add: rr Nil)
    define ms1 where "ms1 = ms\<lparr>ms_output := Some out, ms_ids_to_remove := ?ids @ [i]\<rparr>"
    have core1: "merge_core crc first nxt st x t ms1 (left_bytes st files) (read_up_to (set (ms_ids_to_remove ms1)) 0 0)"
      using merge_core_end [OF core [unfolded Nil] rd [unfolded Nil] i(1,3), of 0]
      by (simp add: Nil merge_core_ids ms1_def)
    have inp1: "inputs present first st x (ms_ids_to_remove ms1) files"
      using inputs_shift [OF inp] by (simp add: ms1_def)
    have out1: "ms_output ms1 = Some out" by (simp add: ms1_def)
    show ?thesis
    proof (cases "merge_is_full (cfg_file_size_threshold (st_config st)) out")
      case True
      then have "publish_step out files ms1 stale st = (c', st')"
        using s nr by (simp add: file_end_def Let_def ms1_def)
      from publish_step_phase [OF core1 out1 inp1 True this] show ?thesis .
    next
      case False
      then have "c' = Merging files ms1 stale" "st' = st"
        using s nr by (simp_all add: file_end_def Let_def ms1_def)
      then show ?thesis using core1 inp1 out1 by (intro exI [of _ x]) (simp add: keeps_inputs_def)
    qed
  next
    case (Cons c cs3)
    have fits: "command_fits c" using rd Cons by (simp add: reads_def record_ok_def command_ok_def)
    have nr: "next_record rr = (Inr (Record (of_nat (length (log_bytes crc cs1))) (command_serialize crc c)),
        reader_on (log_bytes crc (cs1 @ cs2)) (length (log_bytes crc (cs1 @ [c]))))"
      unfolding rr using next_record_framed [OF _ framed_serialize [OF fits, of crc] len, of "log_bytes crc cs1" "log_bytes crc cs3"]
      by (simp add: Cons)
    have "merge_core crc first nxt st x t (ms\<lparr>ms_output := Some out\<rparr>)
        (record_len c + (length (log_bytes crc cs3) + left_bytes st files))
        (read_up_to (set ?ids) i (length (log_bytes crc cs1)))"
      using core by (simp add: Cons record_len_def ac_simps)
    from merge_record_core [OF this _ rd [unfolded Cons] i] obtain ps out1 st1 where
      mr: "merge_record crc i (of_nat (length (log_bytes crc cs1))) (command_serialize crc c) (ms_pending ms) (out, st) =
        (Inr ps, out1, st1)"
      and core1: "merge_core crc first nxt st1 x t (ms\<lparr>ms_output := Some out, ms_output := Some out1, ms_pending := ps\<rparr>)
        (length (log_bytes crc cs3) + left_bytes st files) (read_up_to (set ?ids) i (length (log_bytes crc (cs1 @ [c]))))"
      and keep: "keeps_inputs first st st1" and w: "st_writer st1 = st_writer st"
      by auto
    have c': "c' = Reading i (reader_on (log_bytes crc (cs1 @ cs2)) (length (log_bytes crc (cs1 @ [c])))) out1 files
        (ms\<lparr>ms_pending := ps\<rparr>) stale" "st' = st1"
      using s nr mr by simp_all
    have ms: "ms\<lparr>ms_output := Some out, ms_output := Some out1, ms_pending := ps\<rparr> =
        ms\<lparr>ms_pending := ps, ms_output := Some out1\<rparr>" by (cases ms) simp
    have left: "left_bytes st1 files = left_bytes st files"
      using inputs_keep(2) [OF inputs_shift [OF inp] keep] .
    have "phase crc present first nxt st1 x t c'"
      unfolding c'(1) phase.simps
    proof (rule exI [of _ fd], rule exI [of _ "cs1 @ [c]"], rule exI [of _ cs3], intro conjI)
      show "inputs present first st1 x (ms_ids_to_remove (ms\<lparr>ms_pending := ps\<rparr>)) ((i, fd) # files)"
        using inputs_keep(1) [OF inp keep] by simp
      show "reads crc st1 i (cs1 @ [c]) cs3" using reads_keep [OF rd keep i(1)] by (simp add: Cons reads_def)
      show "merge_core crc first nxt st1 x t (ms\<lparr>ms_pending := ps, ms_output := Some out1\<rparr>)
          (length (log_bytes crc cs3) + left_bytes st1 files)
          (read_up_to (set (ms_ids_to_remove (ms\<lparr>ms_pending := ps\<rparr>))) i (length (log_bytes crc (cs1 @ [c]))))"
        using core1 unfolding ms left by simp
    qed (simp add: Cons)
    then show ?thesis using w keep c'(2) by blast
  qed
qed

lemma update_phase:
  assumes ph: "phase crc present first nxt st x t (Updating ps files ms stale)"
    and s: "compactor_step crc (Updating ps files ms stale) st = (c', st')"
  shows "phase crc present first nxt st' x t c' \<and> st_writer st' = st_writer st \<and> keeps_inputs first st st'"
proof (cases ps)
  case (Cons p qs)
  obtain x0 where m: "moving crc first nxt st x0 x t (ms_next_id ms) (p # qs)" using ph Cons by auto
  obtain st1 where u: "apply_update p st = (Inr (), st1)" "moving crc first nxt st1 x0 x t (ms_next_id ms) qs"
    "keeps_inputs first st st1" "st_writer st1 = st_writer st" "st_config st1 = st_config st"
    using apply_update_moving [OF m] by blast
  have c': "c' = Updating qs files ms stale" "st' = st1" using s u(1) Cons by simp_all
  have inp: "inputs present first st x (ms_ids_to_remove ms) files" using ph by simp
  have "phase crc present first nxt st1 x t (Updating qs files ms stale)"
    using ph u(2,5) inputs_keep [OF inp u(3)] by auto
  then show ?thesis using c' u(3,4) by simp
next
  case Nil
  let ?ids = "ms_ids_to_remove ms"
  obtain x0 where m: "moving crc first nxt st x0 x t (ms_next_id ms) []" using ph Nil by auto
  note M = movingD [OF m]
  have p: "inputs present first st x ?ids files" "ms_output ms = None" "ms_pending ms = []" "first \<le> ms_next_id ms"
    "settled first x t (read_up_to (set ?ids) 0 0)"
    "files \<noteq> [] \<Longrightarrow> left_bytes st files \<le> merge_limit"
    "files \<noteq> [] \<Longrightarrow> left_bytes st files <
        unat (cfg_file_size_threshold (st_config st)) * (unat nxt - 2 - unat (ms_next_id ms))"
    using ph by auto
  have c': "c' = Merging files ms stale" "st' = st" using s Nil by simp_all
  have ix: "index_lookup (st_index st) = log_index (x @ t)" using M(8) by auto
  have above: "first < i" if "i \<in> log_ids t" for i using M(5) [OF that] M(2) by simp
  have not: "\<not> read_up_to (set ?ids) 0 0 e" if "log_index (x @ t) key = Some e" for key e
    using that p(5) unfolding settled_def by blast
  show ?thesis
  proof (cases "files = []")
    case True
    have "removing crc first st x t ?ids"
      unfolding removing_def
    proof (intro conjI allI ballI impI)
      show "iv_file_id e \<notin> set ?ids" if "log_index (x @ t) key = Some e" for key e
        using not [OF that] by (simp add: read_up_to_def)
      show "running crc st x t" by (rule M(1))
      show "index_lookup (st_index st) = log_index (x @ t)" by (rule ix)
      show "sorted_wrt (<) ?ids" using inputsD(1) [OF p(1)] True by simp
      show "i < first" if "i \<in> set ?ids" for i using inputsD(2) [OF p(1), of i] that by simp
      show "first < i" if "i \<in> log_ids t" for i by (rule above [OF that])
      show "i \<in> set ?ids" if "i \<in> log_ids x" "i < first" for i using inputsD(4) [OF p(1) that] True by simp
    qed
    then show ?thesis using c' p(1,2) True by (simp add: keeps_inputs_def)
  next
    case False
    have "merge_core crc first nxt st x t ms (left_bytes st files) (read_up_to (set ?ids) 0 0)"
    proof (rule merge_coreI [OF M(1) ix M(2) p(4) M(4,5,6,7)])
      show "output_part crc nxt st x t ms (left_bytes st files)"
        using p(2,3) p(6,7) [OF False] by (simp add: output_part_def Let_def)
      show "iv_file_id e \<le> first" if "read_up_to (set ?ids) 0 0 e" for e
        using that p(5) unfolding settled_def by blast
    qed (use not p(3) M(3) in auto)
    then show ?thesis using c' p(1) False by (simp add: keeps_inputs_def)
  qed
qed

lemma running_stale:
  assumes run: "running crc st x t" and st': "st' = upd_writer (\<lambda>w. w\<lparr>ws_stale_bytes_count := n\<rparr>) st"
  shows "running crc st' x t"
proof -
  have c: "file_content st' = file_content st" by (simp add: st' upd_writer_def file_content_def fun_eq_iff)
  have f: "os_dir st' = os_dir st" "length (os_inodes st') = length (os_inodes st)" "st_readers st' = st_readers st"
    "st_index st' = st_index st" "ws_current_file_id (st_writer st') = ws_current_file_id (st_writer st)"
    "ws_file (st_writer st') = ws_file (st_writer st)" "ws_offset (st_writer st') = ws_offset (st_writer st)"
    "st_writer_poisoned st' = st_writer_poisoned st" "calm st' = calm st"
    by (simp_all add: st' upd_writer_def calm_def)
  have "disk_log crc st' = disk_log crc st" by (rule disk_log_cong [OF f(1,2) c])
  moreover have "entry_bytes st' = entry_bytes st" unfolding fun_eq_iff entry_bytes_def c f by simp
  ultimately have "log_base crc st' = log_base crc st"
    by (simp add: fun_eq_iff log_base_def Let_def store_inv_def readers_ok_def writer_ok_def entries_ok_def
        entry_holds_def dir_wf_def c f)
  moreover have "readers_log crc st' = readers_log crc st" by (simp add: readers_log_def c f)
  ultimately show ?thesis using run by (simp add: running_def f)
qed

lemma remove_phase:
  assumes ph: "phase crc present first nxt st x t (Removing is stale)"
    and s: "compactor_step crc (Removing is stale) st = (c', st')"
  shows "\<exists>x'. phase crc present first nxt st' x' t c' \<and> log_view (x' @ t) = log_view (x @ t) \<and>
     ws_current_file_id (st_writer st') = ws_current_file_id (st_writer st) \<and> keeps_inputs first st st'"
proof (cases "is")
  case Nil
  have r: "removing crc first st x t []" and pr: "present" using ph Nil by simp_all
  let ?st = "upd_writer (\<lambda>w. w\<lparr>ws_stale_bytes_count := ws_stale_bytes_count (st_writer st) - stale\<rparr>) st"
  have "c' = Ended (Inr ())" "st' = ?st"
    using s Nil runningD(3) [OF removingD(1) [OF r]] by (simp_all add: subtract_stale_def writer_lock_def upd_writer_def)
  moreover have "removing crc first ?st x t []"
    using r running_stale [OF removingD(1) [OF r] refl] by (simp add: removing_def) (simp add: upd_writer_def)
  ultimately show ?thesis using pr by (intro exI [of _ x]) (auto simp: upd_writer_def keeps_inputs_def file_content_def)
next
  case (Cons i js)
  have r: "removing crc first st x t (i # js)" and pr: "present = (set (i # js) \<subseteq> log_ids x)"
    using ph Cons by simp_all
  show ?thesis
  proof (cases "i \<in> log_ids x")
    case True
    obtain st1 x' where rm: "remove_input i st = (Inr (), st1)" "removing crc first st1 x' t js"
      "log_view (x' @ t) = log_view (x @ t)" "log_ids x = insert i (log_ids x')" "i \<notin> log_ids x'"
      "st_writer st1 = st_writer st" "keeps_inputs first st st1"
      using remove_input_removing [OF r True] by blast
    have "i \<notin> set js" using removingD(4) [OF r] by auto
    then have "present = (set js \<subseteq> log_ids x')" using pr rm(4) by auto
    moreover have "c' = Removing js stale" "st' = st1" using s rm(1) Cons by simp_all
    ultimately show ?thesis using rm by (intro exI [of _ x']) simp
  next
    case False
    have "c' = Ended (Inl not_found)" "st' = tick st"
      using s remove_input_missing [OF r False] Cons by simp_all
    moreover have "removing crc first (tick st) x t (i # js)"
      using removing_same [OF r same_store_ticks] by simp
    ultimately show ?thesis using False pr by (intro exI [of _ x]) (auto simp: keeps_inputs_def)
  qed
qed

lemma phase_step:
  assumes ph: "phase crc present first nxt st x t c" and s: "compactor_step crc c st = (c', st')"
  shows "\<exists>x'. phase crc present first nxt st' x' t c' \<and> log_view (x' @ t) = log_view (x @ t) \<and>
     ws_current_file_id (st_writer st') = ws_current_file_id (st_writer st) \<and> keeps_inputs first st st'"
proof (cases c)
  case (Merging files ms stale)
  show ?thesis
  proof (cases files)
    case (Cons f fs)
    obtain i fd where "f = (i, fd)" by fastforce
    then show ?thesis using open_phase [of crc present first nxt st x t i fd fs ms stale] ph s Merging Cons by auto
  next
    case Nil
    show ?thesis
    proof (cases "ms_output ms")
      case None
      then show ?thesis using ph s Merging Nil inputsD(5) [of present first st x "ms_ids_to_remove ms" "[]"]
        by (intro exI [of _ x]) (auto simp: keeps_inputs_def)
    next
      case (Some out)
      have "publish_step out [] ms stale st = (c', st')" using s Merging Nil Some by simp
      moreover have "inputs present first st x (ms_ids_to_remove ms) []"
        "merge_core crc first nxt st x t ms (left_bytes st []) (read_up_to (set (ms_ids_to_remove ms)) 0 0)"
        using ph Merging Nil Some by simp_all
      ultimately show ?thesis using publish_step_phase [OF _ Some] by fastforce
    qed
  qed
next
  case (Reading i rr out files ms stale)
  then show ?thesis using read_phase [of crc present first nxt st x t i rr out files ms stale] ph s by fastforce
next
  case (Updating ps files ms stale)
  then show ?thesis using update_phase [of crc present first nxt st x t ps files ms stale] ph s by auto
next
  case (Removing "is" stale)
  then show ?thesis using remove_phase [of crc present first nxt st x t "is" stale] ph s by blast
next
  case (Ended r)
  then have "c' = c" "st' = st" using s by simp_all
  then show ?thesis using ph by (intro exI [of _ x]) (simp add: keeps_inputs_def)
qed

end
