(* ===== verification/Compaction.thy ===== *)
theory Compaction
  imports Compaction_Inv Kv_Store
begin

text \<open>
  The correctness of compaction: whatever other threads do in between, the store is the map that
  their operations make of it; a compaction runs to its end, and what it returns.
\<close>

section \<open>Writes of other threads\<close>

lemma store_append_current:
  assumes inv: "store_inv crc st" and ok: "store_append crc cmd st = (Inr u, st')"
    and ids: "ws_current_file_id (st_writer st) \<noteq> - 1"
  shows "unat (ws_current_file_id (st_writer st')) \<le> Suc (unat (ws_current_file_id (st_writer st)))"
proof -
  let ?cur = "ws_current_file_id (st_writer st)"
  from ok obtain st1 where rec: "append_record crc cmd st = (Inr (), st1)"
    and post: "post_write_ops st1 = (Inr u, st')"
    by (auto simp: store_append_def res_iffs)
  have cur: "ws_current_file_id (st_writer st1) = ?cur"
    using append_record_appended [OF inv rec] by (simp add: appended_def Let_def)
  have u: "unat (?cur + 1) = unat ?cur + 1" using ids by (rule unat_u64_inc)
  obtain st2 st3 where tr: "compaction_trigger st1 = (Inr (), st2)" and h: "handle_policy st2 = (Inr (), st3)"
    and r: "rotate_if_full st3 = (Inr u, st')"
    using post by (auto simp: post_write_ops_def res_iffs)
  have same: "same_store st1 st3"
    using compaction_trigger_same [OF tr] handle_policy_same [OF h] by (rule same_store_trans)
  have "os_dir st1 = os_dir st" using append_record_appended [OF inv rec] by (simp add: appended_def Let_def)
  then have st3: "ws_current_file_id (st_writer st3) = ?cur" "os_dir st3 = os_dir st"
    using same cur by (simp_all add: same_store_def)
  have "map_of (os_dir st) (data_file_name (?cur + 1)) = None"
    using inv u64_less_inc [OF ids] by (simp add: store_inv_def writer_ok_def Let_def)
  then have "ws_current_file_id (st_writer st') = ?cur + 1"
    if "rotate_to (?cur + 1) st3 = (Inr u, st')"
    using rotate_to_rotated [OF that] st3 by (simp add: rotated_def Let_def)
  then show ?thesis using r st3 u by (auto simp: rotate_if_full_def split: if_splits)
qed

lemma client_append:
  assumes run: "running crc st x t" and same: "same_store st st0" and ok: "store_append crc cmd st0 = (Inr u, st')"
    and cmd: "record_ok cmd" and ids: "ws_current_file_id (st_writer st) \<noteq> - 1"
  shows "\<exists>t'. client_did crc cmd st st' x t t' \<and>
     unat (ws_current_file_id (st_writer st')) \<le> Suc (unat (ws_current_file_id (st_writer st)))"
proof -
  have run0: "running crc st0 x t" using run running_same [OF same] by simp
  have ids0: "ws_current_file_id (st_writer st0) \<noteq> - 1" using ids same by (simp add: same_store_def)
  obtain t' where t': "grown cmd t t'" "running crc st' x t'" "client_frame st0 st'"
    "index_lookup (st_index st') = apply_op (index_lookup (st_index st0)) (record_op (fst (last t)) (tail_pos t) cmd)"
    using store_append_running [OF run0 ok cmd ids0] by blast
  have "client_frame st st'" using t'(3) same unfolding client_frame_def same_store_def by simp
  then have "client_did crc cmd st st' x t t'"
    using t' same by (simp add: client_did_def) (simp add: same_store_def)
  moreover have "unat (ws_current_file_id (st_writer st')) \<le> Suc (unat (ws_current_file_id (st_writer st0)))"
    by (rule store_append_current [OF runningD(5) [OF run0] ok ids0])
  ultimately show ?thesis using same by (auto simp: same_store_def)
qed

text \<open>No write reports a missing key after it has looked the key up.\<close>

definition key_found :: "(kvs_error + 'a) \<times> 's \<Rightarrow> bool" where
  "key_found r \<longleftrightarrow> fst r \<noteq> Inl KeyNotFound"

lemma key_found_intros:
  "key_found s \<Longrightarrow> (\<And>x st. key_found (f x st)) \<Longrightarrow> key_found (st_bind s f)"
  "key_found (Inr x, st)"
  "(\<And>st. key_found (g st)) \<Longrightarrow> key_found (syscall g st)"
  "key_found (writer_lock w)" "key_found (clock_now st)" "key_found (write_all fd bs st)"
  "key_found (write_access idx key, st)"
  by (cases s; cases "fst s"; auto simp: key_found_def)
     (auto simp: key_found_def syscall_def writer_lock_def clock_now_def write_all_def write_access_def Let_def
       split: option.splits)

lemma key_found_files: "key_found (open_create name st)" "key_found (open_read name st)" "key_found (sync_all fd st)"
  unfolding open_create_def open_read_def sync_all_def
  by (intro key_found_intros; simp add: key_found_def not_found_def split: option.split dir_entry.split)+

lemma rotate_key_found: "key_found (shared_sync st)" "key_found (rotate_to n st)"
  by (auto simp: shared_sync_def rotate_to_def Let_def unix_now_def intro!: key_found_intros key_found_files)

lemma append_index_key_found: "key_found (append_index cmd offset len st)"
  by (cases cmd) (auto simp: Let_def intro!: key_found_intros split: option.split)

lemma post_write_key_found: "key_found (post_write_ops st)"
  unfolding post_write_ops_def compaction_trigger_def handle_policy_def rotate_if_full_def
  by (auto simp: Let_def unix_now_def intro!: key_found_intros rotate_key_found split: durability_policy.split)

lemma store_append_not_missing: "store_append crc cmd st \<noteq> (Inl KeyNotFound, st')"
proof -
  have "key_found (store_append crc cmd st)"
    unfolding store_append_def append_record_def Let_def
    by (intro key_found_intros append_index_key_found post_write_key_found)
  then show ?thesis by (auto simp: key_found_def)
qed

section \<open>The invariant with other threads\<close>

lemma pair_ok_record: "pair_ok key v \<Longrightarrow> record_ok (Command_Set ts key v)"
  "pair_ok key [] \<Longrightarrow> record_ok (Command_Rm ts key)"
  by (simp_all add: pair_ok_def record_ok_def command_ok_def command_fits_def hint_fits_def pair_limit_def)

lemma client_rm:
  assumes run: "running crc st x t" and ids: "ws_current_file_id (st_writer st) \<noteq> - 1"
    and "pair_ok key []" and "remove_write crc key st = (Inr (), st')"
  shows "\<exists>cmd t'. client_did crc cmd st st' x t t' \<and> (log_view (x @ t))(key := None) = log_view (x @ t') \<and>
     unat (ws_current_file_id (st_writer st')) \<le> Suc (unat (ws_current_file_id (st_writer st)))"
proof -
  obtain ns st0 where now: "unix_now st = (Inr ns, st0)"
    and app: "store_append crc (Command_Rm (as_secs ns) key) st0 = (Inr (), st')"
    using assms(4) by (auto simp: remove_write_def res_iffs)
  obtain t' where did: "client_did crc (Command_Rm (as_secs ns) key) st st' x t t'"
    and cur: "unat (ws_current_file_id (st_writer st')) \<le> Suc (unat (ws_current_file_id (st_writer st)))"
    using client_append [OF run unix_now_same [OF now] app pair_ok_record(2) ids] assms(3) by blast
  have "(log_view (x @ t))(key := None) = log_view (x @ t')"
    using grown_view [of "Command_Rm (as_secs ns) key" t t' x] did by (simp add: client_did_def)
  with did cur show ?thesis by blast
qed

lemma client_step:
  assumes run: "running crc st x t" and view: "store_view crc st = log_view (x @ t)"
    and ids: "ws_current_file_id (st_writer st) \<noteq> - 1"
    and s: "step crc a (c, st) (c', st')" and a: "a \<noteq> Compactor_Step"
  shows "c' = c \<and>
     (same_store st st' \<and> map_action a (log_view (x @ t)) = Some (log_view (x @ t)) \<or>
      (\<exists>cmd t'. client_did crc cmd st st' x t t' \<and> map_action a (log_view (x @ t)) = Some (log_view (x @ t')) \<and>
         unat (ws_current_file_id (st_writer st')) \<le> Suc (unat (ws_current_file_id (st_writer st)))))"
  using s
proof cases
  case compactor
  then show ?thesis using a by simp
next
  case (client_set key v)
  obtain ns st0 where now: "unix_now st = (Inr ns, st0)"
    and app: "store_append crc (Command_Set (as_secs ns) key v) st0 = (Inr (), st')"
    using client_set by (auto simp: bitcask_set_def res_iffs)
  obtain t' where did: "client_did crc (Command_Set (as_secs ns) key v) st st' x t t'"
    and cur: "unat (ws_current_file_id (st_writer st')) \<le> Suc (unat (ws_current_file_id (st_writer st)))"
    using client_append [OF run unix_now_same [OF now] app pair_ok_record(1) ids] client_set by blast
  have "log_view (x @ t') = (log_view (x @ t))(key \<mapsto> v)"
    using grown_view [of "Command_Set (as_secs ns) key v" t t' x] did by (simp add: client_did_def)
  then have "map_action a (log_view (x @ t)) = Some (log_view (x @ t'))" using client_set by simp
  then show ?thesis using client_set(2) did cur by blast
next
  case (client_remove key)
  note D = runningD [OF run]
  have some: "index_lookup (st_index st) key \<noteq> None" and rm: "remove_write crc key st = (Inr (), st')"
    using client_remove access_Inr(1) [OF D(7,2)]
    by (auto simp: bitcask_remove_split res_iffs index_lookup_def split: if_splits)
  have "log_view (x @ t) key \<noteq> None" using store_view_None_iff [OF D(5), of key] some view by simp
  then show ?thesis using client_remove(1,2) client_rm [OF run ids _ rm] client_remove(3) by auto
next
  case (client_missing key)
  note D = runningD [OF run]
  have none: "index_lookup (st_index st) key = None \<and> st' = st"
  proof (rule ccontr)
    assume "\<not> ?thesis"
    then show False
      using client_missing access_Inr(1) [OF D(7,2)] store_append_not_missing
      by (auto simp: bitcask_remove_def res_iffs index_lookup_def unix_now_def clock_now_def split: if_splits option.splits)
  qed
  then have "log_view (x @ t) key = None" using store_view_None_iff [OF D(5), of key] view by simp
  then show ?thesis using client_missing none by auto
next
  case (client_check key m)
  note D = runningD [OF run]
  have "index_lookup (st_index st) key \<noteq> None"
    using client_check access_Inr(1) [OF D(7,2)] by (auto simp: index_lookup_def)
  then have "log_view (x @ t) key \<noteq> None" using store_view_None_iff [OF D(5), of key] view by simp
  then show ?thesis using client_check by simp
next
  case (client_late key)
  then show ?thesis using client_rm [OF run ids] by auto
next
  case (client_get key r)
  note D = runningD [OF run]
  have "os_faults st (os_ticks st) = None" using D(1) by (simp add: calm_def)
  from bitcask_get_view [OF D(5,2) this, of key] show ?thesis using client_get view by auto
qed

lemma keeps_inputs_trans: "keeps_inputs first a b \<Longrightarrow> keeps_inputs first b c \<Longrightarrow> keeps_inputs first a c"
  unfolding keeps_inputs_def by metis

lemma client_phase:
  assumes ph: "phase crc present first nxt st x t c" and ids: "ws_current_file_id (st_writer st) \<noteq> - 1"
    and s: "step crc a (c, st) (c', st')" and a: "a \<noteq> Compactor_Step"
  shows "\<exists>t'. phase crc present first nxt st' x t' c' \<and> map_action a (log_view (x @ t)) = Some (log_view (x @ t')) \<and>
     unat (ws_current_file_id (st_writer st')) \<le> Suc (unat (ws_current_file_id (st_writer st))) \<and> keeps_inputs first st st'"
proof -
  note V = phase_view [OF ph]
  from client_step [OF V(1,2) ids s a] have c': "c' = c"
    and "same_store st st' \<and> map_action a (log_view (x @ t)) = Some (log_view (x @ t)) \<or>
      (\<exists>cmd t'. client_did crc cmd st st' x t t' \<and> map_action a (log_view (x @ t)) = Some (log_view (x @ t')) \<and>
         unat (ws_current_file_id (st_writer st')) \<le> Suc (unat (ws_current_file_id (st_writer st))))"
    by blast+
  then consider (same) "same_store st st'" "map_action a (log_view (x @ t)) = Some (log_view (x @ t))"
    | (did) cmd t' where "client_did crc cmd st st' x t t'" "map_action a (log_view (x @ t)) = Some (log_view (x @ t'))"
        "unat (ws_current_file_id (st_writer st')) \<le> Suc (unat (ws_current_file_id (st_writer st)))"
    by blast
  then show ?thesis
  proof cases
    case same
    then show ?thesis
      using phase_same [OF ph same(1)] c' by (intro exI [of _ t]) (auto simp: same_store_def keeps_inputs_def)
  next
    case (did cmd t')
    have fr: "client_frame st st'" using did(1) by (simp add: client_did_def)
    have "keeps_inputs first st st'"
      by (rule keeps_inputs_client [OF V(1) fr V(3) [OF running_ids(3) [OF V(1)]]])
    then show ?thesis using phase_client [OF ph did(1)] did(2,3) c' by blast
  qed
qed

lemma interleaved_phase:
  assumes "interleaved crc s acts s'" and "s = (c, st)" and ph: "phase crc present first nxt st x t c"
    and "unat (ws_current_file_id (st_writer st)) + client_actions acts < 2 ^ 64"
  shows "\<exists>c' st' x' t'. s' = (c', st') \<and> phase crc present first nxt st' x' t' c' \<and>
     map_actions acts (log_view (x @ t)) = Some (log_view (x' @ t')) \<and>
     unat (ws_current_file_id (st_writer st')) \<le> unat (ws_current_file_id (st_writer st)) + client_actions acts \<and>
     keeps_inputs first st st'"
  using assms(1,2,4)
proof (induction rule: interleaved.induct)
  case (start s)
  show ?case using ph start.prems by (auto simp: keeps_inputs_def)
next
  case (next_step s acts s1 a s2)
  have "client_actions acts \<le> client_actions (acts @ [a])" by (simp add: client_actions_def)
  then have "unat (ws_current_file_id (st_writer st)) + client_actions acts < 2 ^ 64" using next_step.prems(2) by simp
  from next_step.IH [OF next_step.prems(1) this] obtain c1 st1 x1 t1 where s1: "s1 = (c1, st1)"
    and ph1: "phase crc present first nxt st1 x1 t1 c1"
    and ma: "map_actions acts (log_view (x @ t)) = Some (log_view (x1 @ t1))"
    and cur: "unat (ws_current_file_id (st_writer st1)) \<le> unat (ws_current_file_id (st_writer st)) + client_actions acts"
    and keep: "keeps_inputs first st st1" by blast
  obtain c2 st2 where s2: "s2 = (c2, st2)" by fastforce
  show ?case
  proof (cases "a = Compactor_Step")
    case True
    then have "compactor_step crc c1 st1 = (c2, st2)" using next_step.hyps(2) s1 s2 by (auto elim: step.cases)
    from phase_step [OF ph1 this] obtain x2 where x2: "phase crc present first nxt st2 x2 t1 c2"
      "log_view (x2 @ t1) = log_view (x1 @ t1)"
      "ws_current_file_id (st_writer st2) = ws_current_file_id (st_writer st1)" "keeps_inputs first st1 st2" by blast
    have "map_actions (acts @ [a]) (log_view (x @ t)) = Some (log_view (x2 @ t1))"
      using map_actions_snoc [OF ma] x2(2) True by simp
    then show ?thesis
      using s2 x2 cur keeps_inputs_trans [OF keep x2(4)] True
      by (intro exI [of _ c2] exI [of _ st2] exI [of _ x2] exI [of _ t1]) (simp add: client_actions_def)
  next
    case False
    then have n: "client_actions (acts @ [a]) = Suc (client_actions acts)" by (simp add: client_actions_def)
    have "ws_current_file_id (st_writer st1) \<noteq> - 1" using cur next_step.prems(2) n unat_u64_max by auto
    from client_phase [OF ph1 this next_step.hyps(2) [unfolded s1 s2] False] obtain t2 where
      t2: "phase crc present first nxt st2 x1 t2 c2" "map_action a (log_view (x1 @ t1)) = Some (log_view (x1 @ t2))"
      "unat (ws_current_file_id (st_writer st2)) \<le> Suc (unat (ws_current_file_id (st_writer st1)))"
      "keeps_inputs first st1 st2" by blast
    have "map_actions (acts @ [a]) (log_view (x @ t)) = Some (log_view (x1 @ t2))"
      by (rule map_actions_snoc [OF ma t2(2)])
    moreover have "unat (ws_current_file_id (st_writer st2)) \<le>
        unat (ws_current_file_id (st_writer st)) + client_actions (acts @ [a])"
      using cur t2(3) n by simp
    ultimately show ?thesis
      using s2 t2(1) keeps_inputs_trans [OF keep t2(4)] by blast
  qed
qed

section \<open>The start of a compaction\<close>

text \<open>A store whose index is that of the log on its disk, in an environment without faults.\<close>

definition live :: "(bytes \<Rightarrow> u32) \<Rightarrow> store \<Rightarrow> bool" where
  "live crc st \<longleftrightarrow> (\<exists>log. running crc st [] log \<and> index_lookup (st_index st) = log_index log)"

definition compaction_inputs :: "store \<Rightarrow> (u64 \<times> nat) list" where
  "compaction_inputs st = filter (\<lambda>(i, _). i \<noteq> ws_current_file_id (st_writer st)) (st_readers st)"

definition compaction_due :: "store \<Rightarrow> bool" where
  "compaction_due st \<longleftrightarrow>
     cfg_compaction_threshold (st_config st) \<le> ws_stale_bytes_count (st_writer st) \<and> compaction_inputs st \<noteq> []"

text \<open>
  No output of an interrupted compaction is left, and the ids do not run out; the bound on the size
  keeps every output within the size of a file.
\<close>

definition compactable :: "(bytes \<Rightarrow> u32) \<Rightarrow> store \<Rightarrow> bool" where
  "compactable crc st \<longleftrightarrow>
     live crc st \<and>
     (\<forall>i > ws_current_file_id (st_writer st). map_of (os_dir st) (data_file_name_compaction i) = None) \<and>
     left_bytes st (compaction_inputs st) \<le> merge_limit \<and>
     unat (ws_current_file_id (st_writer st)) +
       left_bytes st (compaction_inputs st) div unat (cfg_file_size_threshold (st_config st)) + 3 < 2 ^ 64"

text \<open>Whether the files of all readers are still there.\<close>

definition inputs_present :: "store \<Rightarrow> bool" where
  "inputs_present st \<longleftrightarrow> (\<forall>(i, fd) \<in> set (compaction_inputs st). map_of (os_dir st) (data_file_name i) \<noteq> None)"

lemma total_len_calm:
  "calm st \<Longrightarrow> \<exists>n. total_len files st = (of_nat (left_bytes st files), st\<lparr>os_ticks := n\<rparr>)"
proof (induction files arbitrary: st)
  case Nil
  then show ?case by (intro exI [of _ "os_ticks st"]) (simp add: left_bytes_def)
next
  case (Cons f files)
  have "calm (tick st)" using Cons.prems by simp
  from Cons.IH [OF this] obtain n where "total_len files (tick st) = (of_nat (left_bytes (tick st) files), st\<lparr>os_ticks := n\<rparr>)"
    by auto
  moreover have "left_bytes (tick st) files = left_bytes st files" by (simp add: left_bytes_def)
  ultimately show ?case
    using Cons.prems by (cases f) (auto simp: calm_calls left_bytes_def simp del: tick_def)
qed

lemma compaction_inputs_iff:
  assumes "running crc st x t"
  shows "(i, fd) \<in> set (compaction_inputs st) \<longleftrightarrow>
           bt_get (st_readers st) i = Some fd \<and> i < ws_current_file_id (st_writer st)"
    and "sorted_wrt (<) (map fst (compaction_inputs st))"
proof -
  note inv = runningD(5) [OF assms]
  have bt: "bt_ok (st_readers st)" and le: "\<And>i. i \<in> fst ` set (st_readers st) \<Longrightarrow> i \<le> ws_current_file_id (st_writer st)"
    using inv by (auto simp: store_inv_def readers_ok_def writer_ok_def Let_def)
  have "distinct (map fst (st_readers st))" using bt by (simp add: bt_ok_def strict_sorted_iff)
  then have "(i, fd) \<in> set (st_readers st) \<longleftrightarrow> bt_get (st_readers st) i = Some fd" by (simp add: bt_get_def)
  moreover have "i \<le> ws_current_file_id (st_writer st)" if "(i, fd) \<in> set (st_readers st)" using le that by force
  ultimately show "(i, fd) \<in> set (compaction_inputs st) \<longleftrightarrow>
           bt_get (st_readers st) i = Some fd \<and> i < ws_current_file_id (st_writer st)"
    by (auto simp: compaction_inputs_def)
  show "sorted_wrt (<) (map fst (compaction_inputs st))"
    using bt by (simp add: compaction_inputs_def bt_ok_def sorted_wrt_map sorted_wrt_filter)
qed

lemma reserved_ids:
  fixes cur thr :: u64
  assumes n: "unat cur + n div unat thr + 3 < 2 ^ 64" and thr: "thr \<noteq> 0" and limit: "n \<le> merge_limit"
  shows "unat (cur + (of_nat n div thr + 2) + 1) = unat cur + n div unat thr + 3"
    and "cur < cur + (of_nat n div thr + 2) + 1"
    and "n < unat thr * (unat (cur + (of_nat n div thr + 2) + 1) - 2 - unat cur)"
proof -
  have "unat (of_nat n :: u64) = n" using limit by (intro unat_u64_of_nat) (simp add: merge_limit_def)
  then have d: "unat (of_nat n div thr) = n div unat thr" by (simp add: unat_div)
  have "cur + (of_nat n div thr + 2) + 1 = of_nat (unat cur + unat (of_nat n div thr) + 3)" by simp
  also have "unat (of_nat (unat cur + unat (of_nat n div thr) + 3) :: u64) = unat cur + unat (of_nat n div thr) + 3"
    using n d by (intro unat_u64_of_nat) simp
  finally show u: "unat (cur + (of_nat n div thr + 2) + 1) = unat cur + n div unat thr + 3" using d by simp
  then show "cur < cur + (of_nat n div thr + 2) + 1" by (simp add: word_less_nat_alt)
  have "0 < unat thr" using thr by (simp add: unat_gt_0)
  then have "n < unat thr * (n div unat thr + 1)" using dividend_less_times_div [of "unat thr" n] by simp
  then show "n < unat thr * (unat (cur + (of_nat n div thr + 2) + 1) - 2 - unat cur)" using u by simp
qed

lemma running_rotated:
  assumes run: "running crc st [] log" and rot: "rotated nxt st st1" and above: "ws_current_file_id (st_writer st) < nxt"
  shows "running crc st1 log [(nxt, [])]" and "client_frame st st1"
proof -
  obtain b cs where log: "log = b @ [(ws_current_file_id (st_writer st), cs)]" and base: "log_base crc st b cs"
    using run by (auto simp: running_def)
  note D = runningD [OF run]
  have "log_base crc st1 log []" using log_base_rotated [OF base rot above] log by simp
  moreover have "readers_log crc st1" by (rule readers_log_rotated [OF D(5,4) rot])
  moreover have "calm st1 = calm st" using rot by (intro calm_cong) (simp_all add: rotated_def Let_def)
  ultimately show "running crc st1 log [(nxt, [])]"
    using D(1-3) rot by (simp add: running_def rotated_def Let_def)
  show "client_frame st st1" by (rule rotated_frame [OF D(5) rot above])
qed

lemma snapshot_inputs:
  assumes run: "running crc st [] log" and fr: "client_frame st st1"
  shows "inputs (inputs_present st) (ws_current_file_id (st_writer st)) st1 log [] (compaction_inputs st)"
  unfolding inputs_def
proof (intro conjI ballI impI)
  note iff = compaction_inputs_iff(1) [OF run]
  show "sorted_wrt (<) ([] @ map fst (compaction_inputs st))" using compaction_inputs_iff(2) [OF run] by simp
  show "i < ws_current_file_id (st_writer st)" if "i \<in> set ([] @ map fst (compaction_inputs st))" for i
    using that iff by auto
  show "case f of (i, fd) \<Rightarrow> bt_get (st_readers st1) i = Some fd" if "f \<in> set (compaction_inputs st)" for f
    using that iff client_frameD(6) [OF fr] by (cases f) auto
  show "i \<in> set ([] @ map fst (compaction_inputs st))"
    if i: "i \<in> log_ids log" "i < ws_current_file_id (st_writer st)" for i
  proof -
    obtain ds where "(i, ds) \<in> set log" using i(1) unfolding log_ids_iff by blast
    then obtain fd where "bt_get (st_readers st) i = Some fd" using running_log [OF run, of i ds] by auto
    then have "(i, fd) \<in> set (compaction_inputs st)" using iff i(2) by blast
    then show ?thesis by force
  qed
  have "map_of (os_dir st) (data_file_name i) \<noteq> None \<longleftrightarrow> i \<in> log_ids log" for i
    using running_ids(2) [OF run, of i] by simp
  then show "inputs_present st = (set ([] @ map fst (compaction_inputs st)) \<subseteq> log_ids log)"
    unfolding inputs_present_def by (auto simp del: not_None_eq)
qed

lemma snapshot_phase:
  assumes comp: "compactable crc st" and due: "compaction_due st" and thr: "cfg_file_size_threshold (st_config st) \<noteq> 0"
  shows "\<exists>st1 log nxt. compaction_snapshot st =
       (Some (Inr (Some (compaction_inputs st, ws_stale_bytes_count (st_writer st), ws_current_file_id (st_writer st)))), st1) \<and>
     phase crc (inputs_present st) (ws_current_file_id (st_writer st)) nxt st1 log [(nxt, [])]
       (Merging (compaction_inputs st) (merge_init (ws_current_file_id (st_writer st))) (ws_stale_bytes_count (st_writer st))) \<and>
     log_view (log @ [(nxt, [])]) = store_view crc st \<and> ws_current_file_id (st_writer st1) = nxt \<and>
     unat nxt = unat (ws_current_file_id (st_writer st)) +
       left_bytes st (compaction_inputs st) div unat (cfg_file_size_threshold (st_config st)) + 3 \<and>
     (\<forall>i. keeps_inputs i st st1)"
proof -
  let ?cur = "ws_current_file_id (st_writer st)" and ?files = "compaction_inputs st"
  let ?thr = "cfg_file_size_threshold (st_config st)"
  define n where "n = left_bytes st ?files"
  define nxt where "nxt = ?cur + (of_nat n div ?thr + 2) + 1"
  obtain log where run: "running crc st [] log" and ix: "index_lookup (st_index st) = log_index log"
    using comp by (auto simp: compactable_def live_def)
  note D = runningD [OF run]
  have bounds: "n \<le> merge_limit" "unat ?cur + n div unat ?thr + 3 < 2 ^ 64"
    using comp by (simp_all add: compactable_def n_def)
  note ids = reserved_ids [OF bounds(2) thr bounds(1), folded nxt_def]
  obtain k where total: "total_len ?files st = (of_nat n, st\<lparr>os_ticks := k\<rparr>)"
    using total_len_calm [OF D(1), of ?files] by (auto simp: n_def)
  let ?st = "st\<lparr>os_ticks := k\<rparr>"
  have fresh: "map_of (os_dir st) (data_file_name nxt) = None"
    using D(5) ids(2) by (simp add: store_inv_def writer_ok_def Let_def)
  have "calm ?st" using D(1) by simp
  with fresh obtain st1 where rot: "rotate_to nxt ?st = (Inr (), st1)" using calm_rotate_to [of ?st nxt] by auto
  have rotd: "rotated nxt ?st st1" by (rule rotate_to_rotated [OF rot]) (simp add: fresh)
  have run': "running crc ?st [] log" using run running_same [OF same_store_ticks] by simp
  have run1: "running crc st1 log [(nxt, [])]" and fr: "client_frame ?st st1"
    using running_rotated [OF run' rotd] ids(2) by simp_all
  have fr1: "client_frame st st1" using fr unfolding client_frame_def by simp
  have keep: "bt_get (st_readers st1) i = Some fd \<and> file_content st1 fd = file_content st fd"
    if "bt_get (st_readers st) i = Some fd" for i fd
    using client_frameD(6) [OF fr1 that] readers_ok_fd [OF D(8) that] rotd by (auto simp: rotated_def Let_def)
  have snap: "compaction_snapshot st =
       (Some (Inr (Some (?files, ws_stale_bytes_count (st_writer st), ?cur))), st1)"
    using D(3) due thr total rot
    by (simp add: compaction_snapshot_def writer_lock_def Let_def compaction_due_def compaction_inputs_def nxt_def not_less)
  have left: "left_bytes st1 ?files = n"
    unfolding n_def left_bytes_def using keep compaction_inputs_iff(1) [OF run]
    by (intro arg_cong [of _ _ sum_list] map_cong) auto
  have dir: "map_of (os_dir st1) name = map_of (os_dir st) name" if "name \<noteq> data_file_name nxt" for name
    using rotd that fresh by (simp add: rotated_def Let_def map_add_def split: option.split)
  have cfg: "st_config st1 = st_config st" by (rule client_frameD(1) [OF fr1])
  have core: "merge_core crc ?cur nxt st1 log [(nxt, [])] (merge_init ?cur) n (read_up_to {} 0 0)"
  proof (rule merge_coreI [OF run1 _ ids(2)])
    show "index_lookup (st_index st1) = log_index (log @ [(nxt, [])])"
      using ix rotd log_index_append_file [of log nxt] by (simp add: rotated_def Let_def)
    show "i \<le> ms_next_id (merge_init ?cur)" if "i \<in> log_ids log" for i
      using running_ids(4) [OF run, of i] that by (simp add: merge_init_def)
    show "map_of (os_dir st1) (data_file_name_compaction i) = None" if "ms_next_id (merge_init ?cur) < i" for i
      using that comp dir [of "data_file_name_compaction i"] by (simp add: merge_init_def compactable_def)
    show "map_of (os_dir st1) (hint_file_name i) = None" if "ms_next_id (merge_init ?cur) < i" for i
    proof -
      obtain b cs where "log_base crc st b cs" using run by (auto simp: running_def)
      from log_baseD(5) [OF this, of i] that show ?thesis
        using dir [of "hint_file_name i"] by (simp add: merge_init_def)
    qed
    show "output_part crc nxt st1 log [(nxt, [])] (merge_init ?cur) n"
      using ids(3) bounds(1) by (simp add: output_part_def merge_init_def cfg)
    show "?cur \<in> log_ids log" using running_ids(3) [OF run] .
  qed (auto simp: merge_init_def read_up_to_def)
  have "phase crc (inputs_present st) ?cur nxt st1 log [(nxt, [])]
      (Merging ?files (merge_init ?cur) (ws_stale_bytes_count (st_writer st)))"
    using snapshot_inputs [OF run fr1] core left due by (simp add: merge_init_def compaction_due_def)
  moreover have "log_view (log @ [(nxt, [])]) = store_view crc st"
    using running_log_view [OF run] ix by (simp add: log_view_def)
  moreover have "keeps_inputs i st st1" for i using keep by (simp add: keeps_inputs_def)
  ultimately show ?thesis using snap rotd ids(1) by (auto simp: rotated_def Let_def n_def)
qed

lemma total_len_config: "total_len files st = (n, st') \<Longrightarrow> st_config st' = st_config st"
  by (induction files arbitrary: st n) (auto simp: metadata_len_def syscall_def split: option.splits prod.splits)

lemma phase_ended:
  assumes "phase crc present first nxt st x t (Ended r)"
  shows "live crc st" and "r = (if present then Inr () else Inl not_found)"
    and "present \<Longrightarrow> i < first \<Longrightarrow> map_of (os_dir st) (data_file_name i) = None"
proof -
  obtain "is" where r: "removing crc first st x t is" and e: "present \<longrightarrow> is = []" using assms by auto
  note R = removingD [OF r]
  have "running crc st [] (x @ t)" using R(1) by (auto simp: running_def)
  then show "live crc st" using R(2) by (auto simp: live_def)
  show "r = (if present then Inr () else Inl not_found)" using assms by simp
  show "map_of (os_dir st) (data_file_name i) = None" if "present" "i < first"
  proof -
    have "i \<notin> log_ids (x @ t)" using R(6,7) [of i] e that by auto
    then show ?thesis using running_ids(2) [OF R(1), of i] by simp
  qed
qed

lemma merge_phase_ended:
  assumes ph: "phase crc present first nxt st x t (Merging files (merge_init first) stale)"
    and m: "compaction_merge crc files stale first st = (r, st')"
  shows "\<exists>x' t'. phase crc present first nxt st' x' t' (Ended r) \<and> log_view (x' @ t') = log_view (x @ t) \<and>
     keeps_inputs first st st'"
proof -
  obtain acts where acts: "interleaved crc (Merging files (merge_init first) stale, st) acts (Ended r, st')"
    "client_actions acts = 0" "\<And>m. map_actions acts m = Some m"
    using alone_interleaved [OF compaction_merge_alone [OF m]] by blast
  have "unat (ws_current_file_id (st_writer st)) + client_actions acts < 2 ^ 64" using acts(2) unat_u64_bound by simp
  from interleaved_phase [OF acts(1) refl ph this] obtain x' t' where
    "phase crc present first nxt st' x' t' (Ended r)" "map_actions acts (log_view (x @ t)) = Some (log_view (x' @ t'))"
    "keeps_inputs first st st'" by blast
  then show ?thesis using acts(3) [of "log_view (x @ t)"] by (metis option.inject)
qed

lemma interleaved_ended: "interleaved crc s acts s' \<Longrightarrow> fst s = Ended r \<Longrightarrow> fst s' = Ended r"
  by (induction rule: interleaved.induct) (auto elim!: step.cases)

lemma run_compaction_ends:
  assumes "compactable crc st" and "cfg_file_size_threshold (st_config st) \<noteq> 0"
  shows "\<exists>st'. run_compaction crc st =
           (Some (if compaction_due st \<and> \<not> inputs_present st then Inl not_found else Inr ()), st') \<and>
         live crc st' \<and> store_view crc st' = store_view crc st \<and>
         (if compaction_due st
          then inputs_present st \<longrightarrow>
            (\<forall>i < ws_current_file_id (st_writer st). map_of (os_dir st') (data_file_name i) = None)
          else st' = st)"
proof (cases "compaction_due st")
  case True
  obtain st1 log nxt where snap: "compaction_snapshot st =
       (Some (Inr (Some (compaction_inputs st, ws_stale_bytes_count (st_writer st), ws_current_file_id (st_writer st)))), st1)"
    and ph: "phase crc (inputs_present st) (ws_current_file_id (st_writer st)) nxt st1 log [(nxt, [])]
       (Merging (compaction_inputs st) (merge_init (ws_current_file_id (st_writer st))) (ws_stale_bytes_count (st_writer st)))"
    and view: "log_view (log @ [(nxt, [])]) = store_view crc st"
    using snapshot_phase [OF assms(1) True assms(2)] by blast
  obtain r st' where m: "compaction_merge crc (compaction_inputs st) (ws_stale_bytes_count (st_writer st))
      (ws_current_file_id (st_writer st)) st1 = (r, st')" by fastforce
  obtain x' t' where ph': "phase crc (inputs_present st) (ws_current_file_id (st_writer st)) nxt st' x' t' (Ended r)"
    and view': "log_view (x' @ t') = log_view (log @ [(nxt, [])])"
    using merge_phase_ended [OF ph m] by blast
  have "run_compaction crc st = (Some r, st')" using snap m by (simp add: run_compaction_def)
  then show ?thesis
    using True phase_ended [OF ph'] phase_view(2) [OF ph'] view view' by auto
next
  case False
  obtain log where run: "running crc st [] log" using assms(1) by (auto simp: compactable_def live_def)
  have "compaction_snapshot st = (Some (Inr None), st)"
    using False runningD(3) [OF run]
    by (auto simp: compaction_snapshot_def writer_lock_def Let_def compaction_due_def compaction_inputs_def)
  then show ?thesis using False assms(1) by (simp add: run_compaction_def compactable_def)
qed

end
