(* ===== verification/Compaction_Correct.thy ===== *)
theory Compaction_Correct
  imports Compaction
begin

text \<open>
  The theorems about compaction: no interleaving with other threads changes the map, a compaction
  ends, what becomes of the next one, and the division by zero.
\<close>

section \<open>A concrete run\<close>

text \<open>A live store stays live.\<close>

lemma live_step:
  assumes live: "live crc st" and ids: "ws_current_file_id (st_writer st) \<noteq> - 1"
    and s: "step crc a (c, st) (c', st')" and a: "a \<noteq> Compactor_Step"
  shows "live crc st' \<and> client_frame st st' \<and> map_action a (store_view crc st) = Some (store_view crc st')"
proof -
  obtain t where run: "running crc st [] t" and ix: "index_lookup (st_index st) = log_index t"
    using live by (auto simp: live_def)
  have view: "store_view crc st = log_view ([] @ t)" using running_log_view [OF run] ix by simp
  from client_step [OF run view ids s a] consider
    (same) "same_store st st'" "map_action a (log_view ([] @ t)) = Some (log_view ([] @ t))"
    | (did) cmd t' where "client_did crc cmd st st' [] t t'" "map_action a (log_view ([] @ t)) = Some (log_view ([] @ t'))"
    by blast
  then show ?thesis
  proof cases
    case same
    then have "live crc st'" using run ix running_same [OF same(1)] unfolding live_def same_store_def by auto
    then show ?thesis using same same_store_frame same_store_view [OF same(1)] view by simp
  next
    case (did cmd t')
    have d: "grown cmd t t'" "running crc st' [] t'" "client_frame st st'" using did(1) by (simp_all add: client_did_def)
    have ix': "index_lookup (st_index st') = log_index t'"
      using did(1) ix grown_index [OF d(1), of "[]"] by (simp add: client_did_def)
    then have "store_view crc st' = log_view ([] @ t')" using running_log_view [OF d(2)] by simp
    then show ?thesis using d ix' did(2) view unfolding live_def by auto
  qed
qed

lemma lock_file_name_other [simp]:
  "LOCK_FILE_NAME \<noteq> hint_file_name i" "LOCK_FILE_NAME \<noteq> data_file_name_compaction i"
  "hint_file_name i \<noteq> LOCK_FILE_NAME" "data_file_name_compaction i \<noteq> LOCK_FILE_NAME"
proof -
  have "last LOCK_FILE_NAME = CHR ''k''" by (simp add: LOCK_FILE_NAME_def)
  moreover have "last (hint_file_name i) = CHR ''t''" "last (data_file_name_compaction i) = CHR ''t''"
    by (simp_all add: hint_file_name_def data_file_name_compaction_def)
  ultimately show "LOCK_FILE_NAME \<noteq> hint_file_name i" "LOCK_FILE_NAME \<noteq> data_file_name_compaction i"
    "hint_file_name i \<noteq> LOCK_FILE_NAME" "data_file_name_compaction i \<noteq> LOCK_FILE_NAME" by auto
qed

lemma new_store_live: "live crc (new_store (\<lambda>_. Some 0) (\<lambda>_. None) cfg)"
proof -
  let ?st = "new_store (\<lambda>_. Some 0) (\<lambda>_. None) cfg"
  have f: "os_dir ?st = [(LOCK_FILE_NAME, File_Entry 0), (data_file_name 1, File_Entry 1)]"
    "st_readers ?st = [(1, 1)]" "ws_current_file_id (st_writer ?st) = 1" "file_content ?st (Suc 0) = []"
    "length (os_inodes ?st) = 2" "calm ?st" "no_poison (st_index ?st)" "\<not> st_writer_poisoned ?st"
    "index_lookup (st_index ?st) = Map.empty"
    by (simp_all add: new_store_def file_content_def calm_def index_lookup_from)
  have lock: "scan_file LOCK_FILE_NAME e = None" for e
    by (simp add: scan_file_def LOCK_FILE_NAME_def get_file_id_def strip_suffix_def ends_with_def split: dir_entry.split)
  have dir: "map_of (os_dir ?st) (data_file_name i) = (if i = 1 then Some (File_Entry 1) else None)" for i
    by (simp add: f)
  have "disk_log crc ?st [] 1 [] []"
    unfolding disk_log_def using lock
    by (auto simp: f dir file_ok_def scan_file_def split: if_splits dir_entry.splits)
  moreover have "dir_wf ?st" unfolding dir_wf_def by (auto simp: f split: if_splits)
  moreover have "bt_get (st_readers ?st) i = Some fd" if "map_of (os_dir ?st) (data_file_name i) = Some (File_Entry fd)" for i fd
    using that by (simp add: dir f bt_get_def split: if_splits)
  ultimately have "log_base crc ?st [] []"
    by (intro log_baseI [OF f(3) new_store_inv]) (simp_all add: f)
  moreover have "readers_log crc ?st"
    by (auto simp: readers_log_def f bt_get_def intro!: exI [of _ "[]"] split: if_splits)
  ultimately have "running crc ?st [] [(1, [])]" using f(6-8) by (simp add: running_def f(3))
  moreover have "log_index [(1, [])] = Map.empty" using log_index_append_file [of "[]" 1] by (simp add: log_index_def log_ops_def)
  ultimately show ?thesis using f(9) unfolding live_def by auto
qed

text \<open>A store that starts a new file after every record and compacts whenever it can.\<close>

definition small_store :: store where
  "small_store = new_store (\<lambda>_. Some 0) (\<lambda>_. None)
     ((config_new ''/data'' StoreType_Bitcask)\<lparr>cfg_file_size_threshold := 1, cfg_compaction_threshold := 0\<rparr>)"

definition sealed_store :: store where
  "sealed_store = snd (bitcask_set sum_crc [107] [118] small_store)"

lemma sealed_store_eval:
  "(case bitcask_set sum_crc [107] [118] small_store of
      (r, st) \<Rightarrow> (r, st_readers st, ws_current_file_id (st_writer st), length (file_content st 1))) =
   (Inr (), [(1, 1), (2, 2)], 2, 27)"
  by code_simp

lemma sealed_store_fields:
  "bitcask_set sum_crc [107] [118] small_store = (Inr (), sealed_store)"
  "st_readers sealed_store = [(1, 1), (2, 2)]" "ws_current_file_id (st_writer sealed_store) = 2"
  "length (file_content sealed_store 1) = 27"
  using sealed_store_eval unfolding sealed_store_def
  by (cases "bitcask_set sum_crc [107] [118] small_store"; simp)+

lemma sealed_store_inputs: "compaction_inputs sealed_store = [(1, 1)]"
  by (simp add: compaction_inputs_def sealed_store_fields)

lemma sealed_store_frame: "live sum_crc sealed_store \<and> client_frame small_store sealed_store"
  and sealed_store_view: "store_view sum_crc sealed_store = [[107] \<mapsto> [118]]"
proof -
  have "pair_ok [107] [118]" using small_pair(2) utf8_valid_ascii [of "[107]"] by (simp add: pair_ok_def pair_limit_def)
  then have "step sum_crc (Did_Set [107] [118]) (Ended (Inr ()), small_store) (Ended (Inr ()), sealed_store)"
    using sealed_store_fields(1) by (rule step.client_set)
  moreover have "live sum_crc small_store" unfolding small_store_def by (rule new_store_live)
  moreover have "ws_current_file_id (st_writer small_store) \<noteq> - 1" by (simp add: small_store_def new_store_def)
  ultimately have "live sum_crc sealed_store \<and> client_frame small_store sealed_store \<and>
      map_action (Did_Set [107] [118]) (store_view sum_crc small_store) = Some (store_view sum_crc sealed_store)"
    using live_step by blast
  then show "live sum_crc sealed_store \<and> client_frame small_store sealed_store"
    "store_view sum_crc sealed_store = [[107] \<mapsto> [118]]"
    by (simp_all add: small_store_def new_store_view)
qed

lemma sealed_store_compactable:
  "compactable sum_crc sealed_store" "compaction_due sealed_store" "inputs_present sealed_store"
  "cfg_file_size_threshold (st_config sealed_store) = 1"
proof -
  note fr = client_frameD [OF conjunct2 [OF sealed_store_frame]]
  have cfg: "st_config sealed_store = (config_new ''/data'' StoreType_Bitcask)
      \<lparr>cfg_file_size_threshold := 1, cfg_compaction_threshold := 0\<rparr>"
    using fr(1) by (simp add: small_store_def new_store_def)
  then show "cfg_file_size_threshold (st_config sealed_store) = 1" by simp
  show "compaction_due sealed_store" by (simp add: compaction_due_def cfg sealed_store_inputs)
  have dir: "os_dir small_store = [(LOCK_FILE_NAME, File_Entry 0), (data_file_name 1, File_Entry 1)]"
    by (simp add: small_store_def new_store_def)
  have "map_of (os_dir sealed_store) (data_file_name 1) = Some (File_Entry 1)" by (rule fr(3)) (simp add: dir)
  then show "inputs_present sealed_store" by (simp add: inputs_present_def sealed_store_inputs)
  have "map_of (os_dir sealed_store) (data_file_name_compaction i) = None" for i
  proof (rule ccontr)
    assume "map_of (os_dir sealed_store) (data_file_name_compaction i) \<noteq> None"
    then show False
      using fr(4) [of "data_file_name_compaction i"] lock_file_name_other(2) [of i] by (auto simp: dir split: if_splits)
  qed
  then show "compactable sum_crc sealed_store"
    using conjunct1 [OF sealed_store_frame]
    by (simp add: compactable_def left_bytes_def sealed_store_inputs sealed_store_fields
        sealed_store_fields(4) [unfolded One_nat_def] cfg merge_limit_def)
qed

lemma total_len_ticks: "\<exists>m n. total_len files st = (m, st\<lparr>os_ticks := n\<rparr>)"
proof (induction files arbitrary: st)
  case Nil
  then show ?case by (intro exI [of _ 0] exI [of _ "os_ticks st"]) simp
next
  case (Cons f files)
  obtain r where r: "metadata_len (snd f) st = (r, tick st)"
    by (cases "os_faults st (os_ticks st)") (auto simp: metadata_len_def syscall_def)
  obtain m n where "total_len files (tick st) = (m, (tick st)\<lparr>os_ticks := n\<rparr>)" using Cons.IH by blast
  then show ?case using r by (cases f) auto
qed

section \<open>Correctness\<close>

text \<open>
  C5. A compaction does not change what the store stands for, whatever other threads do while it
  runs. In every state of every run, after every sequence of steps of the compactor and of \<open>set\<close>,
  \<open>remove\<close> and \<open>get\<close> calls in between, the store is the map that these calls make of the map before,
  every \<open>get\<close> returned the value of the key in that map, and \<open>remove\<close> reported a missing key exactly
  when the key was absent. A \<open>remove\<close> may also be interrupted between its lookup, which saw the key in
  the map, and its write, which deletes it whatever happened in between. The store invariant holds,
  and if the compactor has ended, then with \<open>Ok\<close>, or because the file of a reader does not exist.
\<close>

theorem compaction_interleaved:
  assumes "compactable crc st"
    and "compaction_snapshot st = (Some (Inr (Some (snapshot, stale, first))), st1)"
    and "interleaved crc (Merging snapshot (merge_init first) stale, st1) acts (c, st2)"
    and "unat (ws_current_file_id (st_writer st1)) + client_actions acts < 2 ^ 64"
  shows "map_actions acts (store_view crc st) = Some (store_view crc st2) \<and> store_inv crc st2 \<and>
         (\<forall>r. c = Ended r \<longrightarrow> r = (if inputs_present st then Inr () else Inl not_found))"
proof -
  have due: "compaction_due st" and thr: "cfg_file_size_threshold (st_config st) \<noteq> 0"
    using assms(2) total_len_config [of _ st]
    by (auto simp: compaction_snapshot_def writer_lock_def Let_def compaction_due_def compaction_inputs_def not_less
        split: if_splits sum.splits prod.splits)
  obtain log nxt where ph: "phase crc (inputs_present st) first nxt st1 log [(nxt, [])] (Merging snapshot (merge_init first) stale)"
    and view: "log_view (log @ [(nxt, [])]) = store_view crc st"
    using snapshot_phase [OF assms(1) due thr] assms(2) by auto
  obtain x' t' where ph': "phase crc (inputs_present st) first nxt st2 x' t' c"
    and acts: "map_actions acts (log_view (log @ [(nxt, [])])) = Some (log_view (x' @ t'))"
    using interleaved_phase [OF assms(3) refl ph assms(4)] by auto
  have "store_inv crc st2" by (rule runningD(5) [OF phase_view(1) [OF ph']])
  then show ?thesis using acts view phase_view(2) [OF ph'] phase_ended(2) ph' by auto
qed

theorem compaction_interleaved_witness:
  "\<exists>snapshot stale first st1 c st2.
     compaction_snapshot sealed_store = (Some (Inr (Some (snapshot, stale, first))), st1) \<and>
     interleaved sum_crc (Merging snapshot (merge_init first) stale, st1)
       [Compactor_Step, Did_Get [107] (Some [118])] (c, st2) \<and>
     store_view sum_crc st2 = [[107] \<mapsto> [118]]"
proof -
  let ?first = "ws_current_file_id (st_writer sealed_store)"
  let ?c = "Merging (compaction_inputs sealed_store) (merge_init ?first) (ws_stale_bytes_count (st_writer sealed_store))"
  have thr: "cfg_file_size_threshold (st_config sealed_store) \<noteq> 0" using sealed_store_compactable(4) by simp
  obtain st1 log nxt where snap: "compaction_snapshot sealed_store =
       (Some (Inr (Some (compaction_inputs sealed_store, ws_stale_bytes_count (st_writer sealed_store), ?first))), st1)"
    and ph: "phase sum_crc (inputs_present sealed_store) ?first nxt st1 log [(nxt, [])] ?c"
    and v1: "log_view (log @ [(nxt, [])]) = store_view sum_crc sealed_store"
    and nxt: "ws_current_file_id (st_writer st1) = nxt"
      "unat nxt = unat ?first + left_bytes sealed_store (compaction_inputs sealed_store) div
         unat (cfg_file_size_threshold (st_config sealed_store)) + 3"
    using snapshot_phase [OF sealed_store_compactable(1,2) thr] by blast
  obtain c st2 where s: "compactor_step sum_crc ?c st1 = (c, st2)" by fastforce
  obtain x t where ph2: "phase sum_crc (inputs_present sealed_store) ?first nxt st2 x t c"
    and v2: "log_view (x @ t) = log_view (log @ [(nxt, [])])"
    using phase_step [OF ph s] by blast
  note D = runningD [OF phase_view(1) [OF ph2]]
  have view: "store_view sum_crc sealed_store = [[107] \<mapsto> [118]]" by (rule sealed_store_view)
  have "os_faults st2 (os_ticks st2) = None" using D(1) by (simp add: calm_def)
  from bitcask_get_view [OF D(5,2) this, of "[107]"] obtain st3 where
    get: "bitcask_get sum_crc [107] st2 = Some (Inr (Some [118]), st3)"
    using phase_view(2) [OF ph2] v1 v2 view by auto
  have step1: "step sum_crc Compactor_Step (?c, st1) (c, st2)" using step.compactor [of sum_crc ?c st1] s by simp
  have "interleaved sum_crc (?c, st1) ([] @ [Compactor_Step]) (c, st2)"
    by (rule interleaved.next_step [OF interleaved.start step1])
  from interleaved.next_step [OF this step.client_get [OF get]]
  have runs: "interleaved sum_crc (?c, st1) [Compactor_Step, Did_Get [107] (Some [118])] (c, st3)" by simp
  have "unat (ws_current_file_id (st_writer st1)) + client_actions [Compactor_Step, Did_Get [107] (Some [118])] < 2 ^ 64"
    using nxt by (simp add: client_actions_def sealed_store_inputs sealed_store_fields left_bytes_def
        sealed_store_fields(4) [unfolded One_nat_def] sealed_store_compactable(4))
  from compaction_interleaved [OF sealed_store_compactable(1) snap runs this]
  have "store_view sum_crc st3 = [[107] \<mapsto> [118]]" using view by simp
  then show ?thesis using snap runs by blast
qed

text \<open>
  C6. A compaction that no other thread interrupts returns, and the store is the same map as before.
  It returns \<open>Ok\<close> with no file of the ones it merged left, so that all ids on disk are at least that
  of the file that was active when it started; if there are fewer stale bytes than the threshold or
  nothing to merge, it changes nothing. It returns an error exactly if it is due and the file of one
  of its readers does not exist.
\<close>

theorem compaction_completes:
  assumes "compactable crc st" and "cfg_file_size_threshold (st_config st) \<noteq> 0"
  shows "\<exists>st'. run_compaction crc st =
           (Some (if compaction_due st \<and> \<not> inputs_present st then Inl not_found else Inr ()), st') \<and>
         live crc st' \<and> store_view crc st' = store_view crc st \<and>
         (if compaction_due st
          then inputs_present st \<longrightarrow>
            (\<forall>i < ws_current_file_id (st_writer st). map_of (os_dir st') (data_file_name i) = None)
          else st' = st)"
  using assms by (rule run_compaction_ends)

theorem compaction_completes_witness:
  "\<exists>st'. run_compaction sum_crc sealed_store = (Some (Inr ()), st') \<and>
     store_view sum_crc st' = [[107] \<mapsto> [118]] \<and> map_of (os_dir st') (data_file_name 1) = None"
  using compaction_completes [OF sealed_store_compactable(1)] sealed_store_compactable sealed_store_view
    sealed_store_fields(3) by auto

text \<open>
  C9. After a compaction that merged anything, no later one succeeds. The reader of a merged file
  stays in the map of readers, whatever other threads do afterwards, although the file is gone. So
  the next compaction that is due reads the removed file again through its open handle and then fails
  to remove it, before it subtracts the stale bytes. The map that the store stands for is not
  affected.
\<close>

theorem later_compaction_fails:
  assumes "compactable crc st" and "cfg_file_size_threshold (st_config st) \<noteq> 0" and "compaction_due st"
    and "run_compaction crc st = (Some (Inr ()), st1)"
    and "interleaved crc (Ended (Inr ()), st1) acts (c, st2)"
    and "unat (ws_current_file_id (st_writer st1)) + client_actions acts < 2 ^ 64"
  shows "compaction_inputs st2 \<noteq> [] \<and> \<not> inputs_present st2 \<and>
         (compactable crc st2 \<and> cfg_file_size_threshold (st_config st2) \<noteq> 0 \<and> compaction_due st2 \<longrightarrow>
            (\<exists>st3. run_compaction crc st2 = (Some (Inl not_found), st3) \<and> store_view crc st3 = store_view crc st2))"
proof -
  let ?cur = "ws_current_file_id (st_writer st)"
  obtain st0 log nxt where snap: "compaction_snapshot st =
       (Some (Inr (Some (compaction_inputs st, ws_stale_bytes_count (st_writer st), ?cur))), st0)"
    and ph: "phase crc (inputs_present st) ?cur nxt st0 log [(nxt, [])]
       (Merging (compaction_inputs st) (merge_init ?cur) (ws_stale_bytes_count (st_writer st)))"
    and keep0: "keeps_inputs ?cur st st0"
    using snapshot_phase [OF assms(1,3,2)] by blast
  have m: "compaction_merge crc (compaction_inputs st) (ws_stale_bytes_count (st_writer st)) ?cur st0 = (Inr (), st1)"
    using assms(4) snap by (auto simp: run_compaction_def split: prod.splits)
  obtain x1 t1 where ph1: "phase crc (inputs_present st) ?cur nxt st1 x1 t1 (Ended (Inr ()))" and keep1: "keeps_inputs ?cur st0 st1"
    using merge_phase_ended [OF ph m] by blast
  have pr: "inputs_present st" using phase_ended(2) [OF ph1] by (simp split: if_splits)
  obtain x2 t2 where ph2: "phase crc (inputs_present st) ?cur nxt st2 x2 t2 c" and keep2: "keeps_inputs ?cur st1 st2"
    using interleaved_phase [OF assms(5) refl ph1 assms(6)] by auto
  have "c = Ended (Inr ())" using interleaved_ended [OF assms(5)] by simp
  then have gone: "map_of (os_dir st2) (data_file_name i) = None" if "i < ?cur" for i
    using phase_ended(3) ph2 pr that by blast
  obtain i fd where i: "(i, fd) \<in> set (compaction_inputs st)"
    using assms(3) by (cases "compaction_inputs st") (auto simp: compaction_due_def)
  obtain log' where run: "running crc st [] log'" using assms(1) by (auto simp: compactable_def live_def)
  have get: "bt_get (st_readers st) i = Some fd" "i < ?cur" using compaction_inputs_iff(1) [OF run] i by blast+
  then have "bt_get (st_readers st2) i = Some fd"
    using keeps_inputs_trans [OF keeps_inputs_trans [OF keep0 keep1] keep2] by (simp add: keeps_inputs_def)
  moreover have "?cur < ws_current_file_id (st_writer st2)"
    using phase_view(3) [OF ph2 running_ids(3) [OF phase_view(1) [OF ph2]]] .
  ultimately have mem: "(i, fd) \<in> set (compaction_inputs st2)"
    using compaction_inputs_iff(1) [OF phase_view(1) [OF ph2]] get(2) by simp
  then have gone2: "\<not> inputs_present st2" using gone [OF get(2)] by (fastforce simp: inputs_present_def)
  have "\<exists>st3. run_compaction crc st2 = (Some (Inl not_found), st3) \<and> store_view crc st3 = store_view crc st2"
    if "compactable crc st2" "cfg_file_size_threshold (st_config st2) \<noteq> 0" "compaction_due st2"
    using run_compaction_ends [OF that(1,2)] that(3) gone2 by auto
  then show ?thesis using mem gone2 by auto
qed

theorem later_compaction_fails_witness:
  "\<exists>st1. run_compaction sum_crc sealed_store = (Some (Inr ()), st1) \<and> \<not> inputs_present st1"
proof -
  obtain st1 where run: "run_compaction sum_crc sealed_store = (Some (Inr ()), st1)"
    using run_compaction_ends [OF sealed_store_compactable(1)] sealed_store_compactable by auto
  have "unat (ws_current_file_id (st_writer st1)) + client_actions [] < 2 ^ 64"
    using unat_u64_bound [of "ws_current_file_id (st_writer st1)"] by (simp add: client_actions_def)
  then show ?thesis
    using later_compaction_fails [OF sealed_store_compactable(1) _ sealed_store_compactable(2) run interleaved.start]
      sealed_store_compactable(4) run by simp
qed

text \<open>
  C10. With a file size threshold of 0 a compaction that is due divides by zero while it holds the
  writer lock: it panics, the lock is poisoned, and from then on every \<open>set\<close> fails, with
  \<open>LockPoisoned\<close> if the clock can be read. The map that the store stands for is not affected.
\<close>

theorem zero_threshold_poisons:
  assumes "compaction_due st" and "cfg_file_size_threshold (st_config st) = 0" and "\<not> st_writer_poisoned st"
  shows "\<exists>st'. run_compaction crc st = (None, st') \<and> store_view crc st' = store_view crc st \<and>
         (\<forall>key v. fst (bitcask_set crc key v st') =
            (case os_clock st' (os_ticks st') of None \<Rightarrow> Inl Clock | Some _ \<Rightarrow> Inl LockPoisoned))"
proof -
  obtain m n where total: "total_len (compaction_inputs st) st = (m, st\<lparr>os_ticks := n\<rparr>)"
    using total_len_ticks by blast
  let ?st = "st\<lparr>os_ticks := n, st_writer_poisoned := True\<rparr>"
  have "run_compaction crc st = (None, ?st)"
    using assms total
    by (simp add: run_compaction_def compaction_snapshot_def writer_lock_def Let_def compaction_due_def
        compaction_inputs_def not_less)
  moreover have c: "file_content ?st = file_content st" by (simp add: fun_eq_iff file_content_def)
  have eb: "entry_bytes ?st = entry_bytes st" unfolding fun_eq_iff entry_bytes_def c by simp
  have ev: "entry_value crc ?st = entry_value crc st" unfolding fun_eq_iff entry_value_def eb by simp
  have "store_view crc ?st = store_view crc st" unfolding fun_eq_iff store_view_def ev by simp
  moreover have "fst (bitcask_set crc key v ?st) =
      (case os_clock ?st (os_ticks ?st) of None \<Rightarrow> Inl Clock | Some _ \<Rightarrow> Inl LockPoisoned)" for key v
    by (simp add: bitcask_set_def unix_now_def clock_now_def store_append_def append_record_def Let_def
        writer_lock_def split: option.split)
  ultimately show ?thesis by blast
qed

theorem zero_threshold_poisons_witness:
  "\<exists>st'. run_compaction sum_crc (sealed_store\<lparr>st_config := st_config sealed_store\<lparr>cfg_file_size_threshold := 0\<rparr>\<rparr>) = (None, st')"
proof -
  let ?st = "sealed_store\<lparr>st_config := st_config sealed_store\<lparr>cfg_file_size_threshold := 0\<rparr>\<rparr>"
  have "compaction_due ?st" using sealed_store_compactable(2) by (simp add: compaction_due_def compaction_inputs_def)
  moreover have "\<not> st_writer_poisoned ?st"
    using sealed_store_frame runningD(3) by (auto simp: live_def)
  ultimately show ?thesis using zero_threshold_poisons [of ?st sum_crc] by auto
qed

end
