(* ===== verification/Reopen.thy ===== *)
theory Reopen
  imports Compaction_Correct Lock_Correct
begin

text \<open>
  Crash and recovery: a store whose process dies at any point of an append is opened again. The
  files keep what was written to them, the record being appended may be torn, and the lock is
  released by the operating system.
\<close>

section \<open>A crash during an append\<close>

text \<open>What the process leaves behind when it dies after some bytes of a record.\<close>

definition crashed :: "bytes \<Rightarrow> store \<Rightarrow> os" where
  "crashed part st = os.truncate ((append_content (ws_file (st_writer st)) part st)\<lparr>os_flocks := []\<rparr>)"

lemma crashed_fields [simp]:
  "os_dir (crashed part st) = os_dir st" "os_flocks (crashed part st) = []"
  "os_clock (crashed part st) = os_clock st" "os_faults (crashed part st) = os_faults st"
  "length (os_inodes (crashed part st)) = length (os_inodes st)"
  by (simp_all add: crashed_def os.defs)

lemma crashed_content:
  assumes "ws_file (st_writer st) < length (os_inodes st)"
  shows "file_content (crashed part st) =
     (file_content st)(ws_file (st_writer st) := file_content st (ws_file (st_writer st)) @ part)"
  using assms by (auto simp: fun_eq_iff crashed_def os.defs file_content_def append_content_def)

lemma disk_log_torn:
  assumes log: "disk_log crc st sealed cur cs []" and wf: "dir_wf st"
    and fd: "map_of (os_dir st) (data_file_name cur) = Some (File_Entry fd)"
    and st': "os_dir st' = os_dir st" "length (os_inodes st') = length (os_inodes st)"
      "file_content st' = (file_content st)(fd := file_content st fd @ part)"
    and room: "length (file_content st fd) + length part \<le> MAX_FILE_LEN"
  shows "disk_log crc st' sealed cur cs part"
proof (rule disk_logI)
  have other: "file_content st' x = file_content st x"
    if "map_of (os_dir st) name = Some (File_Entry x)" "name \<noteq> data_file_name cur" for name x
    using that dir_wfD(3) [OF wf fd, of name] st'(3) by auto
  have sorted: "i \<noteq> cur" if "(i, ds) \<in> set sealed" for i ds
    using disk_logD(2) [OF log] that by (force simp: sorted_wrt_append)
  show "file_ok st' i (log_bytes crc ds)" if s: "(i, ds) \<in> set sealed" for i ds
    using disk_logD(4) [OF log s] other [of "data_file_name i"] sorted [OF s] st'(1,2) by (auto simp: file_ok_def)
  show "hint_ok crc st' i ds" if s: "(i, ds) \<in> set sealed" for i ds
    using disk_logD(5) [OF log s] other [of "hint_file_name i"] st'(1)
    by (subst hint_ok_cong [of _ _ st]) simp_all
  show "file_ok st' cur (log_bytes crc cs @ part)"
    using disk_log_fd(1,2) [OF log fd] fd st' room by (simp add: file_ok_def)
  show "name = data_file_name i"
    if "(name, entry) \<in> set (os_dir st')" "scan_file name entry = Some (i, x)" for name entry i x
    using that disk_logD(9) [OF log] st'(1) by simp
qed (use disk_logD(1,2,3,6,8) [OF log] st'(1) in simp_all)

lemma disk_log_whole:
  assumes "disk_log crc st sealed cur cs (command_serialize crc cmd)" and "command_ok cmd"
  shows "disk_log crc st sealed cur (cs @ [cmd]) []"
  using assms by (simp add: disk_log_def)

section \<open>Opening\<close>

lemma lock_acquire_own:
  assumes calm: "calm st" and l: "map_of (os_dir st) LOCK_FILE_NAME = Some (File_Entry l)"
    and free: "l \<notin> set (os_flocks st)" and own: "file_content st l = to_bytes ''bitcask''"
  shows "\<exists>n. lock_acquire StoreType_Bitcask st = (Inr l, st\<lparr>os_ticks := n, os_flocks := l # os_flocks st\<rparr>)"
proof -
  have "utf8_valid (to_bytes ''bitcask'')" by code_simp
  then show ?thesis
    using assms marker_trim_names(1)
    by (intro exI [of _ "Suc (Suc (Suc (os_ticks st)))"])
       (simp add: lock_acquire_def open_create_def calm_syscall calm_faults try_lock_def check_marker_def
         read_to_string_def calm_def syscall_def Let_def to_bytes_eq_Nil)
qed

text \<open>The readers of a store that was just opened.\<close>

lemma loaded_readers_log:
  assumes ld: "loaded crc sealed cur cs ld st" and wf: "dir_wf st"
    and recs: "\<And>i ds. (i, ds) \<in> set (sealed @ [(cur, cs)]) \<Longrightarrow>
      \<exists>es. log_bytes crc ds = log_bytes crc es \<and> list_all record_ok es"
  shows "readers_log crc (make_store config lock ld st)"
  unfolding readers_log_def
proof (intro allI impI conjI)
  fix i fd assume g: "bt_get (st_readers (make_store config lock ld st)) i = Some fd"
  have log: "disk_log crc st sealed cur cs []"
    and get: "\<And>i fd. bt_get (ld_readers ld) i = Some fd \<longleftrightarrow>
        map_of (os_dir st) (data_file_name i) = Some (File_Entry fd)"
    using ld by (simp_all add: loaded_def)
  have fd: "map_of (os_dir st) (data_file_name i) = Some (File_Entry fd)" using g get by simp
  then have "i \<in> set (map fst sealed @ [cur])" using disk_log_ids [OF log] by blast
  then obtain ds where ds: "(i, ds) \<in> set (sealed @ [(cur, cs)])" by fastforce
  have "file_content st fd = log_bytes crc ds"
  proof (cases "(i, ds) \<in> set sealed")
    case True
    then show ?thesis by (rule disk_log_fd(3) [OF log fd])
  next
    case False
    then show ?thesis using ds disk_log_fd(2) [OF log fd] by auto
  qed
  with recs [OF ds] show "\<exists>cs. file_content (make_store config lock ld st) fd = log_bytes crc cs \<and> list_all record_ok cs"
    by auto
  show "length (file_content (make_store config lock ld st) fd) \<le> MAX_FILE_LEN"
    using disk_log_fd(4) [OF log fd] by simp
  fix j assume "bt_get (st_readers (make_store config lock ld st)) j = Some fd"
  then have "map_of (os_dir st) (data_file_name j) = Some (File_Entry fd)" using get by simp
  from dir_wfD(3) [OF wf this fd] show "j = i" by simp
qed

lemma open_disk_log:
  assumes calm: "calm st" and log: "disk_log crc st sealed cur cs tail" and wf: "dir_wf st"
    and tail: "tail = [] \<or> \<not> has_frame tail"
    and hints: "\<And>i. cur \<le> i \<Longrightarrow> map_of (os_dir st) (hint_file_name i) = None"
    and l: "map_of (os_dir st) LOCK_FILE_NAME = Some (File_Entry l)"
    and free: "l \<notin> set (os_flocks st)" and own: "file_content st l = to_bytes ''bitcask''"
    and recs: "\<And>i ds. (i, ds) \<in> set (sealed @ [(cur, cs)]) \<Longrightarrow>
      \<exists>es. log_bytes crc ds = log_bytes crc es \<and> list_all record_ok es"
  shows "\<exists>st'. bitcask_open crc config st = Inr st' \<and> live crc st' \<and> store_view crc st' = log_view (sealed @ [(cur, cs)])"
proof -
  let ?t = "tick st"
  have "calm ?t" "file_content ?t l = to_bytes ''bitcask''" using calm own by simp_all
  then obtain n where lock: "lock_acquire StoreType_Bitcask ?t =
      (Inr l, ?t\<lparr>os_ticks := n, os_flocks := l # os_flocks ?t\<rparr>)"
    using lock_acquire_own [of ?t l] l free by auto
  define st1 where "st1 = ?t\<lparr>os_ticks := n, os_flocks := l # os_flocks ?t\<rparr>"
  have same: "os_dir st1 = os_dir st" "length (os_inodes st1) = length (os_inodes st)"
    "file_content st1 = file_content st" "calm st1 = calm st" "dir_wf st1 = dir_wf st"
    by (simp_all add: st1_def file_content_def fun_eq_iff calm_def dir_wf_def)
  have "disk_log crc st1 sealed cur cs tail" using log disk_log_cong [OF same(1-3)] by simp
  with calm wf tail obtain ld st2 where ld: "load crc st1 = (Inr ld, st2)" "loaded crc sealed cur cs ld st2" "dir_wf st2"
    "os_frame st1 st2" "map_of (os_dir st2) = cleaned_dir st1"
    using load_disk_log [of st1 crc sealed cur cs tail] same by auto
  let ?s = "make_store config l ld st2"
  have "map_of (os_dir st2) (hint_file_name i) = None" if "cur \<le> i" for i
    using hints [OF that] ld(5) same(1) by (simp add: cleaned_dir_def)
  from loaded_log_inv [OF ld(2,3) this] have inv: "log_inv crc ?s sealed cs" .
  have cur: "ws_current_file_id (st_writer ?s) = cur" using ld(2) by (simp add: loaded_def)
  have "calm ?s" using ld(4) calm same(4) by (simp add: calm_def os_frame_def)
  moreover have "readers_log crc ?s" by (rule loaded_readers_log [OF ld(2,3) recs])
  ultimately have "running crc ?s [] (sealed @ [(cur, cs)])"
    using log_invD(1) [OF inv] cur by (auto simp: running_def)
  then have "live crc ?s" using log_invD(2) [OF inv] cur unfolding live_def by auto
  moreover have "store_view crc ?s = log_view (sealed @ [(cur, cs)])" using log_inv_view [OF inv] cur by simp
  moreover have "bitcask_open crc config st = Inr ?s"
    using lock ld(1) calm by (simp add: bitcask_open_def create_dir_all_def calm_syscall st1_def)
  ultimately show ?thesis by blast
qed

section \<open>Recovery\<close>

text \<open>
  C7. Nothing that was written is lost when the process dies, and nothing else appears. A store whose
  process dies after any number of bytes of the append of any record, and on whose directory \<open>open\<close> is
  called again, opens: it is the map it was before the append or, if the whole record reached the
  file, with the record applied. Its index is again that of the log on the disk, without a torn tail.
\<close>

theorem reopen_recovers:
  assumes "live crc st" and "record_ok cmd" and "n \<le> length (command_serialize crc cmd)"
    and "length (file_content st (ws_file (st_writer st))) + length (command_serialize crc cmd) \<le> MAX_FILE_LEN"
    and "map_of (os_dir st) LOCK_FILE_NAME = Some (File_Entry l)" and "file_content st l = to_bytes ''bitcask''"
  shows "\<exists>st'. bitcask_open crc config (crashed (take n (command_serialize crc cmd)) st) = Inr st' \<and> live crc st' \<and>
     store_view crc st' =
       (if n < length (command_serialize crc cmd) then store_view crc st else view_apply cmd (store_view crc st))"
proof -
  let ?bs = "command_serialize crc cmd"
  let ?os = "crashed (take n ?bs) st"
  let ?fd = "ws_file (st_writer st)" and ?cur = "ws_current_file_id (st_writer st)"
  obtain b cs where run: "running crc st [] (b @ [(?cur, cs)])" and base: "log_base crc st b cs"
    and ix: "index_lookup (st_index st) = log_index (b @ [(?cur, cs)])"
    using assms(1) by (auto simp: live_def running_def)
  note w = log_base_writer [OF base] and wf = log_baseD(3) [OF base]
  have view: "store_view crc st = log_view (b @ [(?cur, cs)])" using running_log_view [OF run] ix by simp
  have content: "file_content ?os = (file_content st)(?fd := file_content st ?fd @ take n ?bs)"
    by (rule crashed_content) (use dir_wfD(2) [OF wf w(1)] in simp)
  have log: "disk_log crc ?os b ?cur cs (take n ?bs)"
    by (rule disk_log_torn [OF log_baseD(2) [OF base] wf w(1) _ _ content]) (use assms(3,4) in simp_all)
  have "LOCK_FILE_NAME \<noteq> data_file_name ?cur"
  proof -
    have "last LOCK_FILE_NAME = CHR ''k''" "last (data_file_name ?cur) = CHR ''a''"
      by (simp_all add: LOCK_FILE_NAME_def data_file_name_def)
    then show ?thesis by auto
  qed
  then have "l \<noteq> ?fd" using dir_wfD(3) [OF wf assms(5), of "data_file_name ?cur"] w(1) by auto
  then have own: "file_content ?os l = to_bytes ''bitcask''" using content assms(6) by simp
  have env: "calm ?os" "dir_wf ?os" using runningD(1) [OF run] wf by (simp_all add: calm_def dir_wf_def)
  have recs: "\<exists>es. log_bytes crc ds = log_bytes crc es \<and> list_all record_ok es" if "(i, ds) \<in> set (b @ [(?cur, cs)])" for i ds
  proof -
    have "\<exists>fd. map_of (os_dir st) (data_file_name i) = Some (File_Entry fd) \<and> file_content st fd = log_bytes crc ds"
      using that w(1,2) disk_logD(4) [OF log_baseD(2) [OF base], of i ds] by (cases "(i, ds) \<in> set b") (auto simp: file_ok_def)
    then obtain fd where fd: "map_of (os_dir st) (data_file_name i) = Some (File_Entry fd)"
      and c: "file_content st fd = log_bytes crc ds" by blast
    from readers_logD [OF runningD(4) [OF run] log_baseD(4) [OF base fd]] c show ?thesis by auto
  qed
  note go = open_disk_log [OF env(1) _ env(2) _ _ _ _ own]
  have tail: "take n ?bs = [] \<or> \<not> has_frame (take n ?bs)" if "n < length ?bs"
    using framed_torn [OF framed_serialize that] assms(2) by (simp add: record_ok_def command_ok_def)
  show ?thesis
  proof (cases "n < length ?bs")
    case True
    have "\<exists>st'. bitcask_open crc config ?os = Inr st' \<and> live crc st' \<and> store_view crc st' = log_view (b @ [(?cur, cs)])"
      by (rule go [OF log tail [OF True]]) (use log_baseD(5) [OF base] assms(5) recs in simp_all)
    with True view show ?thesis by simp
  next
    case False
    then have "take n ?bs = ?bs" by simp
    with log assms(2) have log': "disk_log crc ?os b ?cur (cs @ [cmd]) []"
      by (intro disk_log_whole) (simp_all add: record_ok_def)
    have recs': "\<exists>es. log_bytes crc ds = log_bytes crc es \<and> list_all record_ok es"
      if "(i, ds) \<in> set (b @ [(?cur, cs @ [cmd])])" for i ds
    proof (cases "(i, ds) \<in> set b")
      case True
      then show ?thesis using recs by auto
    next
      case False
      with that have ds: "ds = cs @ [cmd]" by auto
      obtain es where "log_bytes crc cs = log_bytes crc es" "list_all record_ok es" using recs by auto
      with assms(2) ds show ?thesis by (intro exI [of _ "es @ [cmd]"]) simp
    qed
    have "\<exists>st'. bitcask_open crc config ?os = Inr st' \<and> live crc st' \<and> store_view crc st' = log_view (b @ [(?cur, cs @ [cmd])])"
      by (rule go [OF log']) (use log_baseD(5) [OF base] assms(5) recs' in simp_all)
    with False view show ?thesis by (simp add: log_view_append_command)
  qed
qed

theorem reopen_recovers_witness:
  "(\<exists>st. bitcask_open sum_crc (config_new ''/data'' StoreType_Bitcask)
       (crashed (take 20 (command_serialize sum_crc (Command_Set 7 [107] [118]))) calm_store) = Inr st \<and>
     store_view sum_crc st = Map.empty) \<and>
   (\<exists>st. bitcask_open sum_crc (config_new ''/data'' StoreType_Bitcask)
       (crashed (take 27 (command_serialize sum_crc (Command_Set 7 [107] [118]))) calm_store) = Inr st \<and>
     store_view sum_crc st = [[107] \<mapsto> [118]])"
proof -
  let ?cmd = "Command_Set 7 [107] [118]"
  have live: "live sum_crc calm_store" unfolding calm_store_def by (rule new_store_live)
  have ok: "record_ok ?cmd" using pair_ok_record(1) [of "[107]" "[118]"] small_pair(2) utf8_valid_ascii [of "[107]"]
    by (simp add: pair_ok_def pair_limit_def)
  have st: "file_content calm_store (ws_file (st_writer calm_store)) = []"
    "map_of (os_dir calm_store) LOCK_FILE_NAME = Some (File_Entry 0)" "file_content calm_store 0 = to_bytes ''bitcask''"
    by (simp_all add: calm_store_def new_store_def file_content_def)
  show ?thesis
    using reopen_recovers [OF live ok _ _ st(2,3), of 20 "config_new ''/data'' StoreType_Bitcask"]
      reopen_recovers [OF live ok _ _ st(2,3), of 27 "config_new ''/data'' StoreType_Bitcask"]
    by (auto simp: HEADER_LEN_def st(1) MAX_FILE_LEN_def calm_store_facts(2))
qed

end
