(* ===== verification/Spec2Isabelle.thy ===== *)
theory Spec2Isabelle
  imports Codec_Correct Bitcask_Correct Log_Inv Lock_Correct Resp_Replies Front_Ends Reopen
begin

text \<open>
  A verification library for \<open>kvs\<close>, a key-value store in Rust (\<open>src/src\<close>) after the design of
  Bitcask, with a server, a client and a REPL.

  \<^bold>\<open>The program.\<close> A store is a directory of append-only data files. A write appends a record to the
  active file and puts the position of the record into an index in memory; a read looks the position
  up and reads the record. A full active file is sealed and a new one started. When enough bytes are
  stale, a background thread copies the live records of the sealed files to new files with hint files
  beside them, moves the index entries over and removes the old files. Opening a directory scans it
  and replays the data and hint files into a new index. A lock file keeps a directory to one process
  and one engine; the other engine is the third-party database sled. The server speaks a binary
  protocol and RESP, chosen by the first byte of a connection.

  \<^bold>\<open>Conventions.\<close> Bytes are \<open>8 word list\<close>, \<open>u32\<close> and \<open>u64\<close> are words, and \<open>+\<close> and \<open>-\<close> on them wrap, as in a
  release build; a build with overflow checks panics instead where they would. A \<open>&str\<close> is its UTF-8
  bytes. A result is \<open>kvs_error + 'a\<close>; a stateful function returns it with the new state and is composed
  with \<open>st_bind\<close>, the question mark operator. A panic, and a loop that does not end, is None. Bodies that
  are generic in \<open>KvStore\<close> take the operations as a record. The checksum (\<open>crc32fast\<close>) is an argument
  of which nothing is assumed. The order of the theories is that of the imports.

  \<^bold>\<open>The model and the sources.\<close>
  \<^item> \<open>Prelude\<close>, \<open>Text\<close>, \<open>Btree\<close>, \<open>Streams\<close>: the parts of the standard library that are used: words as bytes,
    the result type, UTF-8, decimal numbers, white space, \<open>BTreeMap\<close>, buffered streams and sockets.
  \<^item> \<open>Errors\<close>: \<open>storage/error.rs\<close>, \<open>network/error.rs\<close>. \<open>Config\<close>: \<open>storage/config.rs\<close>, \<open>policy.rs\<close>.
  \<^item> \<open>Bytes_Util\<close>, \<open>Command\<close>, \<open>Index_Value\<close>, \<open>Record_Reader\<close>, \<open>Index\<close>: the files of these names in \<open>storage/\<close>.
  \<^item> \<open>Os\<close>: one directory, inodes, advisory locks and a clock. Each call can fail, and a failing write can
    be partial; which calls fail is a function in the state of which the definitions assume nothing.
  \<^item> \<open>Lock_File\<close>: \<open>LockFile::acquire\<close> of \<open>storage/lock_file.rs\<close>.
  \<^item> \<open>File_Names\<close>, \<open>Store\<close>, \<open>Loader\<close>, \<open>Merge\<close>: \<open>storage/bitcask.rs\<close>. \<open>Store\<close> has the writer state, \<open>append\<close>,
    \<open>rotate_to\<close>, \<open>handle_policy\<close>, \<open>set\<close>, \<open>remove\<close> and \<open>get\<close>; \<open>Loader\<close> has \<open>open\<close> with its scan and replay; \<open>Merge\<close>
    has \<open>run_compaction\<close>, the thread that runs it and the drop of the handle.
  \<^item> \<open>Kv_Trait\<close>, \<open>Kv_Store\<close>: \<open>storage/kvstore.rs\<close> and the wrapper \<open>storage/sled_store.rs\<close>. sled is the record
    \<open>sled_api\<close> of the five functions called.
  \<^item> \<open>Protocol\<close>, \<open>Resp\<close>: \<open>network/protocol.rs\<close>, \<open>network/resp.rs\<close>. \<open>Server\<close>: a connection of
    \<open>bin/kvs-server.rs\<close>. \<open>Repl\<close>: \<open>repl_helper.rs\<close>, \<open>bin/kvs.rs\<close> and \<open>bin/kvs-client.rs\<close>.

  \<^bold>\<open>Interfaces.\<close> \<open>keydir\<close> (\<open>Index\<close>) is the contract of the index, interpreted on the buckets and on the
  locked index. \<open>kv_contract\<close> (\<open>Kv_Trait\<close>) is what the server and the REPL rely on: the store is a map
  from keys to values, and n more operations can be served. It is interpreted on a map and, in
  \<open>Kv_Store\<close>, on the Bitcask model; the front ends are verified once, inside the locale.

  \<^bold>\<open>What is shown.\<close>
  \<^item> \<open>Codec_Correct\<close>: records and hints are decoded to what was encoded, nothing else is accepted, and
    damage is told apart: cut short, or a wrong checksum.
  \<^item> \<open>Store_Inv\<close>, \<open>Store_Ops\<close>, \<open>Bitcask_Correct\<close>: the invariant of a store (every index entry points at a whole
    record that sets its key; the offset is the end of the active file), the map it stands for,
    \<open>store_view\<close>, and that \<open>set\<close>, \<open>get\<close> and \<open>remove\<close> are update, lookup and deletion on that map; that they
    succeed without I/O errors; what survives a \<open>set\<close> that fails; and two ways in which a failure harms
    later operations: a torn write misplaces the next record, and a failed rotation makes \<open>get\<close> loop.
  \<^item> \<open>Log\<close>, \<open>Recovery\<close>, \<open>Disk_Log\<close>, \<open>Log_Inv\<close>, \<open>Reopen\<close>: the files of a directory as a log, the loops of the
    loader as operations on its index, and recovery: a store whose process dies anywhere in an append
    opens again as the map it was, without or with that record.
  \<^item> \<open>Merge_Log\<close>, \<open>Merge_Disk\<close>, \<open>Merge_Inv\<close>, \<open>Merge_Copy\<close>, \<open>Merge_Step\<close>, \<open>Merge_Read\<close>, \<open>Merge_Publish\<close>, \<open>Merge_Remove\<close>,
    \<open>Compactor\<close>, \<open>Compaction_Inv\<close>, \<open>Compaction\<close>, \<open>Compaction_Correct\<close>: compaction. Its steps, interleaved
    with any operations of other threads, never change the map; it ends; after one that merged
    anything, every later one fails; a file size threshold of 0 poisons the writer lock.
  \<^item> \<open>Lock_Correct\<close>: the lock has one owner, a directory one engine, and a failure leaves no lock.
  \<^item> \<open>Kv_Store\<close>: the wrapper of sled, when any call of the database may fail.
  \<^item> \<open>Protocol_Correct\<close>, \<open>Resp_Correct\<close>, \<open>Resp_Replies\<close>: both protocols are read as they are written, whatever the
    chunks of the stream and whatever follows; limits; truncated and malformed input; which command
    is decoded as which request or error; that every reply is one value.
  \<^item> \<open>Server_Correct\<close>, \<open>Server_Sim\<close>, \<open>Front_Ends\<close>: sessions answer as the map does, a bad request does not
    disturb its neighbours, the server on Bitcask cannot be told from the server on a map, the client
    gets the map's answers through the server, and the REPL carries out a session that is specified on
    a map and on the words of its lines (\<open>Utf8_Split\<close>, \<open>Words\<close>).

  \<^bold>\<open>Granularity.\<close> A write holds the writer mutex from its first to its last effect on the store and is
  one step, as is each lookup. \<open>remove\<close> looks its key up before it takes the mutex; \<open>Compactor\<close> has it both
  as one step and as two with anything in between. \<open>get\<close> is one step. In the program its index entry may
  be replaced before the file is read; the file it then reads stays readable through its open handle,
  since readers are never dropped and records never change, so it returns the value of the moment of
  its lookup. The compactor is cut at every record, publication, index update and removal.

  \<^bold>\<open>Bounds.\<close> \<open>pair_limit\<close> is 2 to the 25, the most bytes of a key and a value together in the contract: two
  arguments of 16 MiB, the most that either protocol lets through, and small enough for the 32-bit
  length fields of a record. \<open>MAX_FILE_LEN\<close> is the largest file offset; \<open>merge_limit\<close> bounds the bytes of
  one compaction so that every output stays below it. File ids are 64-bit and are assumed not to run
  out. There is no fuel: the loops of the loader, the readers, the compaction and the sessions are
  total. Only the loop of \<open>get\<close> may not end; it is a \<open>partial_function (option)\<close>, a session that waits for
  it is None as well, and the theorems state that it does return.

  \<^bold>\<open>Not modelled.\<close> \<open>log.rs\<close> and the log messages, module files and re-exports; the command lines (\<open>clap\<close>); the
  line editor, whose events are an input, and its history; the listening socket and the thread per
  connection; the inside of sled, \<open>crc32fast\<close> and the JSON library. Loss of power is not modelled
  beyond the length of each file that was synced: recovery is proved for the death of the process.
  The I/O errors of the operating system are arbitrary in the definitions; the theorems on
  compaction and recovery are for runs without them.
\<close>

end
